(* ===== verification/Prelude.thy ===== *)
theory Prelude
  imports Main "HOL-Library.Word"
begin

unbundle bit_operations_syntax

text \<open>
  Shared vocabulary of the development: the machine types of the 32-bit x86 target, the
  exceptions the code throws, and generic facts on words, lists and loops that the component
  theories use.

  \<^item> \<open>u8\<close>, \<open>u16\<close>, \<open>u32\<close>, \<open>u64\<close> are the C types \<^verbatim>\<open>uint8_t\<close> ... \<^verbatim>\<open>uint64_t\<close>;
    addition and subtraction wrap around, as they do in the code. A pointer is a \<open>u32\<close>, and
    \<^verbatim>\<open>nullptr\<close> is \<open>0\<close>.
  \<^item> \<open>'a result\<close> is what a function returns that may call
    \<^verbatim>\<open>Util::Exception::throwException\<close>, which does not return: \<open>Inl e\<close> is the throw,
    \<open>Inr x\<close> the normal return.
\<close>

section \<open>Machine types\<close>

type_synonym u8 = "8 word"
type_synonym u16 = "16 word"
type_synonym u32 = "32 word"
type_synonym u64 = "64 word"

abbreviation UINT16_MAX :: u16 where "UINT16_MAX \<equiv> 0xffff"
abbreviation UINT32_MAX :: u32 where "UINT32_MAX \<equiv> 0xffffffff"
abbreviation nullptr :: u32 where "nullptr \<equiv> 0"

definition PAGESIZE :: u32 where
  "PAGESIZE = 0x1000"

section \<open>Exceptions\<close>

datatype Error =
    DIVIDE_BY_ZERO | DEBUG | NON_MASKABLE_INTERRUPT | BREAKPOINT | OVERFLOW
  | BOUND_RANGE_EXCEEDED | INVALID_OPCODE | DEVICE_NOT_AVAILABLE | DOUBLE_FAULT
  | COPROCESSOR_SEGMENT_OVERRUN | INVALID_TSS | SEGMENT_NOT_PRESENT | STACK_SEGMENT_FAULT
  | GENERAL_PROTECTION_FAULT | PAGE_FAULT | X87_FLOATING_POINT_EXCEPTION | ALIGNMENT_CHECK
  | MACHINE_CHECK | SIMD_FLOATING_POINT_EXCEPTION | VIRTUALIZATION_EXCEPTION
  | SECURITY_EXCEPTION
  | NULL_POINTER | OUT_OF_BOUNDS | INVALID_ARGUMENT | KEY_NOT_FOUND | ILLEGAL_STATE
  | OUT_OF_MEMORY | OUT_OF_PHYSICAL_MEMORY | OUT_OF_PAGING_MEMORY | ILLEGAL_PAGE_ACCESS
  | CLASS_NOT_FOUND | PAGING_ERROR | UNSUPPORTED_OPERATION

type_synonym 'a result = "Error + 'a"

definition res_bind :: "'a result \<Rightarrow> ('a \<Rightarrow> 'b result) \<Rightarrow> 'b result" where
  "res_bind m f = (case m of Inl e \<Rightarrow> Inl e | Inr x \<Rightarrow> f x)"

named_theorems res_iff \<open>when a composed operation returns normally\<close>
named_theorems word_nat \<open>word arithmetic read as arithmetic on natural numbers\<close>

lemma res_bind_simps [simp]:
  "res_bind (Inl e) f = Inl e"
  "res_bind (Inr x) f = f x"
  by (simp_all add: res_bind_def)

lemma res_bind_cong [fundef_cong]:
  "x = y \<Longrightarrow> (\<And>a. y = Inr a \<Longrightarrow> f a = g a) \<Longrightarrow> res_bind x f = res_bind y g"
  by (cases y) auto

lemma res_bind_Inr_iff [res_iff]:
  "res_bind m f = Inr y \<longleftrightarrow> (\<exists>x. m = Inr x \<and> f x = Inr y)"
  by (cases m) auto

lemma res_bind_Inl_iff [res_iff]:
  "res_bind m f = Inl e \<longleftrightarrow> m = Inl e \<or> (\<exists>x. m = Inr x \<and> f x = Inl e)"
  by (cases m) auto

text \<open>An operation that may also never return, or run into undefined behaviour (\<open>None\<close>).\<close>

type_synonym 'a outcome = "'a result option"

definition out_bind :: "'a outcome \<Rightarrow> ('a \<Rightarrow> 'b outcome) \<Rightarrow> 'b outcome" where
  "out_bind m f = (case m of None \<Rightarrow> None | Some (Inl e) \<Rightarrow> Some (Inl e) | Some (Inr x) \<Rightarrow> f x)"

lemma out_bind_simps [simp]:
  "out_bind None f = None" "out_bind (Some (Inl e)) f = Some (Inl e)" "out_bind (Some (Inr x)) f = f x"
  by (simp_all add: out_bind_def)

lemma out_bind_cong [fundef_cong]:
  "x = y \<Longrightarrow> (\<And>a. y = Some (Inr a) \<Longrightarrow> f a = g a) \<Longrightarrow> out_bind x f = out_bind y g"
  by (simp add: out_bind_def split: option.splits sum.splits)

section \<open>Words\<close>

lemma unat_less_suc [word_nat]:
  "i < n \<Longrightarrow> unat (i + 1) = Suc (unat i)" for i n :: "'a::len word"
  by unat_arith

lemma unat_u32_lt [simp]: "unat (x::u32) < 4294967296"
  using unsigned_less [of x, where 'a = nat] by simp

text \<open>
  A half-open window of \<open>n\<close> addresses that starts at \<open>t\<close> and may wrap around the end of the
  address space: \<open>x\<close> lies in it when \<open>x - t\<close>, computed modulo \<open>2 ^ w\<close>, is below \<open>n\<close>.
\<close>

lemma window_step:
  fixes x t :: "'a::len word"
  shows "unat (x - t) < Suc n \<longleftrightarrow> x = t \<or> unat (x - (t + 1)) < n"
proof (cases "x = t")
  case False
  then have "x - t \<noteq> 0" by simp
  then have "unat (x - (t + 1)) = unat (x - t) - 1" and "0 < unat (x - t)"
    by (simp_all add: diff_diff_eq [symmetric] unat_minus_one unat_gt_0)
  with False show ?thesis by auto
qed simp

lemma window_split:
  fixes x t :: "'a::len word"
  shows "unat (x - t) < m + n \<longleftrightarrow> unat (x - t) < m \<or> unat (x - (t + of_nat m)) < n"
proof (induction m arbitrary: t)
  case 0
  then show ?case by simp
next
  case (Suc m)
  have "unat (x - t) < Suc m + n \<longleftrightarrow> x = t \<or> unat (x - (t + 1)) < m + n"
    using window_step [of x t "m + n"] by simp
  also have "\<dots> \<longleftrightarrow> x = t \<or> unat (x - (t + 1)) < m \<or> unat (x - (t + 1 + of_nat m)) < n"
    using Suc by simp
  also have "\<dots> \<longleftrightarrow> unat (x - t) < Suc m \<or> unat (x - (t + of_nat (Suc m))) < n"
    using window_step [of x t m] by (auto simp: ac_simps)
  finally show ?case .
qed

lemma unat_pow2 [simp]: "k < LENGTH('a) \<Longrightarrow> unat (2 ^ k :: 'a::len word) = 2 ^ k"
proof -
  assume "k < LENGTH('a)"
  then have "(2::nat) ^ k < 2 ^ LENGTH('a)" by simp
  then show ?thesis using unat_of_nat [of "2 ^ k", where 'a = 'a] by simp
qed

lemma unat_complement: "unat (t - s) + unat (s - t) \<le> 2 ^ LENGTH('a)" for s t :: "'a::len word"
proof -
  have "unat s \<le> 2 ^ LENGTH('a)" and "unat t \<le> 2 ^ LENGTH('a)"
    by (simp_all add: less_imp_le)
  then show ?thesis unfolding unat_sub_if' by (simp split: if_split)
qed

lemma and_not_mask: "w AND NOT (mask k) = w - take_bit k w" for w :: "'a::len word"
proof -
  have "w AND NOT (mask k) = push_bit k (drop_bit k w)"
    by (rule bit_word_eqI) (auto simp: bit_simps)
  moreover have "push_bit k (drop_bit k w) + take_bit k w = w" by (rule bits_ident)
  ultimately show ?thesis by (simp add: algebra_simps)
qed

lemma unat_and_not_mask:
  "unat (w AND NOT (mask k)) = unat w div 2 ^ k * 2 ^ k" for w :: "'a::len word"
proof -
  have "unat (take_bit k w) = unat w mod 2 ^ k"
    by (simp only: unsigned_take_bit_eq) (simp add: take_bit_eq_mod)
  moreover from this have "unat (w - take_bit k w) = unat w - unat (take_bit k w)"
    by (intro unat_sub) (simp add: word_le_nat_alt)
  ultimately show ?thesis
    by (simp add: and_not_mask minus_mod_eq_div_mult)
qed

lemma unat_inc: "Suc (unat x) < 2 ^ 32 \<Longrightarrow> unat (x + 1 :: u32) = Suc (unat x)"
  by (simp add: unat_word_ariths(1))

lemma u32_le_max [simp]: "(x :: u32) \<le> 0xffffffff"
  by (simp add: word_le_nat_alt less_Suc_eq_le [symmetric])

lemma unat_of_nat32 [simp]: "n < 2 ^ 32 \<Longrightarrow> unat (of_nat n :: u32) = n"
  by (simp add: unat_of_nat)

lemma unat_lt_2_32: "unat (x :: u32) < 2 ^ 32"
  by simp

lemma not_max_less [simp]: "\<not> (0xffffffff :: u32) < x"
  by (simp add: not_less)

lemma strides_apart: "i \<noteq> j \<Longrightarrow> Suc i * n \<le> j * n \<or> Suc j * n \<le> i * n" for n :: nat
  by (metis Suc_leI linorder_neqE_nat mult_le_mono1)

text \<open>Narrowing and widening casts as arithmetic.\<close>

lemma unat_ucast_mod:
  "unat (ucast (x :: 'a::len word) :: 'b::len word) = unat x mod 2 ^ LENGTH('b)"
  by (simp add: unsigned_ucast_eq unsigned_take_bit_eq take_bit_eq_mod)

lemma unat_ucast_up:
  assumes "LENGTH('a) \<le> LENGTH('b)"
  shows "unat (ucast (x :: 'a::len word) :: 'b::len word) = unat x"
proof -
  have "unat x < 2 ^ LENGTH('a)"
    by simp
  also have "\<dots> \<le> 2 ^ LENGTH('b)"
    using assms by simp
  finally show ?thesis
    by (simp add: unat_ucast_mod)
qed

lemma ucast_of_nat_unat: "(ucast (x :: 'a::len word) :: 'b::len word) = of_nat (unat x)"
  by (simp add: word_unat_eq_iff unat_ucast_mod unat_of_nat)

end
