(* ===== verification/Address_Spaces.thy ===== *)
theory Address_Spaces
  imports Prelude
begin

text \<open>
  Paging (kernel/memory): \<^verbatim>\<open>Paging::Entry\<close>, \<^verbatim>\<open>Paging::Table\<close>, \<^verbatim>\<open>Kernel::VirtualAddressSpace\<close> and the
  page table functions of \<^verbatim>\<open>Kernel::MemoryService\<close>.

  The page tables and directories live in a typed store, \<open>pg_tables\<close>, from the virtual address of
  a table to its 1024 entries. Every address space has two directories: the virtual one, through
  which the kernel finds the page tables, and the physical one, which the processor reads.
  Freeing an empty page table unmaps its own page, so \<open>vas_unmap\<close> and \<open>freePageTable\<close> call each
  other; the number of used entries decreases in every round. The source of page tables, the
  paging area manager, is the locale \<open>page_table_source\<close>. The invariant \<open>paging_ok\<close> says that the
  spaces share exactly the tables of the kernel area and that the physical directories agree
  with the virtual ones.
\<close>

section \<open>Entries and tables\<close>

record Entry =
  e_flags :: "12 word"
  e_address :: "20 word"

definition entry_set :: "u32 \<Rightarrow> u16 \<Rightarrow> Entry" where
  "entry_set address flags = \<lparr>e_flags = ucast flags, e_address = ucast (drop_bit 12 address)\<rparr>"

definition entry_clear :: Entry where
  "entry_clear = entry_set 0 0"

definition entry_getAddress :: "Entry \<Rightarrow> u32" where
  "entry_getAddress e = push_bit 12 (ucast (e_address e))"

definition entry_getFlags :: "Entry \<Rightarrow> u16" where
  "entry_getFlags e = ucast (e_flags e)"

definition entry_isUnused :: "Entry \<Rightarrow> bool" where
  "entry_isUnused e \<longleftrightarrow> e_address e = 0 \<and> e_flags e = 0"

text \<open>A table has 1024 entries; an index is a number of ten bits.\<close>

type_synonym Table = "10 word \<Rightarrow> Entry"

definition table_clear :: Table where
  "table_clear = (\<lambda>_. \<lparr>e_flags = 0, e_address = 0\<rparr>)"

definition table_isEmpty :: "Table \<Rightarrow> bool" where
  "table_isEmpty t \<longleftrightarrow> list_all (\<lambda>i. entry_isUnused (t (of_nat i))) [0..<1024]"

definition PRESENT :: u16 where "PRESENT = 0x01"
definition WRITABLE :: u16 where "WRITABLE = 0x02"
definition USER_ACCESSIBLE :: u16 where "USER_ACCESSIBLE = 0x04"
definition CACHE_DISABLE :: u16 where "CACHE_DISABLE = 0x10"

definition DIRECTORY_INDEX :: "u32 \<Rightarrow> 10 word" where
  "DIRECTORY_INDEX virtualAddress = ucast (drop_bit 22 virtualAddress)"

definition TABLE_INDEX :: "u32 \<Rightarrow> 10 word" where
  "TABLE_INDEX virtualAddress = ucast (drop_bit 12 virtualAddress AND 0x000003ff)"

section \<open>Address spaces\<close>

definition KERNEL_START :: u32 where "KERNEL_START = 0x00100000"
definition KERNEL_END :: u32 where "KERNEL_END = 0x8000000"

record VirtualAddressSpace =
  kernelAddressSpace :: bool
  physicalPageDirectory :: u32
  virtualPageDirectory :: u32

text \<open>
  What the operations see of the memory service: the tables, the manager of the paging area, the
  list of all address spaces and the current one.
\<close>

record 'b PagingState =
  pg_tables :: "u32 \<Rightarrow> Table"
  pg_source :: 'b
  pg_spaces :: "VirtualAddressSpace list"
  pg_current :: VirtualAddressSpace

definition put_entry :: "'b PagingState \<Rightarrow> u32 \<Rightarrow> 10 word \<Rightarrow> Entry \<Rightarrow> 'b PagingState" where
  "put_entry st t i e = st\<lparr>pg_tables := (pg_tables st)(t := (pg_tables st t)(i := e))\<rparr>"

definition allocatePageTable ::
    "('b \<Rightarrow> (u32 \<times> 'b) result) \<Rightarrow> 'b PagingState \<Rightarrow> (u32 \<times> 'b PagingState) result" where
  "allocatePageTable alloc st =
     res_bind (alloc (pg_source st)) (\<lambda>(pageTable, src).
       Inr (pageTable, st\<lparr>pg_source := src, pg_tables := (pg_tables st)(pageTable := table_clear)\<rparr>))"

definition vas_getPhysicalAddress :: "'b PagingState \<Rightarrow> VirtualAddressSpace \<Rightarrow> u32 \<Rightarrow> u32" where
  "vas_getPhysicalAddress st space virtualAddress =
     (let pageDirectoryIndex = DIRECTORY_INDEX virtualAddress; pageTableIndex = TABLE_INDEX virtualAddress;
          directory = pg_tables st (virtualPageDirectory space)
      in if entry_isUnused (directory pageDirectoryIndex) then nullptr
         else let pageTable = pg_tables st (entry_getAddress (directory pageDirectoryIndex))
              in if entry_isUnused (pageTable pageTableIndex) then nullptr
                 else entry_getAddress (pageTable pageTableIndex) OR (virtualAddress AND 0x00000fff))"

text \<open>The loops that write one entry into the directories of all address spaces.\<close>

primrec write_directories ::
    "VirtualAddressSpace list \<Rightarrow> 10 word \<Rightarrow> Entry \<Rightarrow> Entry \<Rightarrow> 'b PagingState \<Rightarrow> 'b PagingState" where
  "write_directories [] d ev ep st = st"
| "write_directories (s # ss) d ev ep st =
     write_directories ss d ev ep
       (put_entry (put_entry st (virtualPageDirectory s) d ev) (physicalPageDirectory s) d ep)"

text \<open>The first half of \<^verbatim>\<open>map\<close>: the page table is created if it does not exist.\<close>

definition ensure_table ::
    "('b \<Rightarrow> (u32 \<times> 'b) result) \<Rightarrow> 'b PagingState \<Rightarrow> VirtualAddressSpace \<Rightarrow> u32 \<Rightarrow> 'b PagingState result" where
  "ensure_table alloc st space virtualAddress =
     (let pageDirectoryIndex = DIRECTORY_INDEX virtualAddress
      in if entry_isUnused (pg_tables st (virtualPageDirectory space) pageDirectoryIndex)
         then res_bind (allocatePageTable alloc st) (\<lambda>(virtualPageTable, st).
                let physicalPageTable = vas_getPhysicalAddress st space virtualPageTable;
                    pageDirectoryFlags = PRESENT OR WRITABLE OR
                      (if KERNEL_END \<le> virtualAddress then USER_ACCESSIBLE else 0);
                    ev = entry_set virtualPageTable pageDirectoryFlags;
                    ep = entry_set physicalPageTable pageDirectoryFlags
                in Inr (if virtualAddress \<le> KERNEL_END
                        then write_directories (pg_spaces st) pageDirectoryIndex ev ep st
                        else write_directories [space] pageDirectoryIndex ev ep st))
         else Inr st)"

definition vas_map ::
    "('b \<Rightarrow> (u32 \<times> 'b) result) \<Rightarrow> 'b PagingState \<Rightarrow> VirtualAddressSpace \<Rightarrow> u32 \<Rightarrow> u32 \<Rightarrow> u16
     \<Rightarrow> 'b PagingState result" where
  "vas_map alloc st space physicalAddress virtualAddress flags =
     res_bind (ensure_table alloc st space virtualAddress) (\<lambda>st.
       let pageTable = entry_getAddress (pg_tables st (virtualPageDirectory space) (DIRECTORY_INDEX virtualAddress));
           pageTableIndex = TABLE_INDEX virtualAddress
       in if \<not> entry_isUnused (pg_tables st pageTable pageTableIndex) then Inl PAGING_ERROR
          else Inr (put_entry st pageTable pageTableIndex (entry_set physicalAddress flags)))"

text \<open>The number of used entries, the termination measure of \<^verbatim>\<open>unmap\<close>.\<close>

definition used_entries :: "'b PagingState \<Rightarrow> (u32 \<times> 10 word) set" where
  "used_entries st = {(t, i). \<not> entry_isUnused (pg_tables st t i)}"

lemma entry_clear_unused [simp]: "entry_isUnused entry_clear"
  by (simp add: entry_clear_def entry_set_def entry_isUnused_def)

lemma used_put_clear: "used_entries (put_entry st t i entry_clear) = used_entries st - {(t, i)}"
  by (auto simp: used_entries_def put_entry_def split: if_splits)

lemma used_write_clear: "used_entries (write_directories ss d entry_clear entry_clear st) \<subseteq> used_entries st"
proof (induction ss arbitrary: st)
  case (Cons s ss)
  show ?case
    using Cons [of "put_entry (put_entry st (virtualPageDirectory s) d entry_clear) (physicalPageDirectory s) d entry_clear"]
    by (auto simp: used_put_clear)
qed simp

function (sequential)
  vas_unmap :: "('b \<Rightarrow> u32 \<Rightarrow> 'b result) \<Rightarrow> 'b PagingState \<Rightarrow> VirtualAddressSpace \<Rightarrow> u32
    \<Rightarrow> (u32 \<times> 'b PagingState) result" and
  freePageTable :: "('b \<Rightarrow> u32 \<Rightarrow> 'b result) \<Rightarrow> 'b PagingState \<Rightarrow> u32 \<Rightarrow> 'b PagingState result"
where
  "vas_unmap free st space virtualAddress =
     (let pageDirectoryIndex = DIRECTORY_INDEX virtualAddress; pageTableIndex = TABLE_INDEX virtualAddress;
          directory = pg_tables st (virtualPageDirectory space);
          pageTable = entry_getAddress (directory pageDirectoryIndex)
      in if entry_isUnused (directory pageDirectoryIndex) then Inr (nullptr, st)
         else if entry_isUnused (pg_tables st pageTable pageTableIndex) then Inr (nullptr, st)
         else let physicalAddress = entry_getAddress (pg_tables st pageTable pageTableIndex);
                  st1 = put_entry st pageTable pageTableIndex entry_clear
              in if table_isEmpty (pg_tables st1 pageTable)
                 then res_bind (freePageTable free
                          (write_directories (if virtualAddress \<le> KERNEL_END then pg_spaces st1 else [space])
                             pageDirectoryIndex entry_clear entry_clear st1) pageTable)
                        (\<lambda>st2. Inr (physicalAddress, st2))
                 else Inr (physicalAddress, st1))"
| "freePageTable free st pageTable =
     res_bind (vas_unmap free st (pg_current st) pageTable) (\<lambda>(physicalAddress, st).
       if physicalAddress = nullptr then Inr st
       else res_bind (free (pg_source st) pageTable) (\<lambda>src. Inr (st\<lparr>pg_source := src\<rparr>)))"
  by pat_completeness auto
termination
proof (relation "measure (\<lambda>x. case x of Inl (free, st, space, v) \<Rightarrow> 2 * card (used_entries st)
    | Inr (free, st, t) \<Rightarrow> Suc (2 * card (used_entries st)))", goal_cases)
  case (2 free st space v d i directory pageTable phys st1)
  have "(pageTable, i) \<in> used_entries st"
    using 2 by (simp add: used_entries_def)
  then have "used_entries st1 \<subset> used_entries st"
    unfolding 2 used_put_clear by auto
  then have "used_entries (write_directories ss d entry_clear entry_clear st1) \<subset> used_entries st" for ss
    using used_write_clear [of ss d st1] by blast
  then have "card (used_entries (write_directories ss d entry_clear entry_clear st1)) < card (used_entries st)" for ss
    by (intro psubset_card_mono) simp_all
  then have "Suc (2 * card (used_entries (write_directories ss d entry_clear entry_clear st1))) < 2 * card (used_entries st)" for ss
    by (metis Suc_leI mult_Suc_right mult_le_mono2 add_2_eq_Suc lessI less_le_trans)
  then show ?case
    by (simp only: in_measure sum.case prod.case)
qed auto

declare vas_unmap.simps [simp del] freePageTable.simps [simp del]

text \<open>
  The constructor of a user address space: a physical directory from the paging area, a virtual
  directory \<open>virtualDirectory\<close> from the kernel heap, both with a copy of the entries of the kernel
  area.
\<close>

function copy_kernel ::
    "'b PagingState \<Rightarrow> VirtualAddressSpace \<Rightarrow> VirtualAddressSpace \<Rightarrow> u32 \<Rightarrow> 'b PagingState" where
  "copy_kernel st kernelSpace space address =
     (if address < KERNEL_END
      then let d = DIRECTORY_INDEX address;
               st = put_entry st (physicalPageDirectory space) d (pg_tables st (physicalPageDirectory kernelSpace) d);
               st = put_entry st (virtualPageDirectory space) d (pg_tables st (virtualPageDirectory kernelSpace) d)
           in copy_kernel st kernelSpace space (address + 0x400000)
      else st)"
  by pat_completeness auto
termination
proof (relation "measure (\<lambda>(st, k, s, a). unat KERNEL_END - unat a)", goal_cases)
  case (2 st k s a)
  then have "unat (a + 0x400000) = unat a + 0x400000"
    by (simp add: KERNEL_END_def word_less_nat_alt unat_word_ariths(1))
  then show ?case
    using 2 by (simp add: KERNEL_END_def word_less_nat_alt)
qed simp

declare copy_kernel.simps [simp del]

definition createAddressSpace ::
    "('b \<Rightarrow> (u32 \<times> 'b) result) \<Rightarrow> u32 \<Rightarrow> VirtualAddressSpace \<Rightarrow> 'b PagingState
     \<Rightarrow> (VirtualAddressSpace \<times> 'b PagingState) result" where
  "createAddressSpace alloc virtualDirectory kernelSpace st =
     res_bind (allocatePageTable alloc st) (\<lambda>(physicalDirectory, st).
       let st = st\<lparr>pg_tables := (pg_tables st)(virtualDirectory := table_clear)\<rparr>;
           space = \<lparr>kernelAddressSpace = False, physicalPageDirectory = physicalDirectory,
                    virtualPageDirectory = virtualDirectory\<rparr>;
           st = copy_kernel st kernelSpace space KERNEL_START
       in Inr (space, st\<lparr>pg_spaces := pg_spaces st @ [space]\<rparr>))"

text \<open>\<^verbatim>\<open>removeAddressSpace\<close>, with the destructor of the address space.\<close>

definition removeAddressSpace ::
    "('b \<Rightarrow> u32 \<Rightarrow> 'b result) \<Rightarrow> VirtualAddressSpace \<Rightarrow> 'b PagingState \<Rightarrow> 'b PagingState result" where
  "removeAddressSpace free space st =
     (if pg_current st = space then Inl INVALID_ARGUMENT
      else let st = st\<lparr>pg_spaces := remove1 space (pg_spaces st)\<rparr>
           in if \<not> kernelAddressSpace space then freePageTable free st (physicalPageDirectory space) else Inr st)"

definition switchAddressSpace :: "VirtualAddressSpace \<Rightarrow> 'b PagingState \<Rightarrow> 'b PagingState" where
  "switchAddressSpace space st = (if pg_current st = space then st else st\<lparr>pg_current := space\<rparr>)"


section \<open>Words\<close>

lemma unat_DIRECTORY_INDEX: "unat (DIRECTORY_INDEX v) = unat v div 2 ^ 22"
proof -
  have "unat v div 2 ^ 22 < 2 ^ 10"
    using unat_lt_2_32 [of v] by (simp add: div_less_iff_less_mult)
  then show ?thesis
    by (simp add: DIRECTORY_INDEX_def unat_ucast_mod drop_bit_eq_div unat_div_distrib)
qed

lemma mask_10: "(0x3ff :: u32) = mask 10" and mask_12: "(0xfff :: u32) = mask 12"
  by (simp_all add: mask_eq_exp_minus_1)

lemma unat_TABLE_INDEX: "unat (TABLE_INDEX v) = unat v div 2 ^ 12 mod 2 ^ 10"
  unfolding TABLE_INDEX_def mask_10 take_bit_eq_mask [symmetric]
  by (simp add: unat_ucast_mod unsigned_take_bit_eq take_bit_eq_mod drop_bit_eq_div unat_div_distrib unat_mod_distrib)

text \<open>The indices of a page, and the pages: addresses whose low twelve bits are clear.\<close>

definition idx :: "u32 \<Rightarrow> 10 word \<times> 10 word" where
  "idx v = (DIRECTORY_INDEX v, TABLE_INDEX v)"

definition is_page :: "u32 \<Rightarrow> bool" where
  "is_page a \<longleftrightarrow> unat a mod 2 ^ 12 = 0"

lemma idx_inj:
  assumes "is_page a" and "is_page b" and "idx a = idx b"
  shows "a = b"
proof -
  have "unat a div 2 ^ 22 = unat b div 2 ^ 22" "unat a div 2 ^ 12 mod 2 ^ 10 = unat b div 2 ^ 12 mod 2 ^ 10"
    using assms(3) unat_DIRECTORY_INDEX unat_TABLE_INDEX by (metis idx_def prod.inject)+
  moreover have "unat x div 2 ^ 22 = unat x div 2 ^ 12 div 2 ^ 10" for x :: u32
    by (simp add: div_mult2_eq [symmetric])
  ultimately have "unat a div 2 ^ 12 = unat b div 2 ^ 12"
    by (metis div_mult_mod_eq)
  then have "unat a = unat b"
    using assms(1,2) unfolding is_page_def by (metis div_mult_mod_eq)
  then show ?thesis
    by (simp add: word_unat_eq_iff)
qed

lemma kernel_index: "DIRECTORY_INDEX v < 32 \<longleftrightarrow> v < KERNEL_END"
  by (simp add: word_less_nat_alt unat_DIRECTORY_INDEX KERNEL_END_def div_less_iff_less_mult)

lemma entry_getAddress_set: "entry_getAddress (entry_set a f) = a AND NOT (mask 12)"
  unfolding entry_getAddress_def entry_set_def by (rule bit_word_eqI) (auto simp: bit_simps)

lemma entry_getAddress_page: "is_page a \<Longrightarrow> entry_getAddress (entry_set a f) = a"
  by (simp add: entry_getAddress_set is_page_def word_unat_eq_iff unat_and_not_mask) (metis div_mult_mod_eq add.right_neutral)


lemma unused_iff [simp]: "entry_isUnused e \<longleftrightarrow> e = entry_clear"
  by (cases e) (auto simp: entry_isUnused_def entry_clear_def entry_set_def)

lemma table_clear_apply [simp]: "table_clear i = entry_clear"
  by (simp add: table_clear_def entry_clear_def entry_set_def)

lemma entry_set_used: "is_page a \<Longrightarrow> a \<noteq> 0 \<Longrightarrow> entry_set a f \<noteq> entry_clear"
proof
  assume "is_page a" "a \<noteq> 0" "entry_set a f = entry_clear"
  then have "a = entry_getAddress entry_clear"
    using entry_getAddress_page [of a f] by simp
  then show False
    using \<open>a \<noteq> 0\<close> by (simp add: entry_getAddress_def entry_clear_def entry_set_def)
qed

lemma e_address_set_get: "e_address (entry_set (entry_getAddress e) f) = e_address e"
  unfolding entry_getAddress_def entry_set_def by (simp, rule bit_word_eqI) (auto simp: bit_simps)

lemma page_offset: "is_page a \<Longrightarrow> a AND 0xfff = 0"
  unfolding mask_12 take_bit_eq_mask [symmetric]
  by (simp add: is_page_def word_unat_eq_iff unsigned_take_bit_eq take_bit_eq_mod unat_mod_distrib)

lemma table_isEmpty_iff: "table_isEmpty t \<longleftrightarrow> (\<forall>i. t i = entry_clear)"
proof
  assume e: "table_isEmpty t"
  show "\<forall>i. t i = entry_clear"
  proof
    fix i :: "10 word"
    have "unat i < 2 ^ 10"
      using unsigned_less [of i, where 'a = nat] by simp
    then have "unat i \<in> set [0..<1024]"
      by simp
    then have "entry_isUnused (t (of_nat (unat i)))"
      using e unfolding table_isEmpty_def list_all_iff by blast
    then show "t i = entry_clear"
      by simp
  qed
qed (simp add: table_isEmpty_def list_all_iff)

section \<open>The abstract view\<close>

definition dir :: "'b PagingState \<Rightarrow> VirtualAddressSpace \<Rightarrow> 10 word \<Rightarrow> Entry" where
  "dir st s d = pg_tables st (virtualPageDirectory s) d"

text \<open>The entry of a page in an address space; \<open>entry_clear\<close> when the page is not mapped.\<close>

definition page :: "'b PagingState \<Rightarrow> VirtualAddressSpace \<Rightarrow> 10 word \<times> 10 word \<Rightarrow> Entry" where
  "page st s = (\<lambda>(d, i). if dir st s d = entry_clear then entry_clear
     else pg_tables st (entry_getAddress (dir st s d)) i)"

definition refs :: "'b PagingState \<Rightarrow> u32 set" where
  "refs st = {entry_getAddress (dir st s d) | s d. s \<in> set (pg_spaces st) \<and> dir st s d \<noteq> entry_clear}"

text \<open>
  Directories and page tables are different objects, and none of them is available for
  allocation.
\<close>

definition layout_ok :: "u32 set \<Rightarrow> u32 set \<Rightarrow> 'b PagingState \<Rightarrow> bool" where
  "layout_ok live avail st \<longleftrightarrow> pg_current st \<in> set (pg_spaces st) \<and> refs st \<subseteq> live \<and>
     (\<forall>s \<in> set (pg_spaces st). virtualPageDirectory s \<notin> avail \<union> refs st \<and> physicalPageDirectory s \<notin> avail \<union> refs st) \<and>
     (\<forall>s \<in> set (pg_spaces st). \<forall>s' \<in> set (pg_spaces st). virtualPageDirectory s \<noteq> physicalPageDirectory s' \<and>
        (virtualPageDirectory s = virtualPageDirectory s' \<or> physicalPageDirectory s = physicalPageDirectory s' \<longrightarrow> s = s'))"

text \<open>The spaces share the tables of the kernel area, the first 32 ones, and no others.\<close>

definition sharing_ok :: "'b PagingState \<Rightarrow> bool" where
  "sharing_ok st \<longleftrightarrow>
     (\<forall>s \<in> set (pg_spaces st). \<forall>s' \<in> set (pg_spaces st). \<forall>d < 32. dir st s d = dir st s' d) \<and>
     (\<forall>s \<in> set (pg_spaces st). \<forall>s' \<in> set (pg_spaces st). \<forall>d d'.
        dir st s d \<noteq> entry_clear \<longrightarrow> dir st s' d' \<noteq> entry_clear \<longrightarrow>
        entry_getAddress (dir st s d) = entry_getAddress (dir st s' d') \<longrightarrow> d = d' \<and> (s = s' \<or> d < 32))"

text \<open>
  The pages of the tables in use and of the tables that may be allocated are mapped, and an entry
  of a physical directory has the flags of the virtual one and the frame of the page table.
\<close>

definition mmu_ok :: "u32 set \<Rightarrow> 'b PagingState \<Rightarrow> bool" where
  "mmu_ok avail st \<longleftrightarrow>
     (\<forall>s \<in> set (pg_spaces st). \<forall>a \<in> refs st \<union> avail. page st s (idx a) \<noteq> entry_clear) \<and>
     (\<forall>s \<in> set (pg_spaces st). \<forall>d. pg_tables st (physicalPageDirectory s) d =
        (if dir st s d = entry_clear then entry_clear
         else \<lparr>e_flags = e_flags (dir st s d), e_address = e_address (page st s (idx (entry_getAddress (dir st s d))))\<rparr>))"

definition paging_ok :: "('b \<Rightarrow> u32 set) \<Rightarrow> ('b \<Rightarrow> u32 set) \<Rightarrow> ('b \<Rightarrow> bool) \<Rightarrow> 'b PagingState \<Rightarrow> bool" where
  "paging_ok live avail ok st \<longleftrightarrow> ok (pg_source st) \<and> layout_ok (live (pg_source st)) (avail (pg_source st)) st \<and>
     sharing_ok st \<and> mmu_ok (avail (pg_source st)) st"

text \<open>
  The address spaces an operation on a page of \<open>space\<close> concerns: all of them in the kernel area,
  only \<open>space\<close> itself in user space.
\<close>

definition concerned :: "'b PagingState \<Rightarrow> VirtualAddressSpace \<Rightarrow> 10 word \<Rightarrow> VirtualAddressSpace set" where
  "concerned st space d = (if d < 32 then set (pg_spaces st) else {space})"

lemma getPhysicalAddress_page:
  "vas_getPhysicalAddress st s v =
     (if page st s (idx v) = entry_clear then nullptr else entry_getAddress (page st s (idx v)) OR (v AND 0xfff))"
  by (simp add: vas_getPhysicalAddress_def page_def idx_def dir_def Let_def)

lemma view_source [simp]:
  "dir (st\<lparr>pg_source := src\<rparr>) = dir st" "page (st\<lparr>pg_source := src\<rparr>) = page st" "refs (st\<lparr>pg_source := src\<rparr>) = refs st"
  by (simp_all add: page_def dir_def refs_def fun_eq_iff)

lemma ok_source [simp]:
  "sharing_ok (st\<lparr>pg_source := src\<rparr>) = sharing_ok st" "mmu_ok A (st\<lparr>pg_source := src\<rparr>) = mmu_ok A st"
proof -
  have f: "pg_spaces (st\<lparr>pg_source := src\<rparr>) = pg_spaces st" "pg_tables (st\<lparr>pg_source := src\<rparr>) = pg_tables st"
    by simp_all
  show "sharing_ok (st\<lparr>pg_source := src\<rparr>) = sharing_ok st" "mmu_ok A (st\<lparr>pg_source := src\<rparr>) = mmu_ok A st"
    by (simp_all only: sharing_ok_def mmu_ok_def view_source f)
qed

lemma write_directories_fields [simp]:
  "pg_source (write_directories ss d ev ep st) = pg_source st"
  "pg_spaces (write_directories ss d ev ep st) = pg_spaces st"
  "pg_current (write_directories ss d ev ep st) = pg_current st"
  by (induction ss arbitrary: st) (simp_all add: put_entry_def)

lemma write_directories_tables:
  assumes "virtualPageDirectory ` set ss \<inter> physicalPageDirectory ` set ss = {}"
  shows "pg_tables (write_directories ss d ev ep st) t i =
    (if i = d \<and> t \<in> virtualPageDirectory ` set ss then ev
     else if i = d \<and> t \<in> physicalPageDirectory ` set ss then ep else pg_tables st t i)"
  using assms
proof (induction ss arbitrary: st)
  case (Cons s ss)
  have "virtualPageDirectory ` set ss \<inter> physicalPageDirectory ` set ss = {}"
    "virtualPageDirectory s \<notin> physicalPageDirectory ` set ss" "virtualPageDirectory s \<noteq> physicalPageDirectory s"
    "physicalPageDirectory s \<notin> virtualPageDirectory ` set ss"
    using Cons.prems by auto
  then show ?case
    using Cons.IH by (auto simp: put_entry_def)
qed simp

lemma layout_okD:
  assumes "layout_ok live avail st" and "s \<in> set (pg_spaces st)"
  shows "virtualPageDirectory s \<notin> avail" "physicalPageDirectory s \<notin> avail"
    and "virtualPageDirectory s \<notin> refs st" "physicalPageDirectory s \<notin> refs st"
    and "s' \<in> set (pg_spaces st) \<Longrightarrow> virtualPageDirectory s \<noteq> physicalPageDirectory s'"
    and "s' \<in> set (pg_spaces st) \<Longrightarrow> virtualPageDirectory s' = virtualPageDirectory s \<longleftrightarrow> s' = s"
    and "s' \<in> set (pg_spaces st) \<Longrightarrow> physicalPageDirectory s' = physicalPageDirectory s \<longleftrightarrow> s' = s"
  using assms unfolding layout_ok_def by blast+

text \<open>What writing one entry into the directories of the spaces \<open>set ss\<close> does.\<close>

lemma write_directories_dir:
  fixes d :: "10 word" and ev ep :: Entry
  assumes "layout_ok live avail st" and "set ss \<subseteq> set (pg_spaces st)"
  defines "st' \<equiv> write_directories ss d ev ep st"
  shows "s \<in> set (pg_spaces st) \<Longrightarrow> dir st' s d' = (if d' = d \<and> s \<in> set ss then ev else dir st s d')"
    and "s \<in> set (pg_spaces st) \<Longrightarrow>
      pg_tables st' (physicalPageDirectory s) d' = (if d' = d \<and> s \<in> set ss then ep else pg_tables st (physicalPageDirectory s) d')"
    and "t \<notin> virtualPageDirectory ` set ss \<Longrightarrow> t \<notin> physicalPageDirectory ` set ss \<Longrightarrow> pg_tables st' t = pg_tables st t"
proof -
  note D = layout_okD [OF assms(1)]
  have dj: "virtualPageDirectory ` set ss \<inter> physicalPageDirectory ` set ss = {}"
    using D(5) assms(2) by fastforce
  note T = write_directories_tables [OF dj, of d ev ep st, folded st'_def]
  show "pg_tables st' t = pg_tables st t" if "t \<notin> virtualPageDirectory ` set ss" "t \<notin> physicalPageDirectory ` set ss"
    using that by (auto simp: T fun_eq_iff)
  assume s: "s \<in> set (pg_spaces st)"
  have v: "virtualPageDirectory s \<in> virtualPageDirectory ` set ss \<longleftrightarrow> s \<in> set ss"
    "virtualPageDirectory s \<notin> physicalPageDirectory ` set ss"
    using D(5,6) [OF s] D(6) assms(2) s by (auto simp: image_iff)
  have p: "physicalPageDirectory s \<in> physicalPageDirectory ` set ss \<longleftrightarrow> s \<in> set ss"
    "physicalPageDirectory s \<notin> virtualPageDirectory ` set ss"
    using D(5,7) s assms(2) by (auto simp: image_iff) (metis D(5) subsetD)+
  show "dir st' s d' = (if d' = d \<and> s \<in> set ss then ev else dir st s d')"
    by (simp add: dir_def T v)
  show "pg_tables st' (physicalPageDirectory s) d' = (if d' = d \<and> s \<in> set ss then ep else pg_tables st (physicalPageDirectory s) d')"
    by (simp add: T p)
qed


text \<open>
  The state \<open>st1\<close> has the entries \<open>ev\<close> and \<open>ep\<close> in the directories of the spaces \<open>W\<close>, at index \<open>d\<close>,
  and otherwise the directories and all the pages of \<open>st\<close>.
\<close>

definition dirs_written ::
    "'b PagingState \<Rightarrow> 'b PagingState \<Rightarrow> VirtualAddressSpace set \<Rightarrow> 10 word \<Rightarrow> Entry \<Rightarrow> Entry \<Rightarrow> bool" where
  "dirs_written st st1 W d ev ep \<longleftrightarrow> pg_spaces st1 = pg_spaces st \<and> pg_current st1 = pg_current st \<and>
     (\<forall>s \<in> set (pg_spaces st). page st1 s = page st s \<and>
        (\<forall>d'. dir st1 s d' = (if d' = d \<and> s \<in> W then ev else dir st s d') \<and>
          pg_tables st1 (physicalPageDirectory s) d' =
            (if d' = d \<and> s \<in> W then ep else pg_tables st (physicalPageDirectory s) d')))"

lemma dirs_writtenD:
  assumes "dirs_written st st1 W d ev ep"
  shows "pg_spaces st1 = pg_spaces st" "pg_current st1 = pg_current st"
    and "s \<in> set (pg_spaces st) \<Longrightarrow> page st1 s = page st s"
    and "s \<in> set (pg_spaces st) \<Longrightarrow> dir st1 s d' = (if d' = d \<and> s \<in> W then ev else dir st s d')"
    and "s \<in> set (pg_spaces st) \<Longrightarrow> pg_tables st1 (physicalPageDirectory s) d' =
      (if d' = d \<and> s \<in> W then ep else pg_tables st (physicalPageDirectory s) d')"
  using assms by (simp_all add: dirs_written_def)

lemma refs_I: "s \<in> set (pg_spaces st) \<Longrightarrow> dir st s d \<noteq> entry_clear \<Longrightarrow> entry_getAddress (dir st s d) \<in> refs st"
  by (auto simp: refs_def)

lemma refs_E:
  assumes "t \<in> refs st"
  obtains s d where "s \<in> set (pg_spaces st)" and "dir st s d \<noteq> entry_clear" and "t = entry_getAddress (dir st s d)"
  using assms by (auto simp: refs_def)

lemma refs_written:
  assumes "dirs_written st st1 W d ev ep"
  shows "refs st1 \<subseteq> (if ev = entry_clear then {} else {entry_getAddress ev}) \<union> refs st"
proof
  fix t assume "t \<in> refs st1"
  then obtain s d' where "s \<in> set (pg_spaces st)" "dir st1 s d' \<noteq> entry_clear" "t = entry_getAddress (dir st1 s d')"
    using dirs_writtenD(1) [OF assms] by (metis refs_E)
  then show "t \<in> (if ev = entry_clear then {} else {entry_getAddress ev}) \<union> refs st"
    using dirs_writtenD(4) [OF assms, of s d'] by (auto simp: refs_I split: if_splits)
qed

lemma sharing_written:
  assumes ok: "sharing_ok st" and w: "dirs_written st st1 (concerned st space d) d ev ep"
    and new: "ev \<noteq> entry_clear \<Longrightarrow> entry_getAddress ev \<notin> refs st"
  shows "sharing_ok st1"
  unfolding sharing_ok_def dirs_writtenD(1) [OF w]
proof (intro conjI ballI allI impI)
  fix s s' d' assume s: "s \<in> set (pg_spaces st)" "s' \<in> set (pg_spaces st)" "d' < (32 :: 10 word)"
  then have "dir st s d' = dir st s' d'"
    using ok unfolding sharing_ok_def by blast
  then show "dir st1 s d' = dir st1 s' d'"
    using dirs_writtenD(4) [OF w s(1), of d'] dirs_writtenD(4) [OF w s(2), of d'] s by (auto simp: concerned_def)
next
  fix s s' d1 d2 assume s: "s \<in> set (pg_spaces st)" "s' \<in> set (pg_spaces st)"
    and u: "dir st1 s d1 \<noteq> entry_clear" "dir st1 s' d2 \<noteq> entry_clear"
    and e: "entry_getAddress (dir st1 s d1) = entry_getAddress (dir st1 s' d2)"
  define P where "P d' s \<longleftrightarrow> d' = d \<and> s \<in> concerned st space d" for d' s
  have old: "dir st1 s d' = dir st s d'" if "s \<in> set (pg_spaces st)" "\<not> P d' s" for s d'
    using dirs_writtenD(4) [OF w that(1), of d'] that(2) unfolding P_def by (simp only: if_False)
  have ev: "dir st1 s d' = ev" if "s \<in> set (pg_spaces st)" "P d' s" for s d'
    using dirs_writtenD(4) [OF w that(1), of d'] that(2) unfolding P_def by (simp only: if_True simp_thms)
  have differ: "entry_getAddress (dir st1 s d') \<noteq> entry_getAddress (dir st1 s' d'')"
    if "s \<in> set (pg_spaces st)" "s' \<in> set (pg_spaces st)" "P d' s" "\<not> P d'' s'"
      "dir st1 s d' \<noteq> entry_clear" "dir st1 s' d'' \<noteq> entry_clear" for s s' d' d''
    using that new refs_I [OF that(2), of d''] ev [OF that(1,3)] old [OF that(2,4)] by metis
  have "P d1 s = P d2 s'"
    using differ [OF s] differ [OF s(2,1)] u e by metis
  then have "d1 = d2 \<and> (s = s' \<or> d1 < 32)"
  proof (cases "P d1 s")
    case True
    then show ?thesis
      using \<open>P d1 s = P d2 s'\<close> unfolding P_def concerned_def by (simp split: if_splits)
  next
    case False
    then have "dir st1 s d1 = dir st s d1" "dir st1 s' d2 = dir st s' d2"
      using old s \<open>P d1 s = P d2 s'\<close> by simp_all
    then show ?thesis
      using ok s u e unfolding sharing_ok_def by metis
  qed
  then show "d1 = d2" "s = s' \<or> d1 < 32"
    by blast+
qed

lemma mmu_written:
  assumes ok: "mmu_ok av st" and w: "dirs_written st st1 W d ev ep" and av: "av' \<subseteq> av"
    and new: "ev \<noteq> entry_clear \<Longrightarrow> entry_getAddress ev \<in> av"
    and ep: "\<And>s. s \<in> set (pg_spaces st) \<Longrightarrow> s \<in> W \<Longrightarrow> ep = (if ev = entry_clear then entry_clear
      else \<lparr>e_flags = e_flags ev, e_address = e_address (page st s (idx (entry_getAddress ev)))\<rparr>)"
  shows "mmu_ok av' st1"
  unfolding mmu_ok_def dirs_writtenD(1) [OF w]
proof (intro conjI ballI allI)
  fix s t assume s: "s \<in> set (pg_spaces st)" "t \<in> refs st1 \<union> av'"
  then have "t \<in> refs st \<union> av"
    using refs_written [OF w] new av by (auto split: if_splits)
  then show "page st1 s (idx t) \<noteq> entry_clear"
    using ok s(1) dirs_writtenD(3) [OF w s(1)] by (auto simp: mmu_ok_def)
next
  fix s d' assume s: "s \<in> set (pg_spaces st)"
  note D = dirs_writtenD(3-5) [OF w s]
  show "pg_tables st1 (physicalPageDirectory s) d' =
      (if dir st1 s d' = entry_clear then entry_clear
       else \<lparr>e_flags = e_flags (dir st1 s d'), e_address = e_address (page st1 s (idx (entry_getAddress (dir st1 s d'))))\<rparr>)"
  proof (cases "d' = d \<and> s \<in> W")
    case True
    then show ?thesis
      using D(2,3) [of d'] ep [OF s] unfolding D(1) by simp
  next
    case False
    then have "dir st1 s d' = dir st s d'" "pg_tables st1 (physicalPageDirectory s) d' = pg_tables st (physicalPageDirectory s) d'"
      using D(2,3) [of d'] by (simp_all only: if_False)
    then show ?thesis
      using ok s unfolding D(1) by (simp add: mmu_ok_def)
  qed
qed

text \<open>The loop of the constructor copies the entries of the kernel area.\<close>

lemma copy_kernel_fields [simp]:
  "pg_spaces (copy_kernel st k s a) = pg_spaces st" "pg_current (copy_kernel st k s a) = pg_current st"
  "pg_source (copy_kernel st k s a) = pg_source st"
  by (induction st k s a rule: copy_kernel.induct) (subst copy_kernel.simps; simp add: Let_def put_entry_def)+

lemma next_directory:
  assumes "a < KERNEL_END"
  shows "unat (DIRECTORY_INDEX (a + 0x400000)) = Suc (unat (DIRECTORY_INDEX a))"
proof -
  have "unat (a + 0x400000) = unat a + 2 ^ 22"
    using assms by (simp add: KERNEL_END_def word_less_nat_alt unat_word_ariths(1))
  then show ?thesis
    by (simp only: unat_DIRECTORY_INDEX) simp
qed

lemma copy_kernel_tables:
  assumes "physicalPageDirectory s \<notin> {physicalPageDirectory k, virtualPageDirectory k}"
    and "virtualPageDirectory s \<notin> {physicalPageDirectory k, virtualPageDirectory k, physicalPageDirectory s}"
  shows "pg_tables (copy_kernel st k s a) t d =
    (if DIRECTORY_INDEX a \<le> d \<and> d < 32 \<and> t = physicalPageDirectory s then pg_tables st (physicalPageDirectory k) d
     else if DIRECTORY_INDEX a \<le> d \<and> d < 32 \<and> t = virtualPageDirectory s then pg_tables st (virtualPageDirectory k) d
     else pg_tables st t d)"
  using assms
proof (induction st k s a rule: copy_kernel.induct)
  case (1 st k s a)
  show ?case
  proof (cases "a < KERNEL_END")
    case True
    have "DIRECTORY_INDEX (a + 0x400000) \<le> d \<longleftrightarrow> DIRECTORY_INDEX a \<le> d \<and> d \<noteq> DIRECTORY_INDEX a"
      by (simp only: word_le_nat_alt next_directory [OF True] word_unat_eq_iff) linarith
    moreover have "DIRECTORY_INDEX a < 32"
      using True by (simp add: kernel_index)
    ultimately show ?thesis
      using "1.IH" [OF True refl refl refl "1.prems"] True "1.prems"
      by (subst copy_kernel.simps) (auto simp: Let_def put_entry_def)
  next
    case False
    then have "\<not> DIRECTORY_INDEX a < 32"
      by (simp add: kernel_index)
    then have "\<not> (DIRECTORY_INDEX a \<le> d \<and> d < 32)"
      by auto
    then show ?thesis
      using False by (subst copy_kernel.simps) auto
  qed
qed

text \<open>The contract of the source of page tables: what is available, and what is in use.\<close>

locale page_table_source =
  fixes alloc :: "'b \<Rightarrow> (u32 \<times> 'b) result"
    and free :: "'b \<Rightarrow> u32 \<Rightarrow> 'b result"
    and live :: "'b \<Rightarrow> u32 set"
    and avail :: "'b \<Rightarrow> u32 set"
    and ok :: "'b \<Rightarrow> bool"
  assumes alloc_law: "ok b \<Longrightarrow> avail b \<noteq> {} \<Longrightarrow>
      \<exists>a b'. alloc b = Inr (a, b') \<and> ok b' \<and> a \<in> avail b \<and> avail b' = avail b - {a} \<and> live b' = insert a (live b)"
    and free_law: "ok b \<Longrightarrow> a \<in> live b \<Longrightarrow>
      \<exists>b'. free b a = Inr b' \<and> ok b' \<and> avail b' = avail b \<and> live b' = live b - {a}"
    and region: "ok b \<Longrightarrow> a \<in> live b \<union> avail b \<Longrightarrow> is_page a \<and> a < KERNEL_END \<and> a \<noteq> 0"
    and separate: "ok b \<Longrightarrow> live b \<inter> avail b = {}"
begin

abbreviation pinv :: "'b PagingState \<Rightarrow> bool" where
  "pinv \<equiv> paging_ok live avail ok"

lemma inv_layout: "pinv st \<Longrightarrow> layout_ok (live (pg_source st)) (avail (pg_source st)) st"
  and inv_sharing: "pinv st \<Longrightarrow> sharing_ok st" and inv_ok: "pinv st \<Longrightarrow> ok (pg_source st)"
  and inv_mmu: "pinv st \<Longrightarrow> mmu_ok (avail (pg_source st)) st"
  by (simp_all add: paging_ok_def)

lemma kernel_dir_same:
  assumes "pinv st" and "s \<in> set (pg_spaces st)" and "s' \<in> set (pg_spaces st)" and "d < 32"
  shows "dir st s d = dir st s' d"
  using inv_sharing [OF assms(1)] assms(2-4) unfolding sharing_ok_def by blast

lemma kernel_page_same:
  assumes "pinv st" and "s \<in> set (pg_spaces st)" and "s' \<in> set (pg_spaces st)" and "a < KERNEL_END"
  shows "page st s (idx a) = page st s' (idx a)"
  using kernel_dir_same [OF assms(1-3), of "DIRECTORY_INDEX a"] assms(4)
  by (simp add: page_def idx_def kernel_index)

lemma refs_region:
  assumes "pinv st" and "a \<in> refs st \<union> avail (pg_source st)"
  shows "is_page a" "a < KERNEL_END" "a \<noteq> 0"
  using region [OF inv_ok [OF assms(1)], of a] inv_layout [OF assms(1)] assms(2) by (auto simp: layout_ok_def)

lemma refs_avail: "pinv st \<Longrightarrow> a \<in> refs st \<Longrightarrow> a \<notin> avail (pg_source st)"
  using separate [of "pg_source st"] inv_ok [of st] inv_layout [of st] by (auto simp: layout_ok_def)

text \<open>A new, cleared page table that no directory refers to yet changes no page.\<close>

lemma new_table:
  assumes "pinv st" and "avail (pg_source st) \<noteq> {}"
  obtains a src where "alloc (pg_source st) = Inr (a, src)" and "a \<in> avail (pg_source st)"
    and "ok src" and "avail src = avail (pg_source st) - {a}" and "live src = insert a (live (pg_source st))"
    and "\<And>s. s \<in> set (pg_spaces st) \<Longrightarrow> virtualPageDirectory s \<noteq> a \<and> physicalPageDirectory s \<noteq> a"
    and "a \<notin> refs st"
proof -
  obtain a src where a: "alloc (pg_source st) = Inr (a, src)" "a \<in> avail (pg_source st)" "ok src"
      "avail src = avail (pg_source st) - {a}" "live src = insert a (live (pg_source st))"
    using alloc_law [OF inv_ok [OF assms(1)] assms(2)] by blast
  show thesis
    using that [OF a] layout_okD(1,2) [OF inv_layout [OF assms(1)]] refs_avail [OF assms(1), of a] a(2) by blast
qed

text \<open>Entering a new page table into the directories of the concerned spaces changes no page either.\<close>

lemma install_page_table:
  fixes f :: u16 and ss :: "VirtualAddressSpace list"
  assumes inv: "pinv st" and space: "space \<in> set (pg_spaces st)" and unused: "dir st space d = entry_clear"
    and a: "a \<in> avail (pg_source st)" "ok src" "avail src = avail (pg_source st) - {a}" "live src = insert a (live (pg_source st))"
    and ss: "set ss = concerned st space d"
  defines "st0 \<equiv> st\<lparr>pg_source := src, pg_tables := (pg_tables st)(a := table_clear)\<rparr>"
  defines "ep \<equiv> entry_set (entry_getAddress (page st space (idx a))) f"
  defines "st1 \<equiv> write_directories ss d (entry_set a f) ep st0"
  shows "dirs_written st st1 (concerned st space d) d (entry_set a f) ep"
proof -
  let ?S = "set (pg_spaces st)"
  note L = inv_layout [OF inv]
  have R: "is_page a" "a \<noteq> 0"
    using refs_region [OF inv, of a] a(1) by simp_all
  have fresh: "virtualPageDirectory s \<noteq> a" "physicalPageDirectory s \<noteq> a" if "s \<in> ?S" for s
    using layout_okD(1,2) [OF L that] a(1) by auto
  have na: "a \<notin> refs st"
    using refs_avail [OF inv] a(1) by blast
  have sub: "set ss \<subseteq> ?S"
    using space by (auto simp: ss concerned_def)
  have old: "dir st s d = entry_clear" if "s \<in> set ss" for s
    using that kernel_dir_same [OF inv _ space, of s d] unused sub by (auto simp: ss concerned_def split: if_splits)
  have f0: "pg_spaces st0 = pg_spaces st" "pg_current st0 = pg_current st"
    by (simp_all add: st0_def)
  have dir0: "dir st0 s d' = dir st s d'" if "s \<in> ?S" for s d'
    using fresh [OF that] by (simp add: dir_def st0_def)
  have refs0: "refs st0 = refs st"
    unfolding refs_def f0 using dir0 by (metis (no_types, lifting))
  have L0: "layout_ok (live (pg_source st)) (avail (pg_source st)) st0"
    using L unfolding layout_ok_def refs0 f0 .
  note W = write_directories_dir [OF L0, unfolded f0, OF sub, of _ d "entry_set a f" ep, folded st1_def]
  have dir1: "dir st1 s d' = (if d' = d \<and> s \<in> set ss then entry_set a f else dir st s d')" if "s \<in> ?S" for s d'
    using W(1) [OF that] dir0 [OF that] by simp
  have tn: "t \<notin> virtualPageDirectory ` set ss" "t \<notin> physicalPageDirectory ` set ss" if "t \<in> insert a (refs st)" for t
    using that fresh layout_okD(3,4) [OF L] sub by blast+
  have tab: "pg_tables st1 t = pg_tables st0 t" if "t \<in> insert a (refs st)" for t
    by (rule W(3)) (use tn [OF that] in simp_all)
  have taba: "pg_tables st1 a = table_clear" and tabr: "\<And>t. t \<in> refs st \<Longrightarrow> pg_tables st1 t = pg_tables st t"
    using tab na by (auto simp: st0_def)
  have "page st1 s (d', i) = page st s (d', i)" if s: "s \<in> ?S" for s d' i
  proof (cases "d' = d \<and> s \<in> set ss")
    case True
    then show ?thesis
      using dir1 [OF s, of d'] old taba entry_set_used [OF R, of f] entry_getAddress_page [OF R(1), of f] by (simp add: page_def)
  next
    case False
    then have "dir st1 s d' = dir st s d'"
      using dir1 [OF s, of d'] by (simp only: if_False)
    then show ?thesis
      using tabr [OF refs_I [OF s, of d']] by (simp add: page_def)
  qed
  then have "page st1 s = page st s" if "s \<in> ?S" for s
    using that by (auto simp: fun_eq_iff)
  moreover have "pg_tables st1 (physicalPageDirectory s) d' = (if d' = d \<and> s \<in> set ss
      then ep else pg_tables st (physicalPageDirectory s) d')" if "s \<in> ?S" for s d'
    using W(2) [OF that] fresh [OF that] by (simp add: st0_def)
  ultimately show ?thesis
    using dir1 by (simp add: dirs_written_def st1_def f0 ss)
qed

lemma ensure_table_spec:
  assumes inv: "pinv st" and space: "space \<in> set (pg_spaces st)" and room: "avail (pg_source st) \<noteq> {}"
    and "v \<noteq> KERNEL_END"
  shows "\<exists>st1. ensure_table alloc st space v = Inr st1 \<and> pinv st1 \<and> pg_spaces st1 = pg_spaces st \<and>
    pg_current st1 = pg_current st \<and> dir st1 space (DIRECTORY_INDEX v) \<noteq> entry_clear \<and>
    (\<forall>s \<in> set (pg_spaces st). page st1 s = page st s) \<and>
    live (pg_source st) \<subseteq> live (pg_source st1) \<and> live (pg_source st1) \<subseteq> live (pg_source st) \<union> avail (pg_source st)"
proof (cases "dir st space (DIRECTORY_INDEX v) = entry_clear")
  case True
  obtain a src where a: "alloc (pg_source st) = Inr (a, src)" "a \<in> avail (pg_source st)" "ok src"
      "avail src = avail (pg_source st) - {a}" "live src = insert a (live (pg_source st))"
      "\<And>s. s \<in> set (pg_spaces st) \<Longrightarrow> virtualPageDirectory s \<noteq> a \<and> physicalPageDirectory s \<noteq> a" "a \<notin> refs st"
    using new_table [OF inv room] by blast
  have R: "is_page a" "a < KERNEL_END" "a \<noteq> 0"
    using refs_region [OF inv, of a] a(2) by simp_all
  define f where "f = PRESENT OR WRITABLE OR (if KERNEL_END \<le> v then USER_ACCESSIBLE else 0)"
  define st0 where "st0 = st\<lparr>pg_source := src, pg_tables := (pg_tables st)(a := table_clear)\<rparr>"
  define ep where "ep = entry_set (entry_getAddress (page st space (idx a))) f"
  define ss where "ss = (if v \<le> KERNEL_END then pg_spaces st else [space])"
  define st1 where "st1 = write_directories ss (DIRECTORY_INDEX v) (entry_set a f) ep st0"
  have W: "set ss = concerned st space (DIRECTORY_INDEX v)"
    using assms(4) by (auto simp: ss_def concerned_def kernel_index)
  note w = install_page_table [OF inv space True a(2-5) W, of f, folded st0_def ep_def, folded st1_def]
  have get: "entry_getAddress (entry_set a f) = a" "entry_set a f \<noteq> entry_clear"
    using R by (simp_all add: entry_getAddress_page entry_set_used)
  have src1: "pg_source st1 = src"
    by (simp add: st1_def st0_def)
  have mapped: "page st s (idx a) \<noteq> entry_clear" if "s \<in> set (pg_spaces st)" for s
    using inv_mmu [OF inv] a(2) that by (auto simp: mmu_ok_def)
  have "refs st1 \<subseteq> insert a (refs st)"
    using refs_written [OF w] get by simp
  then have "layout_ok (live src) (avail src) st1"
    using inv_layout [OF inv] a(6) unfolding layout_ok_def dirs_writtenD(1,2) [OF w] a(4,5) by blast
  moreover have "sharing_ok st1"
    using sharing_written [OF inv_sharing [OF inv] w] get a(7) by simp
  moreover have "mmu_ok (avail src) st1"
  proof (rule mmu_written [OF inv_mmu [OF inv] w])
    fix s assume "s \<in> set (pg_spaces st)"
    then show "ep = (if entry_set a f = entry_clear then entry_clear else \<lparr>e_flags = e_flags (entry_set a f),
        e_address = e_address (page st s (idx (entry_getAddress (entry_set a f))))\<rparr>)"
      using kernel_page_same [OF inv _ space R(2), of s] e_address_set_get [of "page st space (idx a)" f] get
      by (simp add: ep_def) (simp add: entry_set_def)
  qed (use a get in auto)
  ultimately have "pinv st1"
    using a(3) by (simp add: paging_ok_def src1)
  moreover have "page st0 space (idx a) = page st space (idx a)"
  proof -
    have "dir st0 space d = dir st space d" for d
      using a(6) space by (simp add: dir_def st0_def)
    moreover have "pg_tables st0 t = pg_tables st t" if "t \<in> refs st" for t
      using a(7) that by (auto simp: st0_def)
    ultimately show ?thesis
      using refs_I [OF space] by (simp add: page_def idx_def)
  qed
  then have phys: "vas_getPhysicalAddress st0 space a = entry_getAddress (page st space (idx a))"
    using mapped [OF space] page_offset [OF R(1)] by (simp add: getPhysicalAddress_page)
  have alloc: "allocatePageTable alloc st = Inr (a, st0)" and spaces: "pg_spaces st0 = pg_spaces st"
    using a(1) by (simp_all add: allocatePageTable_def st0_def)
  have "ensure_table alloc st space v = Inr st1"
    unfolding ensure_table_def Let_def alloc unused_iff res_bind_simps prod.case phys spaces st1_def ep_def ss_def f_def
    using True by (simp add: dir_def)
  moreover have "dir st1 space (DIRECTORY_INDEX v) \<noteq> entry_clear"
    using dirs_writtenD(4) [OF w space] get space by (simp add: concerned_def)
  ultimately show ?thesis
    using dirs_writtenD(1-3) [OF w] a(2,5) src1 by auto
next
  case False
  then show ?thesis
    using inv by (simp add: ensure_table_def dir_def Let_def)
qed

text \<open>Writing an entry of a page table changes one page of the concerned spaces.\<close>

lemma concerned_dir:
  assumes "pinv st" and "space \<in> set (pg_spaces st)" and "s \<in> set (pg_spaces st)" and "dir st space d \<noteq> entry_clear"
  shows "s \<in> concerned st space d \<and> d' = d \<longleftrightarrow>
    dir st s d' \<noteq> entry_clear \<and> entry_getAddress (dir st s d') = entry_getAddress (dir st space d)"
proof
  assume "s \<in> concerned st space d \<and> d' = d"
  then show "dir st s d' \<noteq> entry_clear \<and> entry_getAddress (dir st s d') = entry_getAddress (dir st space d)"
    using kernel_dir_same [OF assms(1,3,2), of d] assms(4) by (auto simp: concerned_def split: if_splits)
next
  assume "dir st s d' \<noteq> entry_clear \<and> entry_getAddress (dir st s d') = entry_getAddress (dir st space d)"
  then have "d' = d \<and> (s = space \<or> d' < 32)"
    using inv_sharing [OF assms(1)] assms(2-4) unfolding sharing_ok_def by metis
  then show "s \<in> concerned st space d \<and> d' = d"
    using assms(3) by (auto simp: concerned_def)
qed

lemma put_page:
  fixes st :: "'b PagingState" and e :: Entry and i :: "10 word"
  assumes inv: "pinv st" and space: "space \<in> set (pg_spaces st)" and used: "dir st space d \<noteq> entry_clear"
    and notable: "(d, i) \<notin> idx ` (refs st \<union> avail (pg_source st))"
  defines "st1 \<equiv> put_entry st (entry_getAddress (dir st space d)) i e"
  shows "pinv st1" and "refs st1 = refs st"
    and "s \<in> set (pg_spaces st) \<Longrightarrow>
      page st1 s q = (if q = (d, i) \<and> s \<in> concerned st space d then e else page st s q)"
proof -
  let ?S = "set (pg_spaces st)"
  have f1: "pg_spaces st1 = pg_spaces st" "pg_current st1 = pg_current st" "pg_source st1 = pg_source st"
    by (simp_all add: st1_def put_entry_def)
  have pt: "entry_getAddress (dir st space d) \<in> refs st"
    by (rule refs_I [OF space used])
  have same: "pg_tables st1 t = pg_tables st t" if "t \<noteq> entry_getAddress (dir st space d)" for t
    using that by (simp add: st1_def put_entry_def)
  have vd: "virtualPageDirectory s \<noteq> entry_getAddress (dir st space d)"
    "physicalPageDirectory s \<noteq> entry_getAddress (dir st space d)" if "s \<in> ?S" for s
    using layout_okD(3,4) [OF inv_layout [OF inv] that] pt by auto
  have dir1: "dir st1 s = dir st s" if "s \<in> ?S" for s
    using same [OF vd(1) [OF that]] by (simp add: dir_def fun_eq_iff)
  show refs1: "refs st1 = refs st"
    unfolding refs_def f1 using dir1 by (metis (no_types, lifting))
  have page1: "page st1 s q = (if q = (d, i) \<and> s \<in> concerned st space d then e else page st s q)" if s: "s \<in> ?S" for s q
  proof -
    obtain d' i' where q: "q = (d', i')"
      by fastforce
    have "page st1 s (d', i') = (if (d', i') = (d, i) \<and> s \<in> concerned st space d then e else page st s (d', i'))"
      using concerned_dir [OF inv space s used, of d'] unfolding page_def prod.case dir1 [OF s]
      by (auto simp: st1_def put_entry_def)
    then show ?thesis
      by (simp only: q)
  qed
  then show "s \<in> ?S \<Longrightarrow> page st1 s q = (if q = (d, i) \<and> s \<in> concerned st space d then e else page st s q)" for s q .
  have "sharing_ok st1"
    using inv_sharing [OF inv] unfolding sharing_ok_def f1 by (simp only: dir1 cong: ball_cong)
  moreover have "layout_ok (live (pg_source st)) (avail (pg_source st)) st1"
    using inv_layout [OF inv] unfolding layout_ok_def f1 refs1 .
  moreover have "mmu_ok (avail (pg_source st)) st1"
    unfolding mmu_ok_def f1 refs1
  proof (intro conjI ballI allI)
    have keep: "page st1 s (idx t) = page st s (idx t)" if "s \<in> ?S" "t \<in> refs st \<union> avail (pg_source st)" for s t
      using page1 [OF that(1), of "idx t"] notable that(2) by (metis imageI)
    show "page st1 s (idx t) \<noteq> entry_clear" if "s \<in> ?S" "t \<in> refs st \<union> avail (pg_source st)" for s t
      using keep [OF that] inv_mmu [OF inv] that unfolding mmu_ok_def by simp
    fix s d' assume s: "s \<in> ?S"
    show "pg_tables st1 (physicalPageDirectory s) d' = (if dir st1 s d' = entry_clear then entry_clear
        else \<lparr>e_flags = e_flags (dir st1 s d'), e_address = e_address (page st1 s (idx (entry_getAddress (dir st1 s d'))))\<rparr>)"
      using keep [OF s, of "entry_getAddress (dir st s d')"] refs_I [OF s, of d'] inv_mmu [OF inv] s
      unfolding dir1 [OF s] same [OF vd(2) [OF s]] mmu_ok_def by auto
  qed
  ultimately show "pinv st1"
    using inv_ok [OF inv] by (simp add: paging_ok_def f1)
qed

lemma vas_map_spec:
  assumes inv: "pinv st" and space: "space \<in> set (pg_spaces st)" and room: "avail (pg_source st) \<noteq> {}"
    and "v \<noteq> KERNEL_END"
  shows "if page st space (idx v) \<noteq> entry_clear then vas_map alloc st space phys v flags = Inl PAGING_ERROR
    else \<exists>st'. vas_map alloc st space phys v flags = Inr st' \<and> pinv st' \<and>
      pg_spaces st' = pg_spaces st \<and> pg_current st' = pg_current st \<and>
      live (pg_source st) \<subseteq> live (pg_source st') \<and> live (pg_source st') \<subseteq> live (pg_source st) \<union> avail (pg_source st) \<and>
      (\<forall>s \<in> set (pg_spaces st). page st' s =
        (if s \<in> concerned st space (DIRECTORY_INDEX v) then (page st s)(idx v := entry_set phys flags) else page st s))"
proof -
  obtain st1 where e: "ensure_table alloc st space v = Inr st1" and st1: "pinv st1" "pg_spaces st1 = pg_spaces st"
      "pg_current st1 = pg_current st" "dir st1 space (DIRECTORY_INDEX v) \<noteq> entry_clear"
      "\<forall>s \<in> set (pg_spaces st). page st1 s = page st s"
      "live (pg_source st) \<subseteq> live (pg_source st1)" "live (pg_source st1) \<subseteq> live (pg_source st) \<union> avail (pg_source st)"
    using ensure_table_spec [OF assms] by blast
  define t where "t = entry_getAddress (dir st1 space (DIRECTORY_INDEX v))"
  have same: "page st1 space (idx v) = page st space (idx v)"
    using st1(5) space by simp
  have "page st1 space (idx v) = pg_tables st1 t (TABLE_INDEX v)"
    using st1(4) by (simp add: t_def page_def idx_def)
  then have old: "pg_tables st1 t (TABLE_INDEX v) = page st space (idx v)"
    using same by simp
  have map: "vas_map alloc st space phys v flags = (if page st space (idx v) \<noteq> entry_clear then Inl PAGING_ERROR
      else Inr (put_entry st1 t (TABLE_INDEX v) (entry_set phys flags)))"
    using old by (simp add: vas_map_def e Let_def t_def dir_def)
  have free: "(DIRECTORY_INDEX v, TABLE_INDEX v) \<notin> idx ` (refs st1 \<union> avail (pg_source st1))"
    if "page st space (idx v) = entry_clear"
    using that inv_mmu [OF st1(1)] same st1(2) space unfolding mmu_ok_def idx_def by fastforce
  show ?thesis
  proof (cases "page st space (idx v) = entry_clear")
    case True
    have sp: "space \<in> set (pg_spaces st1)"
      using space st1(2) by simp
    define st' where "st' = put_entry st1 t (TABLE_INDEX v) (entry_set phys flags)"
    note P = put_page [OF st1(1) sp st1(4) free [OF True], where e = "entry_set phys flags", folded t_def st'_def]
    have "page st' s = (if s \<in> concerned st space (DIRECTORY_INDEX v) then (page st s)(idx v := entry_set phys flags) else page st s)"
      if "s \<in> set (pg_spaces st)" for s
      using P(3) [of s] st1(2,5) that by (auto simp: fun_eq_iff concerned_def idx_def)
    moreover have "pg_spaces st' = pg_spaces st" "pg_current st' = pg_current st" "pg_source st' = pg_source st1"
      using st1(2,3) by (simp_all add: st'_def put_entry_def)
    ultimately show ?thesis
      using True map P(1) st1(6,7) unfolding st'_def [symmetric] by simp
  qed (simp add: map)
qed

text \<open>Removing an empty page table from the directories changes no page.\<close>

lemma uninstall_page_table:
  assumes inv: "pinv st" and space: "space \<in> set (pg_spaces st)" and used: "dir st space d \<noteq> entry_clear"
    and empty: "table_isEmpty (pg_tables st (entry_getAddress (dir st space d)))" and ss: "set ss = concerned st space d"
  defines "st1 \<equiv> write_directories ss d entry_clear entry_clear st"
  shows "dirs_written st st1 (concerned st space d) d entry_clear entry_clear" and "pinv st1"
    and "entry_getAddress (dir st space d) \<notin> refs st1"
proof -
  let ?S = "set (pg_spaces st)"
  note L = inv_layout [OF inv]
  have sub: "set ss \<subseteq> ?S"
    using space by (auto simp: ss concerned_def)
  note W = write_directories_dir [OF L sub, of _ d entry_clear entry_clear, folded st1_def]
  have tn: "t \<notin> virtualPageDirectory ` set ss" "t \<notin> physicalPageDirectory ` set ss" if "t \<in> refs st" for t
    using that layout_okD(3,4) [OF L] sub by blast+
  have tab: "pg_tables st1 t = pg_tables st t" if "t \<in> refs st" for t
    by (rule W(3)) (use tn [OF that] in simp_all)
  have "page st1 s (d', i) = page st s (d', i)" if s: "s \<in> ?S" for s d' i
  proof (cases "d' = d \<and> s \<in> set ss")
    case True
    then have "entry_getAddress (dir st s d) = entry_getAddress (dir st space d)"
      using concerned_dir [OF inv space s used, of d] by (simp add: ss)
    then show ?thesis
      using W(1) [OF s, of d'] True empty by (simp add: page_def table_isEmpty_iff)
  next
    case False
    then have "dir st1 s d' = dir st s d'"
      using W(1) [OF s, of d'] by (simp only: if_False)
    then show ?thesis
      using tab [OF refs_I [OF s, of d']] by (simp add: page_def)
  qed
  then have "page st1 s = page st s" if "s \<in> ?S" for s
    using that by (auto simp: fun_eq_iff)
  then show w: "dirs_written st st1 (concerned st space d) d entry_clear entry_clear"
    using W(1,2) by (simp add: dirs_written_def st1_def ss)
  have refs1: "refs st1 \<subseteq> refs st"
    using refs_written [OF w] by simp
  have src: "pg_source st1 = pg_source st"
    by (simp add: st1_def)
  have "layout_ok (live (pg_source st)) (avail (pg_source st)) st1"
    using L refs1 unfolding layout_ok_def dirs_writtenD(1,2) [OF w] by blast
  moreover have "sharing_ok st1"
    using sharing_written [OF inv_sharing [OF inv] w] by simp
  moreover have "mmu_ok (avail (pg_source st)) st1"
    by (rule mmu_written [OF inv_mmu [OF inv] w]) simp_all
  ultimately show "pinv st1"
    using inv_ok [OF inv] by (simp add: paging_ok_def src)
  show "entry_getAddress (dir st space d) \<notin> refs st1"
  proof
    assume "entry_getAddress (dir st space d) \<in> refs st1"
    then obtain s d' where s: "s \<in> ?S" "dir st1 s d' \<noteq> entry_clear"
        "entry_getAddress (dir st space d) = entry_getAddress (dir st1 s d')"
      using dirs_writtenD(1) [OF w] by (metis refs_E)
    then have n: "\<not> (d' = d \<and> s \<in> concerned st space d)"
      using dirs_writtenD(4) [OF w s(1), of d'] by auto
    then have "dir st1 s d' = dir st s d'"
      using dirs_writtenD(4) [OF w s(1), of d'] by (simp only: if_False)
    then show False
      using concerned_dir [OF inv space s(1) used, of d'] s(2,3) n by simp
  qed
qed

text \<open>
  What \<^verbatim>\<open>unmap\<close> and \<^verbatim>\<open>freePageTable\<close> do to everything but the pages of page tables: the invariant
  holds, no page is added, no table is added, and the tables that are given back were in use.
\<close>

definition unmapped :: "'b PagingState \<Rightarrow> 'b PagingState \<Rightarrow> u32 set \<Rightarrow> bool" where
  "unmapped st st' freed \<longleftrightarrow> pinv st' \<and> pg_spaces st' = pg_spaces st \<and> pg_current st' = pg_current st \<and>
     refs st' \<subseteq> refs st \<and> avail (pg_source st') = avail (pg_source st) \<and> live (pg_source st') \<subseteq> live (pg_source st) \<and>
     live (pg_source st) - live (pg_source st') \<subseteq> freed \<and>
     (\<forall>s \<in> set (pg_spaces st). \<forall>q. page st' s q = page st s q \<or> page st' s q = entry_clear)"

lemma unmapped_trans:
  assumes "unmapped st st1 A" and "unmapped st1 st2 B"
  shows "unmapped st st2 (A \<union> B)"
  using assms unfolding unmapped_def by (auto; metis)

lemma unmapped_mono: "unmapped st st' A \<Longrightarrow> A \<subseteq> B \<Longrightarrow> unmapped st st' B"
  by (auto simp: unmapped_def)

lemma unmap_step:
  assumes inv: "pinv st" and space: "space \<in> set (pg_spaces st)" and v: "v \<noteq> KERNEL_END"
    and nt: "idx v \<notin> idx ` (refs st \<union> avail (pg_source st))" and used: "page st space (idx v) \<noteq> entry_clear"
  defines "t \<equiv> entry_getAddress (dir st space (DIRECTORY_INDEX v))"
  defines "st1 \<equiv> put_entry st t (TABLE_INDEX v) entry_clear"
  defines "st2 \<equiv> write_directories (if v \<le> KERNEL_END then pg_spaces st1 else [space]) (DIRECTORY_INDEX v) entry_clear entry_clear st1"
  defines "cleared s \<equiv> (if s \<in> concerned st space (DIRECTORY_INDEX v) then (page st s)(idx v := entry_clear) else page st s)"
  shows "vas_unmap free st space v =
      (if table_isEmpty (pg_tables st1 t) then res_bind (freePageTable free st2 t) (\<lambda>st'. Inr (entry_getAddress (page st space (idx v)), st'))
       else Inr (entry_getAddress (page st space (idx v)), st1))"
    and "unmapped st st1 {}" and "\<And>s. s \<in> set (pg_spaces st) \<Longrightarrow> page st1 s = cleared s"
    and "table_isEmpty (pg_tables st1 t) \<Longrightarrow> unmapped st st2 {}"
    and "table_isEmpty (pg_tables st1 t) \<Longrightarrow> s \<in> set (pg_spaces st) \<Longrightarrow> page st2 s = cleared s"
    and "table_isEmpty (pg_tables st1 t) \<Longrightarrow> t \<notin> refs st2" and "t \<in> refs st"
proof -
  have d: "dir st space (DIRECTORY_INDEX v) \<noteq> entry_clear" and e: "page st space (idx v) = pg_tables st t (TABLE_INDEX v)"
    using used by (auto simp: page_def idx_def t_def)
  show "t \<in> refs st"
    unfolding t_def by (rule refs_I [OF space d])
  have nt': "(DIRECTORY_INDEX v, TABLE_INDEX v) \<notin> idx ` (refs st \<union> avail (pg_source st))"
    using nt by (simp add: idx_def [of v])
  note P = put_page [OF inv space d nt', where e = entry_clear, folded t_def, folded st1_def]
  have f1: "pg_spaces st1 = pg_spaces st" "pg_current st1 = pg_current st" "pg_source st1 = pg_source st"
    by (simp_all add: st1_def put_entry_def)
  show page1: "page st1 s = cleared s" if "s \<in> set (pg_spaces st)" for s
    using P(3) [OF that] by (auto simp: fun_eq_iff cleared_def idx_def)
  show u1: "unmapped st st1 {}"
    using P(1,2) page1 by (auto simp: unmapped_def f1 cleared_def)
  show "vas_unmap free st space v =
      (if table_isEmpty (pg_tables st1 t) then res_bind (freePageTable free st2 t) (\<lambda>st'. Inr (entry_getAddress (page st space (idx v)), st'))
       else Inr (entry_getAddress (page st space (idx v)), st1))"
    using d used unfolding e by (subst vas_unmap.simps) (simp add: Let_def dir_def [symmetric] t_def [symmetric] st1_def [symmetric] st2_def)
  assume empty: "table_isEmpty (pg_tables st1 t)"
  have "t \<noteq> virtualPageDirectory space"
    using layout_okD(3) [OF inv_layout [OF inv] space] \<open>t \<in> refs st\<close> by auto
  then have dir1: "dir st1 space (DIRECTORY_INDEX v) = dir st space (DIRECTORY_INDEX v)"
    by (simp add: dir_def st1_def put_entry_def)
  have sp1: "space \<in> set (pg_spaces st1)"
    using space f1 by simp
  have W: "set (if v \<le> KERNEL_END then pg_spaces st1 else [space]) = concerned st1 space (DIRECTORY_INDEX v)"
    using v by (auto simp: concerned_def kernel_index)
  note U = uninstall_page_table [OF P(1) sp1 _ _ W, folded st2_def, unfolded dir1, OF d, folded t_def, OF empty]
  show "t \<notin> refs st2"
    by (fact U(3))
  have page2: "page st2 s = page st1 s" if "s \<in> set (pg_spaces st)" for s
    using dirs_writtenD(3) [OF U(1)] that f1 by simp
  show "s \<in> set (pg_spaces st) \<Longrightarrow> page st2 s = cleared s" for s
    using page1 page2 by simp
  have "pg_source st2 = pg_source st1"
    by (simp add: st2_def)
  then have "unmapped st1 st2 {}"
    using U(2) refs_written [OF U(1)] dirs_writtenD(1,2) [OF U(1)] page2 f1 by (simp add: unmapped_def)
  then show "unmapped st st2 {}"
    using unmapped_trans [OF u1] by simp
qed

lemma unmap_spec:
  "F = free \<Longrightarrow> pinv st \<Longrightarrow> space \<in> set (pg_spaces st) \<Longrightarrow> v \<noteq> KERNEL_END \<Longrightarrow>
     idx v \<notin> idx ` (refs st \<union> avail (pg_source st)) \<Longrightarrow>
     \<exists>st'. vas_unmap F st space v =
         Inr (if page st space (idx v) = entry_clear then nullptr else entry_getAddress (page st space (idx v)), st') \<and>
       unmapped st st' (refs st) \<and> page st' space (idx v) = entry_clear \<and>
       (\<forall>s \<in> set (pg_spaces st). \<forall>q. q \<notin> idx ` live (pg_source st) \<longrightarrow>
          page st' s q = (if q = idx v \<and> s \<in> concerned st space (DIRECTORY_INDEX v) then entry_clear else page st s q))"
  "F = free \<Longrightarrow> pinv st \<Longrightarrow> t \<in> live (pg_source st) \<Longrightarrow> t \<notin> refs st \<Longrightarrow>
     \<exists>st'. freePageTable F st t = Inr st' \<and> unmapped st st' (insert t (refs st)) \<and>
       (\<forall>s \<in> set (pg_spaces st). \<forall>q. q \<notin> idx ` live (pg_source st) \<longrightarrow> page st' s q = page st s q)"
proof (induction F st space v and F st t rule: vas_unmap_freePageTable.induct)
  case (1 F st space v)
  note inv = 1(3) and space = 1(4) and v = 1(5) and nt = 1(6)
  show ?case
  proof (cases "page st space (idx v) = entry_clear")
    case True
    then have "vas_unmap F st space v = Inr (nullptr, st)"
      by (subst vas_unmap.simps) (auto simp: Let_def page_def idx_def dir_def split: if_splits)
    moreover have "page st s (idx v) = entry_clear" if "s \<in> concerned st space (DIRECTORY_INDEX v)" "s \<in> set (pg_spaces st)" for s
      using that True kernel_page_same [OF inv space that(2), of v]
      by (auto simp: concerned_def kernel_index split: if_splits)
    ultimately show ?thesis
      using True inv by (auto simp: unmapped_def)
  next
    case False
    define t where "t = entry_getAddress (dir st space (DIRECTORY_INDEX v))"
    define st1 where "st1 = put_entry st t (TABLE_INDEX v) entry_clear"
    define st2 where "st2 = write_directories (if v \<le> KERNEL_END then pg_spaces st1 else [space]) (DIRECTORY_INDEX v) entry_clear entry_clear st1"
    note S = unmap_step [OF inv space v nt False, folded t_def, folded st1_def, folded st2_def]
    have me: "space \<in> concerned st space (DIRECTORY_INDEX v)"
      using space by (simp add: concerned_def)
    show ?thesis
    proof (cases "table_isEmpty (pg_tables st1 t)")
      case True
      note u2 = S(4) [OF True] and p2 = S(5) [OF True] and n2 = S(6) [OF True]
      have "t \<in> live (pg_source st2)"
        using u2 S(7) inv_layout [OF inv] by (auto simp: unmapped_def layout_ok_def)
      moreover have "dir st space (DIRECTORY_INDEX v) \<noteq> entry_clear" "pg_tables st t (TABLE_INDEX v) \<noteq> entry_clear"
        using False by (auto simp: page_def idx_def t_def split: if_splits)
      ultimately obtain st' where st': "freePageTable F st2 t = Inr st'" "unmapped st2 st' (insert t (refs st2))"
          "\<forall>s \<in> set (pg_spaces st2). \<forall>q. q \<notin> idx ` live (pg_source st2) \<longrightarrow> page st' s q = page st2 s q"
        using 1(1) [OF refl refl refl refl _ _ refl refl, folded dir_def, folded t_def, folded st1_def, folded st2_def]
          True u2 n2 1(2) by (auto simp: unmapped_def)
      have "unmapped st st' (insert t (refs st2))"
        using unmapped_trans [OF u2 st'(2)] by simp
      then have u: "unmapped st st' (refs st)"
        using S(7) u2 by (elim unmapped_mono) (auto simp: unmapped_def)
      have "page st' space (idx v) = entry_clear"
        using st'(2) p2 [OF space] me space u2 unfolding unmapped_def by (metis fun_upd_same)
      moreover have "page st' s q = (if q = idx v \<and> s \<in> concerned st space (DIRECTORY_INDEX v) then entry_clear else page st s q)"
        if "s \<in> set (pg_spaces st)" "q \<notin> idx ` live (pg_source st)" for s q
      proof -
        have "live (pg_source st2) = live (pg_source st)" "pg_spaces st2 = pg_spaces st"
          using u2 unfolding unmapped_def by blast+
        then have "page st' s q = page st2 s q"
          using that st'(3) by metis
        then show ?thesis
          using p2 [OF that(1)] by simp
      qed
      ultimately show ?thesis
        using S(1) True st'(1) u False 1(2) by auto
    next
      case ne: False
      have "page st1 s q = (if q = idx v \<and> s \<in> concerned st space (DIRECTORY_INDEX v) then entry_clear else page st s q)"
        if "s \<in> set (pg_spaces st)" for s q
        using S(3) [OF that] by simp
      then show ?thesis
        using S(1) ne False 1(2) unmapped_mono [OF S(2), of "refs st"] me space by auto
    qed
  qed
next
  case (2 F st t)
  note inv = 2(3) and t = 2(4) and nr = 2(5)
  have cur: "pg_current st \<in> set (pg_spaces st)"
    using inv_layout [OF inv] by (simp add: layout_ok_def)
  have R: "is_page t" "t < KERNEL_END"
    using region [OF inv_ok [OF inv], of t] t by auto
  have "t \<notin> avail (pg_source st)"
    using separate [OF inv_ok [OF inv]] t by blast
  then have nt: "idx t \<notin> idx ` (refs st \<union> avail (pg_source st))"
    using idx_inj [OF R(1)] refs_region(1) [OF inv] nr by blast
  obtain p st' where st': "vas_unmap F st (pg_current st) t = Inr (p, st')" "unmapped st st' (refs st)"
      "\<forall>s \<in> set (pg_spaces st). \<forall>q. q \<notin> idx ` live (pg_source st) \<longrightarrow>
        page st' s q = (if q = idx t \<and> s \<in> concerned st (pg_current st) (DIRECTORY_INDEX t) then entry_clear else page st s q)"
    using 2(1) [OF 2(2) inv cur _ nt] R(2) by blast
  have keep: "page st' s q = page st s q" if "s \<in> set (pg_spaces st)" "q \<notin> idx ` live (pg_source st)" for s q
    using st'(3) that t by (metis imageI)
  show ?case
  proof (cases "p = nullptr")
    case True
    then show ?thesis
      using st'(1) keep unmapped_mono [OF st'(2) subset_insertI [of _ t]] by (subst freePageTable.simps) auto
  next
    case False
    have u: "pinv st'" "t \<in> live (pg_source st')"
      using st'(2) t nr by (auto simp: unmapped_def)
    obtain src where src: "free (pg_source st') t = Inr src" "ok src" "avail src = avail (pg_source st')"
        "live src = live (pg_source st') - {t}"
      using free_law [OF inv_ok [OF u(1)] u(2)] by blast
    have "refs st' \<subseteq> live src"
      using u(1) inv_layout [OF u(1)] st'(2) nr src(4) by (auto simp: unmapped_def layout_ok_def)
    then have "pinv (st'\<lparr>pg_source := src\<rparr>)"
      using u(1) src(2,3) by (simp add: paging_ok_def layout_ok_def)
    then have "unmapped st (st'\<lparr>pg_source := src\<rparr>) (insert t (refs st))"
      using st'(2) src(3,4) by (auto simp: unmapped_def)
    then show ?thesis
      using False st'(1) src(1) keep 2(2)
      by (subst freePageTable.simps) auto
  qed
qed

text \<open>A new address space has the pages of the kernel area and no others.\<close>

lemma createAddressSpace_spec:
  assumes inv: "pinv st" and k: "kernelSpace \<in> set (pg_spaces st)" and room: "avail (pg_source st) \<noteq> {}"
    and vd: "vd \<notin> live (pg_source st) \<union> avail (pg_source st)"
      "\<forall>s \<in> set (pg_spaces st). vd \<noteq> virtualPageDirectory s \<and> vd \<noteq> physicalPageDirectory s"
  shows "\<exists>s' st'. createAddressSpace alloc vd kernelSpace st = Inr (s', st') \<and> pinv st' \<and>
    pg_spaces st' = pg_spaces st @ [s'] \<and> pg_current st' = pg_current st \<and>
    physicalPageDirectory s' \<in> live (pg_source st') \<and> \<not> kernelAddressSpace s' \<and>
    (\<forall>s \<in> set (pg_spaces st). page st' s = page st s) \<and>
    (\<forall>d i. page st' s' (d, i) = (if d < 32 then page st kernelSpace (d, i) else entry_clear))"
proof -
  let ?S = "set (pg_spaces st)"
  obtain a src where a: "alloc (pg_source st) = Inr (a, src)" "a \<in> avail (pg_source st)" "ok src"
      "avail src = avail (pg_source st) - {a}" "live src = insert a (live (pg_source st))"
      "\<And>s. s \<in> ?S \<Longrightarrow> virtualPageDirectory s \<noteq> a \<and> physicalPageDirectory s \<noteq> a" "a \<notin> refs st"
    using new_table [OF inv room] by blast
  define s' where "s' = \<lparr>kernelAddressSpace = False, physicalPageDirectory = a, virtualPageDirectory = vd\<rparr>"
  define st0 where "st0 = st\<lparr>pg_source := src, pg_tables := (pg_tables st)(a := table_clear, vd := table_clear)\<rparr>"
  define st1 where "st1 = copy_kernel st0 kernelSpace s' KERNEL_START"
  define st' where "st' = st1\<lparr>pg_spaces := pg_spaces st @ [s']\<rparr>"
  have ne: "a \<noteq> vd" and vr: "vd \<notin> refs st"
    using a(2) vd(1) inv_layout [OF inv] by (auto simp: layout_ok_def)
  have create: "createAddressSpace alloc vd kernelSpace st = Inr (s', st')"
    by (simp add: createAddressSpace_def allocatePageTable_def a(1) Let_def s'_def [symmetric] st'_def st1_def st0_def)
  have f: "pg_spaces st' = pg_spaces st @ [s']" "pg_current st' = pg_current st" "pg_source st' = src"
    "physicalPageDirectory s' = a" "virtualPageDirectory s' = vd"
    by (simp_all add: st'_def st1_def st0_def s'_def)
  have "DIRECTORY_INDEX KERNEL_START \<le> d" for d
    by (simp add: word_le_nat_alt unat_DIRECTORY_INDEX KERNEL_START_def)
  then have T: "pg_tables st' t d = (if d < 32 \<and> t = a then pg_tables st (physicalPageDirectory kernelSpace) d
      else if d < 32 \<and> t = vd then dir st kernelSpace d else if t = a \<or> t = vd then entry_clear else pg_tables st t d)" for t d
    using copy_kernel_tables [of s' kernelSpace st0 KERNEL_START t d] a(6) [OF k] vd(2) k ne
    by (auto simp: st'_def st1_def st0_def f(4,5) dir_def)
  have keep: "pg_tables st' t = pg_tables st t" if "t \<noteq> a" "t \<noteq> vd" for t
    using that by (simp add: T fun_eq_iff)
  have dirS: "dir st' s = dir st s" "pg_tables st' (physicalPageDirectory s) = pg_tables st (physicalPageDirectory s)" if "s \<in> ?S" for s
    using keep a(6) [OF that] vd(2) that by (auto simp: dir_def fun_eq_iff)
  have dirN: "dir st' s' d = (if d < 32 then dir st kernelSpace d else entry_clear)" for d
    using ne T [of vd d] by (auto simp: dir_def f(5))
  have keepR: "pg_tables st' t = pg_tables st t" if "t \<in> refs st" for t
    using keep a(7) vr that by metis
  have pageS: "page st' s = page st s" if "s \<in> ?S" for s
  proof -
    have "page st' s (d, i) = page st s (d, i)" for d i
      using keepR [OF refs_I [OF that, of d]] dirS(1) [OF that] by (simp add: page_def)
    then show ?thesis
      by (auto simp: fun_eq_iff)
  qed
  have pageN: "page st' s' (d, i) = (if d < 32 then page st kernelSpace (d, i) else entry_clear)" for d i
    using keepR [OF refs_I [OF k, of d]] by (simp add: page_def dirN)
  have refs': "refs st' = refs st"
  proof
    show "refs st' \<subseteq> refs st"
    proof
      fix t assume "t \<in> refs st'"
      then obtain s d where "s \<in> set (pg_spaces st')" "dir st' s d \<noteq> entry_clear" "t = entry_getAddress (dir st' s d)"
        by (rule refs_E)
      then show "t \<in> refs st"
        using dirS dirN [of d] refs_I [OF k] refs_I [of s st d] by (auto simp: f split: if_splits)
    qed
    show "refs st \<subseteq> refs st'"
      using dirS refs_I [of _ st'] by (auto simp: f elim!: refs_E) (metis)
  qed
  have "layout_ok (live src) (avail src) st'"
    using inv_layout [OF inv] a(2,4-7) vd vr ne unfolding layout_ok_def f refs' by (auto simp: f)
  moreover have "sharing_ok st'"
  proof -
    have rep: "\<exists>r \<in> ?S. dir st' s d = dir st r d \<and> (r = s \<or> d < 32)"
      if "s \<in> set (pg_spaces st')" "dir st' s d \<noteq> entry_clear \<or> d < 32" for s d
      using that dirS(1) [of s] dirN [of d] k by (cases "s = s'") (auto simp: f split: if_splits)
    have "dir st' s d = dir st' r d" if "s \<in> set (pg_spaces st')" "r \<in> set (pg_spaces st')" "d < 32" for s r d
      using rep [OF that(1), of d] rep [OF that(2), of d] that(3) kernel_dir_same [OF inv] by metis
    moreover have "d = d' \<and> (s = r \<or> d < 32)"
      if "s \<in> set (pg_spaces st')" "r \<in> set (pg_spaces st')" "dir st' s d \<noteq> entry_clear" "dir st' r d' \<noteq> entry_clear"
        "entry_getAddress (dir st' s d) = entry_getAddress (dir st' r d')" for s r d d'
    proof -
      note H = that
      obtain x y where x: "x \<in> ?S" "dir st' s d = dir st x d" "x = s \<or> d < 32"
          and y: "y \<in> ?S" "dir st' r d' = dir st y d'" "y = r \<or> d' < 32"
        using rep [OF H(1), of d] rep [OF H(2), of d'] H(3,4) by blast
      then have "d = d' \<and> (x = y \<or> d < 32)"
        using inv_sharing [OF inv] H(3-5) unfolding sharing_ok_def by metis
      then show ?thesis
        using x(3) y(3) by blast
    qed
    ultimately show ?thesis
      unfolding sharing_ok_def by blast
  qed
  moreover have "mmu_ok (avail src) st'"
    unfolding mmu_ok_def refs'
  proof (intro conjI ballI allI)
    note M = inv_mmu [OF inv, unfolded mmu_ok_def]
    have new: "page st' s' (idx t) = page st kernelSpace (idx t)" if "t \<in> refs st \<union> avail (pg_source st)" for t
      using pageN refs_region(2) [OF inv that] by (simp add: idx_def kernel_index)
    show "page st' s (idx t) \<noteq> entry_clear" if s: "s \<in> set (pg_spaces st')" and t: "t \<in> refs st \<union> avail src" for s t
    proof -
      have t': "t \<in> refs st \<union> avail (pg_source st)"
        using t a(4) by auto
      then show ?thesis
        using M s pageS [of s] new [OF t'] k by (cases "s \<in> ?S") (auto simp: f)
    qed
    fix s d assume s: "s \<in> set (pg_spaces st')"
    show "pg_tables st' (physicalPageDirectory s) d = (if dir st' s d = entry_clear then entry_clear
        else \<lparr>e_flags = e_flags (dir st' s d), e_address = e_address (page st' s (idx (entry_getAddress (dir st' s d))))\<rparr>)"
    proof (cases "s \<in> ?S")
      case True
      then show ?thesis
        using M dirS [OF True] pageS [OF True] by simp
    next
      case False
      then have "s = s'"
        using s by (simp add: f)
      then show ?thesis
        using M k dirN [of d] T [of a d] new [of "entry_getAddress (dir st kernelSpace d)"] refs_I [OF k, of d] by (simp add: f)
    qed
  qed
  ultimately show ?thesis
    using create a(3,5) pageS pageN by (auto simp: paging_ok_def f s'_def)
qed

lemma pinv_fewer:
  assumes "pinv st" and "set ss \<subseteq> set (pg_spaces st)" and "pg_current st \<in> set ss"
  shows "pinv (st\<lparr>pg_spaces := ss\<rparr>)" and "refs (st\<lparr>pg_spaces := ss\<rparr>) \<subseteq> refs st"
proof -
  have v: "dir (st\<lparr>pg_spaces := ss\<rparr>) = dir st" "page (st\<lparr>pg_spaces := ss\<rparr>) = page st"
    by (simp_all add: page_def dir_def fun_eq_iff)
  have f: "pg_spaces (st\<lparr>pg_spaces := ss\<rparr>) = ss" "pg_current (st\<lparr>pg_spaces := ss\<rparr>) = pg_current st"
    "pg_tables (st\<lparr>pg_spaces := ss\<rparr>) = pg_tables st" "pg_source (st\<lparr>pg_spaces := ss\<rparr>) = pg_source st"
    by simp_all
  show r: "refs (st\<lparr>pg_spaces := ss\<rparr>) \<subseteq> refs st"
    using assms(2) by (auto simp: refs_def v f)
  have "layout_ok (live (pg_source st)) (avail (pg_source st)) (st\<lparr>pg_spaces := ss\<rparr>)"
    using inv_layout [OF assms(1)] assms(2,3) r unfolding layout_ok_def f by blast
  moreover have "sharing_ok (st\<lparr>pg_spaces := ss\<rparr>)"
    using inv_sharing [OF assms(1)] assms(2) unfolding sharing_ok_def f v by (meson subsetD)
  moreover have "mmu_ok (avail (pg_source st)) (st\<lparr>pg_spaces := ss\<rparr>)"
    using inv_mmu [OF assms(1)] assms(2) r unfolding mmu_ok_def f v by blast
  ultimately show "pinv (st\<lparr>pg_spaces := ss\<rparr>)"
    using inv_ok [OF assms(1)] by (simp add: paging_ok_def)
qed

lemma removeAddressSpace_spec:
  assumes inv: "pinv st" and space: "space \<in> set (pg_spaces st)" "distinct (pg_spaces st)"
    and cur: "pg_current st \<noteq> space" and user: "\<not> kernelAddressSpace space" "physicalPageDirectory space \<in> live (pg_source st)"
  shows "\<exists>st'. removeAddressSpace free space st = Inr st' \<and> pinv st' \<and> set (pg_spaces st') = set (pg_spaces st) - {space} \<and>
    (\<forall>s \<in> set (pg_spaces st'). \<forall>q. q \<notin> idx ` live (pg_source st) \<longrightarrow> page st' s q = page st s q)"
proof -
  define st1 where "st1 = st\<lparr>pg_spaces := remove1 space (pg_spaces st)\<rparr>"
  have S1: "set (pg_spaces st1) = set (pg_spaces st) - {space}"
    using space(2) by (simp add: st1_def)
  have "pg_current st \<in> set (remove1 space (pg_spaces st))"
    using inv_layout [OF inv] cur space(2) by (simp add: layout_ok_def)
  then have inv1: "pinv st1" and r: "refs st1 \<subseteq> refs st"
    using pinv_fewer [OF inv, of "remove1 space (pg_spaces st)"] by (simp_all add: st1_def set_remove1_subset)
  have "physicalPageDirectory space \<notin> refs st1"
    using layout_okD(4) [OF inv_layout [OF inv] space(1)] r by blast
  then obtain st' where st': "freePageTable free st1 (physicalPageDirectory space) = Inr st'"
      "unmapped st1 st' (insert (physicalPageDirectory space) (refs st1))"
      "\<forall>s \<in> set (pg_spaces st1). \<forall>q. q \<notin> idx ` live (pg_source st1) \<longrightarrow> page st' s q = page st1 s q"
    using unmap_spec(2) [OF refl inv1, of "physicalPageDirectory space"] user(2) by (auto simp: st1_def)
  have "page st1 = page st" "pg_source st1 = pg_source st"
    by (simp_all add: st1_def page_def dir_def fun_eq_iff)
  then show ?thesis
    using st' S1 cur user(1) unfolding unmapped_def
    by (intro exI [of _ st']) (simp add: removeAddressSpace_def st1_def [symmetric])
qed

text \<open>The invariant does not depend on what else the source is used for.\<close>

lemma pinv_source:
  assumes "pinv st" and "ok src" and "live (pg_source st) \<subseteq> live src" and "avail src \<subseteq> avail (pg_source st)"
  shows "pinv (st\<lparr>pg_source := src\<rparr>)"
proof -
  have "layout_ok (live src) (avail src) (st\<lparr>pg_source := src\<rparr>)"
    using inv_layout [OF assms(1)] assms(3,4) by (auto simp: layout_ok_def)
  moreover have "mmu_ok (avail src) st"
    using inv_mmu [OF assms(1)] assms(4) unfolding mmu_ok_def by blast
  ultimately show ?thesis
    using inv_sharing [OF assms(1)] assms(2) by (simp add: paging_ok_def)
qed

text \<open>
  With the virtual address \<open>KERNEL_END\<close>, the first one of user space, a new page table is entered
  into the directories of all address spaces, whatever they had there.
\<close>

lemma map_boundary:
  assumes inv: "pinv st" and space: "space \<in> set (pg_spaces st)" and room: "avail (pg_source st) \<noteq> {}"
    and unused: "dir st space (DIRECTORY_INDEX KERNEL_END) = entry_clear"
  shows "\<exists>st'. vas_map alloc st space phys KERNEL_END flags = Inr st' \<and>
    (\<forall>s \<in> set (pg_spaces st). \<forall>i. page st' s (DIRECTORY_INDEX KERNEL_END, i) =
       (if i = TABLE_INDEX KERNEL_END then entry_set phys flags else entry_clear))"
proof -
  let ?S = "set (pg_spaces st)" and ?d = "DIRECTORY_INDEX KERNEL_END"
  obtain a src where a: "alloc (pg_source st) = Inr (a, src)" "a \<in> avail (pg_source st)" "ok src"
      "avail src = avail (pg_source st) - {a}" "live src = insert a (live (pg_source st))"
      "\<And>s. s \<in> ?S \<Longrightarrow> virtualPageDirectory s \<noteq> a \<and> physicalPageDirectory s \<noteq> a" "a \<notin> refs st"
    using new_table [OF inv room] by blast
  have R: "is_page a" "a \<noteq> 0"
    using refs_region [OF inv, of a] a(2) by simp_all
  define st0 where "st0 = st\<lparr>pg_source := src, pg_tables := (pg_tables st)(a := table_clear)\<rparr>"
  define f where "f = PRESENT OR WRITABLE OR USER_ACCESSIBLE"
  define st1 where "st1 = write_directories (pg_spaces st) ?d (entry_set a f)
    (entry_set (vas_getPhysicalAddress st0 space a) f) st0"
  have f0: "pg_spaces st0 = pg_spaces st" "pg_current st0 = pg_current st"
    by (simp_all add: st0_def)
  have "dir st0 s d' = dir st s d'" if "s \<in> ?S" for s d'
    using a(6) [OF that] by (simp add: dir_def st0_def)
  then have refs0: "refs st0 = refs st"
    unfolding refs_def f0 by (metis (no_types, lifting))
  have L0: "layout_ok (live (pg_source st)) (avail (pg_source st)) st0"
    using inv_layout [OF inv] unfolding layout_ok_def refs0 f0 .
  have dir1: "dir st1 s ?d = entry_set a f" if "s \<in> ?S" for s
    using write_directories_dir(1) [OF L0, unfolded f0, OF subset_refl that] that by (simp add: st1_def)
  have n: "a \<notin> virtualPageDirectory ` ?S" "a \<notin> physicalPageDirectory ` ?S"
    using a(6) by blast+
  have "pg_tables st1 a = pg_tables st0 a"
    unfolding st1_def by (rule write_directories_dir(3) [OF L0, unfolded f0, OF subset_refl n])
  then have taba: "pg_tables st1 a = table_clear"
    by (simp add: st0_def)
  have alloc: "allocatePageTable alloc st = Inr (a, st0)"
    using a(1) by (simp add: allocatePageTable_def st0_def)
  have ens: "ensure_table alloc st space KERNEL_END = Inr st1"
    unfolding ensure_table_def Let_def alloc unused_iff res_bind_simps prod.case f0 st1_def f_def
    using unused by (simp add: dir_def)
  define st' where "st' = put_entry st1 a (TABLE_INDEX KERNEL_END) (entry_set phys flags)"
  have get: "entry_getAddress (entry_set a f) = a" "entry_set a f \<noteq> entry_clear"
    using R by (simp_all add: entry_getAddress_page entry_set_used)
  have "vas_map alloc st space phys KERNEL_END flags = Inr st'"
    using dir1 [OF space] taba get by (simp add: vas_map_def ens Let_def dir_def st'_def)
  moreover have "page st' s (?d, i) = (if i = TABLE_INDEX KERNEL_END then entry_set phys flags else entry_clear)"
    if "s \<in> ?S" for s i
  proof -
    have "dir st' s ?d = entry_set a f"
      using dir1 [OF that] a(6) [OF that] by (simp add: dir_def st'_def put_entry_def)
    then show ?thesis
      using taba get by (simp add: page_def st'_def put_entry_def)
  qed
  ultimately show ?thesis
    by blast
qed

end

end
