(* ===== verification/Address_Ops.thy ===== *)
theory Address_Ops
  imports Prelude
begin

text \<open>
  \<^verbatim>\<open>Util::Address\<close> (src/src/lib/util/base/Address.cpp): address arithmetic and the block
  operations on raw memory that every other component uses. Memory is a map from 32-bit
  addresses to bytes. The word-at-a-time loops of \<open>setRange\<close> and \<open>copyRange\<close> are proved
  equal to their byte-wise meaning.
\<close>

type_synonym mem = "u32 \<Rightarrow> u8"

section \<open>Address arithmetic\<close>

definition alignUp :: "u32 \<Rightarrow> u32 \<Rightarrow> u32" where
  "alignUp address alignment =
     (if alignment = 0 then address
      else let alignment = alignment - 1
           in (address + alignment) AND NOT alignment)"

section \<open>Memory accesses\<close>

definition getByte :: "mem \<Rightarrow> u32 \<Rightarrow> u32 \<Rightarrow> u8" where
  "getByte m address offset = m (address + offset)"

definition getShort :: "mem \<Rightarrow> u32 \<Rightarrow> u32 \<Rightarrow> u16" where
  "getShort m address offset =
     ucast (m (address + offset)) OR push_bit 8 (ucast (m (address + offset + 1)))"

definition getInt :: "mem \<Rightarrow> u32 \<Rightarrow> u32 \<Rightarrow> u32" where
  "getInt m address offset =
     ucast (getShort m address offset) OR push_bit 16 (ucast (getShort m address (offset + 2)))"

definition setByte :: "mem \<Rightarrow> u32 \<Rightarrow> u8 \<Rightarrow> u32 \<Rightarrow> mem" where
  "setByte m address value offset = m(address + offset := value)"

definition setShort :: "mem \<Rightarrow> u32 \<Rightarrow> u16 \<Rightarrow> u32 \<Rightarrow> mem" where
  "setShort m address value offset =
     m(address + offset := ucast value, address + offset + 1 := ucast (drop_bit 8 value))"

definition setInt :: "mem \<Rightarrow> u32 \<Rightarrow> u32 \<Rightarrow> u32 \<Rightarrow> mem" where
  "setInt m address value offset =
     setShort (setShort m address (ucast value) offset)
       address (ucast (drop_bit 16 value)) (offset + 2)"

text \<open>A 64-bit store or load through a \<^verbatim>\<open>uint64_t*\<close>, little endian.\<close>

fun store_le :: "mem \<Rightarrow> u32 \<Rightarrow> u8 list \<Rightarrow> mem" where
  "store_le m t [] = m"
| "store_le m t (b # bs) = store_le (m(t := b)) (t + 1) bs"

definition bytes_of_long :: "u64 \<Rightarrow> u8 list" where
  "bytes_of_long v = map (\<lambda>i. ucast (drop_bit (8 * i) v)) [0..<8]"

definition load_long :: "mem \<Rightarrow> u32 \<Rightarrow> u64" where
  "load_long m s = foldr (\<lambda>i acc. ucast (m (s + of_nat i)) OR push_bit 8 acc) [0..<8] 0"


section \<open>Filling and copying ranges\<close>

text \<open>
  \<^verbatim>\<open>while (n-- > 0) *target++ = value\<close> and \<^verbatim>\<open>while (n-- > 0) *target++ = *source++\<close>, over
  bytes and over 64-bit words.
\<close>

fun fill_bytes :: "mem \<Rightarrow> u32 \<Rightarrow> u8 \<Rightarrow> nat \<Rightarrow> mem" where
  "fill_bytes m target value 0 = m"
| "fill_bytes m target value (Suc n) = fill_bytes (m(target := value)) (target + 1) value n"

fun fill_longs :: "mem \<Rightarrow> u32 \<Rightarrow> u64 \<Rightarrow> nat \<Rightarrow> mem" where
  "fill_longs m target longValue 0 = m"
| "fill_longs m target longValue (Suc n) =
     fill_longs (store_le m target (bytes_of_long longValue)) (target + 8) longValue n"

fun copy_bytes :: "mem \<Rightarrow> u32 \<Rightarrow> u32 \<Rightarrow> nat \<Rightarrow> mem" where
  "copy_bytes m target source 0 = m"
| "copy_bytes m target source (Suc n) =
     copy_bytes (m(target := m source)) (target + 1) (source + 1) n"

fun copy_longs :: "mem \<Rightarrow> u32 \<Rightarrow> u32 \<Rightarrow> nat \<Rightarrow> mem" where
  "copy_longs m target source 0 = m"
| "copy_longs m target source (Suc n) =
     copy_longs (store_le m target (bytes_of_long (load_long m source))) (target + 8) (source + 8) n"

definition spread :: "u8 \<Rightarrow> u64" where
  "spread value =
     (let longValue = ucast value :: u64
      in longValue OR push_bit 8 longValue OR push_bit 16 longValue OR push_bit 24 longValue
         OR push_bit 32 longValue OR push_bit 40 longValue OR push_bit 48 longValue
         OR push_bit 56 longValue)"

definition setRange :: "mem \<Rightarrow> u32 \<Rightarrow> u8 \<Rightarrow> u32 \<Rightarrow> mem" where
  "setRange m address value len =
     (if len < 16 then fill_bytes m address value (unat len)
      else let alignDifference = address mod 8;
               remainingBlocks = (len - alignDifference) div 8;
               target = address + alignDifference;
               longValue = spread value;
               remainingBytes = (len - alignDifference) mod 8;
               restTarget = target + remainingBlocks * 8;
               m1 = fill_bytes m address value (unat alignDifference);
               m2 = fill_longs m1 target longValue (unat remainingBlocks)
           in fill_bytes m2 restTarget value (unat remainingBytes))"

definition copyRange :: "mem \<Rightarrow> u32 \<Rightarrow> u32 \<Rightarrow> u32 \<Rightarrow> mem" where
  "copyRange m address sourceAddress len =
     (if len < 16 then copy_bytes m address sourceAddress (unat len)
      else let alignDifference = address mod 8;
               remainingBlocks = (len - alignDifference) div 8;
               source = sourceAddress + alignDifference;
               target = address + alignDifference;
               remainingBytes = (len - alignDifference) mod 8;
               restSource = source + remainingBlocks * 8;
               restTarget = target + remainingBlocks * 8;
               m1 = copy_bytes m address sourceAddress (unat alignDifference);
               m2 = copy_longs m1 target source (unat remainingBlocks)
           in copy_bytes m2 restTarget restSource (unat remainingBytes))"

section \<open>Byte-wise meaning of the fill loops\<close>

lemma fill_bytes_eq:
  "fill_bytes m t v n = (\<lambda>x. if unat (x - t) < n then v else m x)"
proof (induction n arbitrary: m t)
  case (Suc n)
  show ?case
    by (rule ext) (auto simp: Suc window_step [of _ t n])
qed simp

lemma fill_bytes_append:
  "fill_bytes (fill_bytes m t v a) (t + of_nat a) v b = fill_bytes m t v (a + b)"
proof (induction a arbitrary: m t)
  case (Suc a)
  have "t + of_nat (Suc a) = (t + 1) + of_nat a" by simp
  then show ?case by (simp only: fill_bytes.simps add_Suc Suc)
qed simp

lemma store_le_replicate: "store_le m t (replicate n v) = fill_bytes m t v n"
  by (induction n arbitrary: m t) simp_all

lemma bit_spread:
  assumes "n < 8" and "i < 8"
  shows "bit (spread v) (8 * i + n) = bit v n"
proof -
  have beyond: "\<not> bit v k" if "8 \<le> k" for k
    using that by (auto dest: bit_imp_le_length)
  from \<open>i < 8\<close> consider "i = 0" | "i = 1" | "i = 2" | "i = 3" | "i = 4" | "i = 5" | "i = 6" | "i = 7"
    by linarith
  then show ?thesis
    using \<open>n < 8\<close>
    by cases (simp_all add: spread_def Let_def bit_or_iff bit_push_bit_iff bit_ucast_iff beyond)
qed

lemma bytes_of_spread: "bytes_of_long (spread v) = replicate 8 v"
proof -
  have "ucast (drop_bit (8 * i) (spread v)) = v" if "i < 8" for i
    using that by (intro bit_word_eqI) (simp add: bit_ucast_iff bit_drop_bit_eq bit_spread)
  then show ?thesis
    by (auto intro!: nth_equalityI simp: bytes_of_long_def)
qed

lemma fill_longs_spread: "fill_longs m t (spread v) n = fill_bytes m t v (8 * n)"
proof (induction n arbitrary: m t)
  case (Suc n)
  show ?case
    using fill_bytes_append [of m t v 8 "8 * n"]
    by (simp add: Suc bytes_of_spread store_le_replicate del: fill_bytes.simps)
qed simp

lemma range_parts:
  fixes address len :: u32
  assumes "16 \<le> len"
  defines "d \<equiv> address mod 8"
  shows "unat d + (8 * unat ((len - d) div 8) + unat ((len - d) mod 8)) = unat len"
    and "of_nat (8 * unat ((len - d) div 8)) = (len - d) div 8 * 8"
proof -
  have d: "unat d < 8" by (simp add: d_def unat_mod)
  have "unat (len - d) = unat len - unat d"
    using assms(1) d by (intro unat_sub) (simp add: word_le_nat_alt)
  then show "unat d + (8 * unat ((len - d) div 8) + unat ((len - d) mod 8)) = unat len"
    using assms(1) d by (simp add: unat_div unat_mod word_le_nat_alt)
  show "of_nat (8 * unat ((len - d) div 8)) = (len - d) div 8 * 8"
    by simp
qed

lemma setRange_bytes: "setRange m address v len = fill_bytes m address v (unat len)"
proof (cases "len < 16")
  case False
  let ?d = "address mod 8"
  let ?b = "(len - ?d) div 8" and ?r = "(len - ?d) mod 8"
  have "setRange m address v len =
      fill_bytes m address v (unat ?d + (8 * unat ?b + unat ?r))"
    using False range_parts(2) [of len address]
      fill_bytes_append [of m address v "unat ?d" "8 * unat ?b"]
      fill_bytes_append [of m address v "unat ?d + 8 * unat ?b" "unat ?r"]
    by (simp add: setRange_def Let_def fill_longs_spread ac_simps)
  with False range_parts(1) [of len address] show ?thesis by simp
qed (simp add: setRange_def)

text \<open>
  \<open>setRange\<close>, which fills the unaligned head byte by byte, the middle in 64-bit words and
  the tail byte by byte, has exactly the effect of a byte-wise fill: it writes \<open>value\<close> to the
  \<open>length\<close> addresses that start at \<open>address\<close> (also when the range wraps around the end of the
  address space) and changes no other byte.
\<close>

theorem setRange_meaning:
  "setRange m address v len = (\<lambda>x. if x - address < len then v else m x)"
  by (simp add: setRange_bytes fill_bytes_eq word_less_nat_alt)

section \<open>Byte-wise meaning of the copy loops\<close>

lemma disjoint_window:
  fixes s t w :: u32
  assumes "n \<le> unat (t - s)" and "n \<le> unat (s - t)" and "unat w < n"
  shows "n \<le> unat (s + w - t)"
proof -
  have "s + w - t = (s - t) + w" by simp
  moreover have "unat (s - t) + unat w < 2 ^ 32"
    using assms unat_complement [of t s] by simp
  ultimately have "unat (s + w - t) = unat (s - t) + unat w"
    by (simp only: unat_plus_if') simp
  with assms show ?thesis by simp
qed

definition copied :: "mem \<Rightarrow> u32 \<Rightarrow> u32 \<Rightarrow> nat \<Rightarrow> mem" where
  "copied m t s n = (\<lambda>x. if unat (x - t) < n then m (s + (x - t)) else m x)"

lemma copied_0 [simp]: "copied m t s 0 = m"
  by (simp add: copied_def)

lemma copied_append:
  assumes "a + b \<le> unat (t - s)" and "a + b \<le> unat (s - t)"
  shows "copied (copied m t s a) (t + of_nat a) (s + of_nat a) b = copied m t s (a + b)"
proof
  fix x
  have src: "s + of_nat a + (x - (t + of_nat a)) = s + (x - t)" by simp
  show "copied (copied m t s a) (t + of_nat a) (s + of_nat a) b x = copied m t s (a + b) x"
  proof (cases "unat (x - (t + of_nat a)) < b")
    case True
    then have win: "unat (x - t) < a + b" using window_split [of x t a b] by simp
    then have "a + b \<le> unat (s + (x - t) - t)" by (intro disjoint_window assms)
    with True win show ?thesis by (simp add: copied_def src)
  next
    case False
    then show ?thesis using window_split [of x t a b] by (simp add: copied_def)
  qed
qed

lemma store_le_eq:
  "length bs \<le> 2 ^ 32 \<Longrightarrow>
   store_le m t bs = (\<lambda>x. if unat (x - t) < length bs then bs ! unat (x - t) else m x)"
proof (induction bs arbitrary: m t)
  case (Cons b bs)
  show ?case
  proof
    fix x
    have wrap: "\<not> unat (- 1 :: u32) < length bs"
      using Cons.prems by (simp add: unsigned_minus_1_eq_mask mask_eq_exp_minus_1)
    show "store_le m t (b # bs) x =
        (if unat (x - t) < length (b # bs) then (b # bs) ! unat (x - t) else m x)"
    proof (cases "x = t")
      case False
      then have "unat (x - (t + 1)) = unat (x - t) - 1" and "0 < unat (x - t)"
        by (simp_all add: diff_diff_eq [symmetric] unat_minus_one unat_gt_0)
      with False Cons show ?thesis by (auto simp: nth_Cons')
    qed (use Cons wrap in simp)
  qed
qed simp

lemma bytes_of_load_long: "bytes_of_long (load_long m s) = map (\<lambda>i. m (s + of_nat i)) [0..<8]"
proof -
  have "ucast (drop_bit (8 * i) (load_long m s)) = m (s + of_nat i)" if "i < 8" for i
  proof (rule bit_word_eqI)
    fix n assume "n < LENGTH(8)"
    have beyond: "\<not> bit v k" if "8 \<le> k" for k and v :: u8
      using that by (auto dest: bit_imp_le_length)
    from that consider "i = 0" | "i = 1" | "i = 2" | "i = 3" | "i = 4" | "i = 5" | "i = 6" | "i = 7"
      by linarith
    then show "bit (ucast (drop_bit (8 * i) (load_long m s)) :: u8) n = bit (m (s + of_nat i)) n"
      using \<open>n < LENGTH(8)\<close>
      by cases (simp_all add: load_long_def upt_rec bit_or_iff bit_push_bit_iff bit_ucast_iff bit_drop_bit_eq beyond)
  qed
  then show ?thesis
    by (auto intro!: nth_equalityI simp: bytes_of_long_def)
qed


lemma copy_bytes_eq:
  "n \<le> unat (t - s) \<Longrightarrow> n \<le> unat (s - t) \<Longrightarrow> copy_bytes m t s n = copied m t s n"
proof (induction n arbitrary: m t s)
  case (Suc n)
  have "m(t := m s) = copied m t s 1"
    by (auto simp: copied_def fun_eq_iff unat_eq_0)
  then have "copy_bytes m t s (Suc n) = copied (copied m t s 1) (t + 1) (s + 1) n"
    using Suc by simp
  also have "\<dots> = copied m t s (Suc n)"
    using copied_append [of 1 n t s m] Suc.prems by simp
  finally show ?case .
qed simp

lemma copy_longs_eq:
  "8 * n \<le> unat (t - s) \<Longrightarrow> 8 * n \<le> unat (s - t) \<Longrightarrow> copy_longs m t s n = copied m t s (8 * n)"
proof (induction n arbitrary: m t s)
  case (Suc n)
  have "store_le m t (bytes_of_long (load_long m s)) = copied m t s 8"
    by (auto simp: store_le_eq bytes_of_load_long copied_def fun_eq_iff)
  then have "copy_longs m t s (Suc n) = copied (copied m t s 8) (t + 8) (s + 8) (8 * n)"
    using Suc by simp
  also have "\<dots> = copied m t s (8 * Suc n)"
    using copied_append [of 8 "8 * n" t s m] Suc.prems by simp
  finally show ?case .
qed simp

text \<open>
  C10. For ranges that do not overlap, \<open>copyRange\<close> (bytes, then 64-bit words, then bytes) is a
  byte-wise copy: every byte of the target range receives the byte at the same offset of the
  source range as it was before the call, and no byte outside the target range changes.
\<close>

theorem copyRange_meaning:
  assumes "len \<le> address - source" and "len \<le> source - address"
  shows "copyRange m address source len =
    (\<lambda>x. if x - address < len then m (source + (x - address)) else m x)"
proof -
  have le: "unat len \<le> unat (address - source)" "unat len \<le> unat (source - address)"
    using assms by (simp_all add: word_le_nat_alt)
  have "copyRange m address source len = copied m address source (unat len)"
  proof (cases "len < 16")
    case False
    let ?d = "address mod 8"
    let ?b = "(len - ?d) div 8" and ?r = "(len - ?d) mod 8"
    have sum: "unat ?d + (8 * unat ?b + unat ?r) = unat len"
      using False range_parts(1) [of len address] by simp
    have "copyRange m address source len =
        copied m address source (unat ?d + (8 * unat ?b + unat ?r))"
      using False range_parts(2) [of len address] sum le
        copied_append [of "unat ?d" "8 * unat ?b" address source m]
        copied_append [of "unat ?d + 8 * unat ?b" "unat ?r" address source m]
      by (simp add: copyRange_def Let_def copy_bytes_eq copy_longs_eq ac_simps)
    with sum show ?thesis by simp
  qed (use le in \<open>simp add: copyRange_def copy_bytes_eq\<close>)
  then show ?thesis
    by (simp add: copied_def word_less_nat_alt)
qed

theorem copyRange_meaning_witness:
  "copyRange (\<lambda>a. ucast a) 0x2000 0x1003 21 0x2005 = 0x08
   \<and> copyRange (\<lambda>a. ucast a) 0x2000 0x1003 21 0x2015 = 0x15"
  using copyRange_meaning [of 21 "0x2000" "0x1003" "\<lambda>a. ucast a"] by simp

section \<open>Alignment\<close>

lemma unat_alignUp:
  assumes "k < 32" and "unat a + 2 ^ k \<le> 2 ^ 32"
  shows "unat (alignUp a (2 ^ k)) = (unat a + (2 ^ k - 1)) div 2 ^ k * 2 ^ k"
proof -
  have nz: "(2 ^ k :: u32) \<noteq> 0" using assms(1) by simp
  have m: "(2 ^ k :: u32) - 1 = mask k" by (simp add: mask_eq_exp_minus_1)
  have "unat (mask k :: u32) = 2 ^ k - 1"
    using nz assms(1) unat_minus_one [of "2 ^ k :: u32"] by (simp add: m)
  then have "unat (a + mask k) = unat a + (2 ^ k - 1)"
    using assms(2) by (simp add: unat_plus_if')
  then show ?thesis
    using nz by (simp add: alignUp_def Let_def m unat_and_not_mask)
qed

lemma getShort_setShort: "getShort (setShort m a v off) a off = v"
  by (rule bit_word_eqI) (auto simp: getShort_def setShort_def bit_simps)

lemma getInt_setInt: "getInt (setInt m a v off) a off = v"
  by (rule bit_word_eqI) (auto simp: getInt_def setInt_def getShort_def setShort_def bit_simps)


section \<open>Zero-terminated strings\<close>

text \<open>
  The scanning loops stop at a zero byte only, so they are partial: \<open>None\<close> is a scan that runs
  for ever because no zero byte follows.
\<close>

partial_function (option) stringLength_from :: "mem \<Rightarrow> u32 \<Rightarrow> u32 \<Rightarrow> u32 option" where
  "stringLength_from m pointer i =
     (if m (pointer + i) \<noteq> 0 then stringLength_from m pointer (i + 1) else Some i)"

definition stringLength :: "mem \<Rightarrow> u32 \<Rightarrow> u32 option" where
  "stringLength m address = stringLength_from m address 0"

partial_function (option) copyString_from :: "mem \<Rightarrow> u32 \<Rightarrow> u32 \<Rightarrow> u32 \<Rightarrow> mem option" where
  "copyString_from m target source i =
     (if m (source + i) \<noteq> 0
      then copyString_from (m(target + i := m (source + i))) target source (i + 1)
      else Some (m(target + i := 0)))"

definition copyString :: "mem \<Rightarrow> u32 \<Rightarrow> u32 \<Rightarrow> mem option" where
  "copyString m address sourceAddress = copyString_from m address sourceAddress 0"

function compareRange_from :: "mem \<Rightarrow> u32 \<Rightarrow> u32 \<Rightarrow> u32 \<Rightarrow> u32 \<Rightarrow> int" where
  "compareRange_from m pointer other len i =
     (if i < len \<and> m (pointer + i) = m (other + i)
      then compareRange_from m pointer other len (i + 1)
      else if i = len then 0 else uint (m (pointer + i)) - uint (m (other + i)))"
  by pat_completeness auto
termination
  by (relation "measure (\<lambda>(m, p, q, len, i). unat len - unat i)")
    (auto simp: word_nat word_less_nat_alt)

definition compareRange :: "mem \<Rightarrow> u32 \<Rightarrow> u32 \<Rightarrow> u32 \<Rightarrow> int" where
  "compareRange m address otherAddress len = compareRange_from m address otherAddress len 0"

partial_function (option) compareString_from :: "mem \<Rightarrow> u32 \<Rightarrow> u32 \<Rightarrow> u32 \<Rightarrow> int option" where
  "compareString_from m pointer other i =
     (if m (pointer + i) \<noteq> 0 \<and> m (other + i) \<noteq> 0 \<and> m (pointer + i) = m (other + i)
      then compareString_from m pointer other (i + 1)
      else Some (uint (m (pointer + i)) - uint (m (other + i))))"

definition compareString :: "mem \<Rightarrow> u32 \<Rightarrow> u32 \<Rightarrow> int option" where
  "compareString m address otherAddress = compareString_from m address otherAddress 0"

partial_function (option) searchCharacter_from ::
    "mem \<Rightarrow> u32 \<Rightarrow> u8 \<Rightarrow> u32 \<Rightarrow> u32 option" where
  "searchCharacter_from m pointer c i =
     (if m (pointer + i) \<noteq> 0 \<and> m (pointer + i) \<noteq> c
      then searchCharacter_from m pointer c (i + 1)
      else Some (if m (pointer + i) = 0 then 0 else pointer + i))"

definition searchCharacter :: "mem \<Rightarrow> u32 \<Rightarrow> u8 \<Rightarrow> u32 option" where
  "searchCharacter m address c = searchCharacter_from m address c 0"

text \<open>\<open>cstr m p bs\<close>: the bytes \<open>bs\<close>, none of them zero, and a zero byte are stored at \<open>p\<close>.\<close>

primrec cstr :: "mem \<Rightarrow> u32 \<Rightarrow> u8 list \<Rightarrow> bool" where
  "cstr m p [] \<longleftrightarrow> m p = 0"
| "cstr m p (b # bs) \<longleftrightarrow> b \<noteq> 0 \<and> m p = b \<and> cstr m (p + 1) bs"

lemma stringLength_from_cstr:
  "cstr m (p + i) bs \<Longrightarrow> stringLength_from m p i = Some (i + of_nat (length bs))"
proof (induction bs arbitrary: i)
  case (Cons b bs)
  then have "cstr m (p + (i + 1)) bs" by (simp add: add.assoc)
  with Cons show ?case
    by (subst stringLength_from.simps) (simp add: add.assoc)
qed (simp add: stringLength_from.simps)

lemma stringLength_cstr: "cstr m p bs \<Longrightarrow> stringLength m p = Some (of_nat (length bs))"
  using stringLength_from_cstr [of m p 0 bs] by (simp add: stringLength_def)

lemma compareString_from_cstr:
  "cstr m (p + i) bs \<Longrightarrow> cstr m (q + i) cs \<Longrightarrow>
   \<exists>d. compareString_from m p q i = Some d \<and> (d = 0 \<longleftrightarrow> bs = cs)"
proof (induction bs arbitrary: i cs)
  case Nil
  then show ?case
    by (cases cs) (auto simp: compareString_from.simps [of m p q i] unsigned_eq_0_iff dest: unsigned_word_eqI)
next
  case (Cons b bs)
  show ?case
  proof (cases cs)
    case (Cons c cs')
    show ?thesis
    proof (cases "b = c")
      case True
      with Cons.prems Cons have "compareString_from m p q i = compareString_from m p q (i + 1)"
        by (subst compareString_from.simps) simp
      moreover have "cstr m (p + (i + 1)) bs" "cstr m (q + (i + 1)) cs'"
        using Cons.prems Cons by (simp_all add: add.assoc)
      ultimately show ?thesis
        using Cons.IH [of "i + 1" cs'] True Cons by simp
    qed (use Cons.prems Cons in \<open>auto simp: compareString_from.simps [of m p q i] unsigned_eq_0_iff dest: unsigned_word_eqI\<close>)
  qed (use Cons.prems in \<open>auto simp: compareString_from.simps [of m p q i] unsigned_eq_0_iff dest: unsigned_word_eqI\<close>)
qed

text \<open>
  On two zero-terminated strings \<open>compareString\<close> returns, and the result is \<open>0\<close> exactly
  when the strings are equal.
\<close>

theorem compareString_zero_iff:
  assumes "cstr m p bs" and "cstr m q cs"
  shows "\<exists>d. compareString m p q = Some d \<and> (d = 0 \<longleftrightarrow> bs = cs)"
  using compareString_from_cstr [of m p 0 bs q cs] assms by (simp add: compareString_def)

lemma cstr_ab: "cstr ((\<lambda>_. 0)(0x100 := 97, 0x101 := 98)) 0x100 [97, 98]"
  "cstr ((\<lambda>_. 0)(0x100 := 97, 0x101 := 98)) 0x101 [98]"
  by simp_all

theorem compareString_zero_iff_witness:
  "\<exists>d. compareString ((\<lambda>_. 0)(0x100 := 97, 0x101 := 98)) 0x100 0x101 = Some d \<and> d \<noteq> 0"
  using compareString_zero_iff [OF cstr_ab] by auto

end
