(* ===== verification/Atomics.thy ===== *)
theory Atomics
  imports Prelude
begin

text \<open>
  \<^verbatim>\<open>Util::Async\<close>: the atomic read-modify-write operations (Atomic.cpp), the locks built on
  them (Spinlock.cpp, ReentrantSpinlock.cpp) and the id generator. Each operation of
  \<^verbatim>\<open>Atomic<T>\<close> is one \<^verbatim>\<open>lock\<close>-prefixed instruction, so it is a function from the memory word
  to its result and the new word. Interleavings of threads are step relations over these
  operations.
\<close>

section \<open>Atomic words\<close>

definition fetchAndAdd :: "'a::len word \<Rightarrow> 'a word \<Rightarrow> 'a word \<times> 'a word" where
  "fetchAndAdd v addend = (v, v + addend)"

definition fetchAndSub :: "'a::len word \<Rightarrow> 'a word \<Rightarrow> 'a word \<times> 'a word" where
  "fetchAndSub v subtrahend = fetchAndAdd v (subtrahend * (- 1))"

definition fetchAndInc :: "'a::len word \<Rightarrow> 'a word \<times> 'a word" where
  "fetchAndInc v = fetchAndAdd v 1"

definition fetchAndDec :: "'a::len word \<Rightarrow> 'a word \<times> 'a word" where
  "fetchAndDec v = fetchAndAdd v (- 1)"

definition compareAndExchange :: "'a::len word \<Rightarrow> 'a word \<Rightarrow> 'a word \<Rightarrow> 'a word \<times> 'a word" where
  "compareAndExchange v oldValue newValue = (v, if v = oldValue then newValue else v)"

definition compareAndSet :: "'a::len word \<Rightarrow> 'a word \<Rightarrow> 'a word \<Rightarrow> bool \<times> 'a word" where
  "compareAndSet v expectedValue newValue =
     (let (r, v') = compareAndExchange v expectedValue newValue in (r = expectedValue, v'))"

text \<open>
  The bit instructions address bit \<open>index\<close> of the operand; every caller passes an index below
  the operand's width.
\<close>

definition bitTest :: "'a::len word \<Rightarrow> 'a word \<Rightarrow> bool" where
  "bitTest v index = bit v (unat index)"

definition bitSet :: "'a::len word \<Rightarrow> 'a word \<Rightarrow> 'a word" where
  "bitSet v index = set_bit (unat index) v"

definition bitReset :: "'a::len word \<Rightarrow> 'a word \<Rightarrow> 'a word" where
  "bitReset v index = unset_bit (unat index) v"

definition bitTestAndSet :: "'a::len word \<Rightarrow> 'a word \<Rightarrow> bool \<times> 'a word" where
  "bitTestAndSet v index = (bit v (unat index), set_bit (unat index) v)"

definition bitTestAndReset :: "'a::len word \<Rightarrow> 'a word \<Rightarrow> bool \<times> 'a word" where
  "bitTestAndReset v index = (bit v (unat index), unset_bit (unat index) v)"

text \<open>
  \<open>getAndSet\<close> reads the word and retries a compare-and-set until it succeeds. The list
  \<open>env\<close> gives the values other threads leave in the word between the read and the
  compare-and-set, one per round; when it is used up the thread runs undisturbed. The
  function returns the old value, the final word and the rounds of \<open>env\<close> that are left.
\<close>

fun getAndSet :: "'a::len word list \<Rightarrow> 'a word \<Rightarrow> 'a word \<Rightarrow> 'a word \<times> 'a word \<times> 'a word list" where
  "getAndSet [] v newValue = (v, newValue, [])"
| "getAndSet (e # env) v newValue =
     (let oldValue = v; (ok, v') = compareAndSet e oldValue newValue
      in if ok then (oldValue, v', env) else getAndSet env v' newValue)"

lemmas atomic_defs = fetchAndAdd_def fetchAndSub_def fetchAndInc_def fetchAndDec_def
  compareAndExchange_def compareAndSet_def bitTest_def bitSet_def bitReset_def
  bitTestAndSet_def bitTestAndReset_def

lemma compareAndSet_simps [simp]:
  "compareAndSet v e n = (v = e, if v = e then n else v)"
  by (simp add: atomic_defs)

lemma getAndSet_stores: "getAndSet env v n = (old, v', rest) \<Longrightarrow> v' = n"
  by (induction env v n rule: getAndSet.induct) (auto simp: Let_def split: if_splits)

section \<open>Locks\<close>

record Spinlock =
  lockVar :: u32

definition SPINLOCK_UNLOCK :: u32 where "SPINLOCK_UNLOCK = UINT32_MAX"
definition SPINLOCK_LOCK :: u32 where "SPINLOCK_LOCK = 1"

definition Spinlock_new :: Spinlock where
  "Spinlock_new = \<lparr>lockVar = SPINLOCK_UNLOCK\<rparr>"

definition tryAcquire :: "Spinlock \<Rightarrow> bool \<times> Spinlock" where
  "tryAcquire l =
     (let (ok, v) = compareAndSet (lockVar l) SPINLOCK_UNLOCK SPINLOCK_LOCK
      in (ok, l\<lparr>lockVar := v\<rparr>))"

definition release :: "Spinlock \<Rightarrow> Spinlock" where
  "release l = l\<lparr>lockVar := SPINLOCK_UNLOCK\<rparr>"

definition isLocked :: "Spinlock \<Rightarrow> bool" where
  "isLocked l \<longleftrightarrow> lockVar l \<noteq> SPINLOCK_UNLOCK"

record ReentrantSpinlock = Spinlock +
  depth :: u32

definition ReentrantSpinlock_new :: ReentrantSpinlock where
  "ReentrantSpinlock_new = \<lparr>lockVar = SPINLOCK_UNLOCK, depth = 0\<rparr>"

text \<open>
  \<open>threadId\<close> is the id of the calling thread, \<open>0\<close> while the scheduler is not initialized.
  The second compare-and-set runs only when the first fails, as \<^verbatim>\<open>||\<close> does.
\<close>

definition tryAcquire_re :: "u32 \<Rightarrow> ReentrantSpinlock \<Rightarrow> bool \<times> ReentrantSpinlock" where
  "tryAcquire_re threadId l =
     (let (ok1, v1) = compareAndSet (lockVar l) SPINLOCK_UNLOCK threadId;
          (ok, v) = (if ok1 then (True, v1) else compareAndSet v1 threadId threadId);
          l = l\<lparr>lockVar := v\<rparr>
      in (ok, if ok then l\<lparr>depth := depth l + 1\<rparr> else l))"

definition release_re :: "u32 \<Rightarrow> ReentrantSpinlock \<Rightarrow> ReentrantSpinlock" where
  "release_re threadId l =
     (let l = (if lockVar l = threadId then l\<lparr>depth := depth l - 1\<rparr> else l)
      in if depth l = 0
         then l\<lparr>lockVar := snd (compareAndSet (lockVar l) threadId SPINLOCK_UNLOCK)\<rparr>
         else l)"

section \<open>The lock interface and mutual exclusion\<close>

text \<open>
  Threads that use one lock: a thread outside its critical section may begin to acquire the
  lock, spins with \<open>tryAcquire\<close> (\<^verbatim>\<open>while (!tryAcquire()) Thread::yield()\<close>) until one try
  succeeds, and releases the lock when it leaves. Any thread may move next.
\<close>

datatype phase = Outside | Spinning | Inside

inductive lock_step ::
    "('l \<Rightarrow> bool \<times> 'l) \<Rightarrow> ('l \<Rightarrow> 'l) \<Rightarrow> 'l \<times> (nat \<Rightarrow> phase) \<Rightarrow> 'l \<times> (nat \<Rightarrow> phase) \<Rightarrow> bool"
  for acq :: "'l \<Rightarrow> bool \<times> 'l" and rel :: "'l \<Rightarrow> 'l" where
  begin_acquire: "p i = Outside \<Longrightarrow> lock_step acq rel (l, p) (l, p(i := Spinning))"
| acquired: "p i = Spinning \<Longrightarrow> acq l = (True, l') \<Longrightarrow> lock_step acq rel (l, p) (l', p(i := Inside))"
| retry: "p i = Spinning \<Longrightarrow> acq l = (False, l') \<Longrightarrow> lock_step acq rel (l, p) (l', p)"
| released: "p i = Inside \<Longrightarrow> lock_step acq rel (l, p) (rel l, p(i := Outside))"

definition lock_reachable ::
    "('l \<Rightarrow> bool \<times> 'l) \<Rightarrow> ('l \<Rightarrow> 'l) \<Rightarrow> 'l \<Rightarrow> 'l \<times> (nat \<Rightarrow> phase) \<Rightarrow> bool" where
  "lock_reachable acq rel l0 s \<longleftrightarrow> (lock_step acq rel)\<^sup>*\<^sup>* (l0, \<lambda>_. Outside) s"

locale exclusive_lock =
  fixes acq :: "'l \<Rightarrow> bool \<times> 'l"
    and rel :: "'l \<Rightarrow> 'l"
    and held :: "'l \<Rightarrow> bool"
  assumes acq_free: "\<not> held l \<Longrightarrow> fst (acq l) \<and> held (snd (acq l))"
    and acq_held: "held l \<Longrightarrow> acq l = (False, l)"
    and rel_free: "\<not> held (rel l)"
begin

definition owners_ok :: "'l \<times> (nat \<Rightarrow> phase) \<Rightarrow> bool" where
  "owners_ok s \<longleftrightarrow>
     (if held (fst s) then \<exists>i. \<forall>j. snd s j = Inside \<longleftrightarrow> j = i else \<forall>j. snd s j \<noteq> Inside)"

lemma owners_ok_step:
  assumes "lock_step acq rel s t" and "owners_ok s"
  shows "owners_ok t"
  using assms
proof (induction rule: lock_step.induct)
  case (begin_acquire p i l)
  then have "(p(i := Spinning)) j = Inside \<longleftrightarrow> p j = Inside" for j
    by simp
  with begin_acquire show ?case
    unfolding owners_ok_def fst_conv snd_conv by simp
next
  case (acquired p i l l')
  then have "\<not> held l" and "held l'"
    using acq_held [of l] acq_free [of l] by auto
  with acquired show ?case
    by (auto simp: owners_ok_def intro!: exI [of _ i])
next
  case (retry p i l l')
  then show ?case
    using acq_free [of l] acq_held [of l] by (cases "held l") auto
next
  case (released p i l)
  then show ?case
    using rel_free [of l] by (auto simp: owners_ok_def split: if_splits)
qed

lemma reachable_owners_ok:
  assumes "\<not> held l0" and "lock_reachable acq rel l0 s"
  shows "owners_ok s"
  using assms(2) unfolding lock_reachable_def
proof (induction rule: rtranclp_induct)
  case base
  then show ?case
    by (simp add: owners_ok_def assms(1))
qed (rule owners_ok_step)

lemma mutual_exclusion:
  assumes "\<not> held l0" and "lock_reachable acq rel l0 (l, p)"
    and "p i = Inside" and "p j = Inside"
  shows "i = j"
  using reachable_owners_ok [OF assms(1,2)] assms(3,4)
  by (auto simp: owners_ok_def split: if_splits)

lemma free_when_nobody_inside:
  assumes "\<not> held l0" and "lock_reachable acq rel l0 (l, p)" and "\<forall>j. p j \<noteq> Inside"
  shows "fst (acq l)"
  using reachable_owners_ok [OF assms(1,2)] assms(3) acq_free [of l]
  by (auto simp: owners_ok_def split: if_splits)

end

lemma SPINLOCK_distinct [simp]: "SPINLOCK_LOCK \<noteq> SPINLOCK_UNLOCK"
  by (simp add: SPINLOCK_LOCK_def SPINLOCK_UNLOCK_def)

interpretation spin: exclusive_lock tryAcquire release isLocked
  by unfold_locales (auto simp: tryAcquire_def release_def isLocked_def)

text \<open>
  C8. Mutual exclusion of \<open>Spinlock\<close>: in every interleaving of any number of threads that
  acquire and release one spin lock, no two threads are inside the section it protects.
\<close>

theorem spinlock_mutual_exclusion:
  assumes "lock_reachable tryAcquire release Spinlock_new (l, p)"
    and "p i = Inside" and "p j = Inside"
  shows "i = j"
  using spin.mutual_exclusion [OF _ assms] by (simp add: isLocked_def Spinlock_new_def)

lemma spinlock_run:
  "lock_reachable tryAcquire release Spinlock_new
     (\<lparr>lockVar = SPINLOCK_LOCK\<rparr>, (\<lambda>_. Outside)(7 := Inside))"
proof -
  have "lock_step tryAcquire release (Spinlock_new, \<lambda>_. Outside)
      (Spinlock_new, (\<lambda>_. Outside)(7 := Spinning))"
    by (rule lock_step.begin_acquire) simp
  moreover have "lock_step tryAcquire release (Spinlock_new, (\<lambda>_. Outside)(7 := Spinning))
      (\<lparr>lockVar = SPINLOCK_LOCK\<rparr>, ((\<lambda>_. Outside)(7 := Spinning))(7 := Inside))"
    by (rule lock_step.acquired) (simp_all add: tryAcquire_def Spinlock_new_def)
  ultimately show ?thesis
    unfolding lock_reachable_def fun_upd_upd by (rule converse_rtranclp_into_rtranclp [OF _ r_into_rtranclp])
qed

theorem spinlock_mutual_exclusion_witness:
  "\<exists>l p. lock_reachable tryAcquire release Spinlock_new (l, p) \<and> p 7 = Inside
     \<and> (\<forall>j. p j = Inside \<longrightarrow> 7 = j)"
proof (intro exI conjI allI impI)
  show "lock_reachable tryAcquire release Spinlock_new
      (\<lparr>lockVar = SPINLOCK_LOCK\<rparr>, (\<lambda>_. Outside)(7 := Inside))"
    by (rule spinlock_run)
  show "((\<lambda>_. Outside)(7 := Inside)) 7 = Inside"
    by simp
  show "7 = j" if "((\<lambda>_. Outside)(7 := Inside)) j = Inside" for j :: nat
    by (rule spinlock_mutual_exclusion [OF spinlock_run _ that]) simp
qed

section \<open>Nested acquisition\<close>

text \<open>
  Threads that share a \<open>ReentrantSpinlock\<close>: \<open>holds t\<close> counts the acquisitions of thread \<open>t\<close> it
  has not yet released. A thread releases only what it has acquired, and \<open>UINT32_MAX\<close>, the mark
  of the free lock, is no thread id. The depth counter has 32 bits.
\<close>

inductive re_step ::
    "ReentrantSpinlock \<times> (u32 \<Rightarrow> nat) \<Rightarrow> ReentrantSpinlock \<times> (u32 \<Rightarrow> nat) \<Rightarrow> bool" where
  re_acquire: "t \<noteq> SPINLOCK_UNLOCK \<Longrightarrow> Suc (holds t) < 2 ^ 32 \<Longrightarrow> tryAcquire_re t l = (True, l') \<Longrightarrow>
     re_step (l, holds) (l', holds(t := Suc (holds t)))"
| re_fail: "t \<noteq> SPINLOCK_UNLOCK \<Longrightarrow> tryAcquire_re t l = (False, l') \<Longrightarrow> re_step (l, holds) (l', holds)"
| re_release: "t \<noteq> SPINLOCK_UNLOCK \<Longrightarrow> 0 < holds t \<Longrightarrow>
     re_step (l, holds) (release_re t l, holds(t := holds t - 1))"

definition re_reachable :: "ReentrantSpinlock \<times> (u32 \<Rightarrow> nat) \<Rightarrow> bool" where
  "re_reachable s \<longleftrightarrow> re_step\<^sup>*\<^sup>* (ReentrantSpinlock_new, \<lambda>_. 0) s"

definition re_ok :: "ReentrantSpinlock \<Rightarrow> (u32 \<Rightarrow> nat) \<Rightarrow> bool" where
  "re_ok l holds \<longleftrightarrow>
     (if lockVar l = SPINLOCK_UNLOCK then depth l = 0 \<and> (\<forall>t. holds t = 0)
      else unat (depth l) = holds (lockVar l) \<and> 0 < holds (lockVar l) \<and>
        (\<forall>t. t \<noteq> lockVar l \<longrightarrow> holds t = 0))"

lemma re_ok_step: "re_step s s' \<Longrightarrow> re_ok (fst s) (snd s) \<Longrightarrow> re_ok (fst s') (snd s')"
proof (induction rule: re_step.induct)
  case (re_acquire t holds l l')
  have "unat (depth l + 1) = Suc (unat (depth l))" if "unat (depth l) = holds t"
    using that re_acquire(2) by (simp add: unat_inc)
  with re_acquire show ?case
    by (auto simp: re_ok_def tryAcquire_re_def split: if_splits)
next
  case (re_fail t l l' holds)
  then show ?case
    by (auto simp: tryAcquire_re_def split: if_splits)
next
  case (re_release t holds l)
  then have own: "lockVar l = t" and d: "unat (depth l) = holds t"
    by (cases "t = lockVar l"; auto simp: re_ok_def split: if_splits)+
  then have "unat (depth l - 1) = holds t - 1" and "depth l - 1 = 0 \<longleftrightarrow> holds t = 1"
    using re_release(2) by (simp_all add: unat_minus_one unat_eq_zero [symmetric]) unat_arith+
  then show ?case
    using re_release own d by (auto simp: re_ok_def release_re_def)
qed

lemma re_reachable_ok: "re_reachable (l, holds) \<Longrightarrow> re_ok l holds"
proof -
  have "re_ok (fst s) (snd s)" if "re_step\<^sup>*\<^sup>* (ReentrantSpinlock_new, \<lambda>_. 0) s" for s
    using that
  proof (induction rule: rtranclp_induct)
    case base
    then show ?case
      by (simp add: re_ok_def ReentrantSpinlock_new_def)
  qed (rule re_ok_step)
  then show "re_reachable (l, holds) \<Longrightarrow> re_ok l holds"
    by (force simp: re_reachable_def)
qed

end
