(* ===== verification/Bitmaps.thy ===== *)
theory Bitmaps
  imports Atomics
begin

text \<open>
  \<^verbatim>\<open>Util::Async::AtomicBitmap\<close> (AtomicBitmap.cpp): a bitmap of \<open>blocks\<close> bits in 32-bit words, the
  first block in the most significant bit. \<open>used\<close> abstracts a bitmap to the set of its set
  indices; \<open>findAndSet\<close> and \<open>findAndUnset\<close> are refined to "take the least free (used) index",
  and the interleaved run of any number of claimants is a step relation over the loop body.
\<close>

section \<open>Operations\<close>

record AtomicBitmap =
  blocks :: u32
  arraySize :: u32
  bitmap :: "u32 list"

abbreviation INVALID_INDEX :: u32 where "INVALID_INDEX \<equiv> 0xffffffff"

definition AtomicBitmap_new :: "u32 \<Rightarrow> AtomicBitmap" where
  "AtomicBitmap_new blockCount =
     (let n = (if blockCount mod 32 = 0 then blockCount div 32 else blockCount div 32 + 1)
      in \<lparr>blocks = blockCount, arraySize = n, bitmap = replicate (unat n) 0\<rparr>)"

definition bm_word :: "AtomicBitmap \<Rightarrow> u32 \<Rightarrow> u32" where
  "bm_word b i = bitmap b ! unat (i div 32)"

definition bm_store :: "AtomicBitmap \<Rightarrow> u32 \<Rightarrow> u32 \<Rightarrow> AtomicBitmap" where
  "bm_store b i w = b\<lparr>bitmap := (bitmap b)[unat (i div 32) := w]\<rparr>"

definition bm_set :: "AtomicBitmap \<Rightarrow> u32 \<Rightarrow> AtomicBitmap" where
  "bm_set b block =
     (if blocks b \<le> block then b
      else bm_store b block (bitSet (bm_word b block) (31 - block mod 32)))"

definition bm_unset :: "AtomicBitmap \<Rightarrow> u32 \<Rightarrow> AtomicBitmap" where
  "bm_unset b block =
     (if blocks b \<le> block then b
      else bm_store b block (bitReset (bm_word b block) (31 - block mod 32)))"

definition bm_check :: "AtomicBitmap \<Rightarrow> u32 \<Rightarrow> bool \<Rightarrow> bool" where
  "bm_check b block v =
     (if blocks b \<le> block then False
      else bitTest (bm_word b block) (31 - block mod 32) = v)"

text \<open>One round of the search loops: the atomic test-and-set (test-and-reset) of bit \<open>i\<close>.\<close>

definition probe_set :: "AtomicBitmap \<Rightarrow> u32 \<Rightarrow> bool \<times> AtomicBitmap" where
  "probe_set b i =
     (let (old, w) = bitTestAndSet (bm_word b i) (31 - i mod 32) in (old, bm_store b i w))"

definition probe_unset :: "AtomicBitmap \<Rightarrow> u32 \<Rightarrow> bool \<times> AtomicBitmap" where
  "probe_unset b i =
     (let (old, w) = bitTestAndReset (bm_word b i) (31 - i mod 32) in (old, bm_store b i w))"

lemma blocks_bm_store [simp]: "blocks (bm_store b i w) = blocks b"
  by (simp add: bm_store_def)

lemma blocks_probe [simp]:
  "blocks (snd (probe_set b i)) = blocks b" "blocks (snd (probe_unset b i)) = blocks b"
  by (simp_all add: probe_set_def probe_unset_def bitTestAndSet_def bitTestAndReset_def)

function findAndSet_from :: "AtomicBitmap \<Rightarrow> u32 \<Rightarrow> u32 \<times> AtomicBitmap" where
  "findAndSet_from b i =
     (if i < blocks b
      then if \<not> fst (probe_set b i) then (i, snd (probe_set b i))
           else findAndSet_from (snd (probe_set b i)) (i + 1)
      else (i, b))"
  by pat_completeness auto
termination
  by (relation "measure (\<lambda>(b, i). unat (blocks b) - unat i)")
    (auto simp: word_nat word_less_nat_alt)

function findAndUnset_from :: "AtomicBitmap \<Rightarrow> u32 \<Rightarrow> u32 \<times> AtomicBitmap" where
  "findAndUnset_from b i =
     (if i < blocks b
      then if fst (probe_unset b i) then (i, snd (probe_unset b i))
           else findAndUnset_from (snd (probe_unset b i)) (i + 1)
      else (i, b))"
  by pat_completeness auto
termination
  by (relation "measure (\<lambda>(b, i). unat (blocks b) - unat i)")
    (auto simp: word_nat word_less_nat_alt)

declare findAndSet_from.simps [simp del] findAndUnset_from.simps [simp del]

definition findAndSet :: "AtomicBitmap \<Rightarrow> u32 \<times> AtomicBitmap" where
  "findAndSet b =
     (let (i, b') = findAndSet_from b 0 in (if i = blocks b' then INVALID_INDEX else i, b'))"

definition findAndUnset :: "AtomicBitmap \<Rightarrow> u32 \<times> AtomicBitmap" where
  "findAndUnset b =
     (let (i, b') = findAndUnset_from b 0 in (if i = blocks b' then INVALID_INDEX else i, b'))"

section \<open>Abstraction to a set of indices\<close>

definition bm_wf :: "AtomicBitmap \<Rightarrow> bool" where
  "bm_wf b \<longleftrightarrow> length (bitmap b) = (unat (blocks b) + 31) div 32"

definition used :: "AtomicBitmap \<Rightarrow> nat set" where
  "used b = {i. i < unat (blocks b) \<and> bit (bitmap b ! (i div 32)) (31 - i mod 32)}"

lemma unat_bit_index: "unat (31 - i mod 32 :: u32) = 31 - unat i mod 32"
proof -
  have "i mod 32 \<le> 31"
    by (simp add: word_le_nat_alt unat_mod)
  then show ?thesis
    by (simp add: unat_sub unat_mod)
qed

lemma unat_word_index: "unat (i div 32 :: u32) = unat i div 32"
  by (simp add: unat_div)

lemma bm_wf_index: "bm_wf b \<Longrightarrow> i < unat (blocks b) \<Longrightarrow> i div 32 < length (bitmap b)"
  unfolding bm_wf_def by linarith

lemma same_slot: "i div 32 = j div 32 \<Longrightarrow> 31 - i mod 32 = 31 - j mod 32 \<Longrightarrow> i = (j::nat)"
  using mod_less_divisor [of 32 i] mod_less_divisor [of 32 j] div_mult_mod_eq [of i 32]
    div_mult_mod_eq [of j 32] by linarith

lemma bm_wf_store [simp]: "bm_wf (bm_store b i w) = bm_wf b"
  by (simp add: bm_wf_def bm_store_def)

lemma used_store_set:
  assumes "bm_wf b" and "i < blocks b"
  shows "used (bm_store b i (set_bit (31 - unat i mod 32) (bm_word b i))) = insert (unat i) (used b)"
    (is "?l = ?r")
proof (rule set_eqI)
  fix j
  have "unat i < unat (blocks b)"
    using assms(2) by (simp add: word_less_nat_alt)
  then show "j \<in> ?l \<longleftrightarrow> j \<in> ?r"
    using bm_wf_index [OF assms(1), of "unat i"] same_slot [of j "unat i"]
    by (auto simp: used_def bm_store_def bm_word_def unat_word_index nth_list_update bit_set_bit_iff)
qed

lemma used_store_unset:
  assumes "bm_wf b" and "i < blocks b"
  shows "used (bm_store b i (unset_bit (31 - unat i mod 32) (bm_word b i))) = used b - {unat i}"
    (is "?l = ?r")
proof (rule set_eqI)
  fix j
  have "unat i < unat (blocks b)"
    using assms(2) by (simp add: word_less_nat_alt)
  then show "j \<in> ?l \<longleftrightarrow> j \<in> ?r"
    using bm_wf_index [OF assms(1), of "unat i"] same_slot [of j "unat i"]
    by (auto simp: used_def bm_store_def bm_word_def unat_word_index nth_list_update bit_unset_bit_iff)
qed

lemma probe_set_used:
  assumes "bm_wf b" and "i < blocks b"
  shows "fst (probe_set b i) \<longleftrightarrow> unat i \<in> used b"
    and "bm_wf (snd (probe_set b i))"
    and "used (snd (probe_set b i)) = insert (unat i) (used b)"
  using assms by (simp_all add: probe_set_def bitTestAndSet_def unat_bit_index used_store_set)
    (simp add: used_def bm_word_def unat_word_index word_less_nat_alt)

lemma probe_unset_used:
  assumes "bm_wf b" and "i < blocks b"
  shows "fst (probe_unset b i) \<longleftrightarrow> unat i \<in> used b"
    and "bm_wf (snd (probe_unset b i))"
    and "used (snd (probe_unset b i)) = used b - {unat i}"
  using assms by (simp_all add: probe_unset_def bitTestAndReset_def unat_bit_index used_store_unset)
    (simp add: used_def bm_word_def unat_word_index word_less_nat_alt)

lemma ceil_div_32: "(n + 31) div 32 = (if n mod 32 = 0 then n div 32 else Suc (n div 32))" for n :: nat
proof -
  have "(32 * (n div 32) + (n mod 32 + 31)) div 32 = n div 32 + (n mod 32 + 31) div 32"
    by (rule div_mult_self4) simp
  moreover have "(n mod 32 + 31) div 32 = (if n mod 32 = 0 then 0 else 1)"
    using mod_less_divisor [of 32 n] by (auto intro!: div_nat_eqI)
  ultimately show ?thesis
    by (simp add: add.assoc [symmetric])
qed

lemma bm_new [simp]: "bm_wf (AtomicBitmap_new n)" "used (AtomicBitmap_new n) = {}"
  "blocks (AtomicBitmap_new n) = n"
proof -
  have "unat n div 32 < 2 ^ 27"
    by (rule less_mult_imp_div_less) simp
  then have "Suc (unat (n div 32)) < 2 ^ 32"
    by (simp add: unat_word_index)
  then have "unat (n div 32 + 1) = Suc (unat n div 32)"
    using unat_inc [of "n div 32"] by (simp add: unat_word_index)
  moreover have "n mod 32 = 0 \<longleftrightarrow> unat n mod 32 = 0"
    using unat_eq_zero [of "n mod 32"] unfolding unat_mod by simp
  ultimately have len: "length (bitmap (AtomicBitmap_new n)) = (unat n + 31) div 32"
    by (simp add: AtomicBitmap_new_def Let_def unat_word_index ceil_div_32)
  then show "bm_wf (AtomicBitmap_new n)"
    by (simp add: bm_wf_def AtomicBitmap_new_def Let_def)
  have "bitmap (AtomicBitmap_new n) ! k = 0" if "k < (unat n + 31) div 32" for k
    using that len by (simp add: AtomicBitmap_new_def Let_def)
  then show "used (AtomicBitmap_new n) = {}"
    by (auto simp: used_def AtomicBitmap_new_def Let_def)
qed (simp add: AtomicBitmap_new_def Let_def)

lemma findAndSet_from_spec:
  assumes "bm_wf b" and "unat i \<le> unat (blocks b)" and "\<forall>j < unat i. j \<in> used b"
    and "findAndSet_from b i = (r, b')"
  shows "bm_wf b' \<and> blocks b' = blocks b \<and>
    (if r = blocks b then used b' = used b \<and> used b = {..<unat (blocks b)}
     else r < blocks b \<and> unat r \<notin> used b \<and> (\<forall>j < unat r. j \<in> used b)
       \<and> used b' = insert (unat r) (used b))"
  using assms
proof (induction b i arbitrary: r b' rule: findAndSet_from.induct)
  case (1 b i)
  show ?case
  proof (cases "i < blocks b \<and> fst (probe_set b i)")
    case True
    define c where "c = snd (probe_set b i)"
    from True 1(2) have c: "bm_wf c" "used c = used b" "blocks c = blocks b" "unat i \<in> used b"
      using probe_set_used [of b i] by (auto simp: c_def)
    from True 1(5) have f: "findAndSet_from c (i + 1) = (r, b')"
      by (simp add: findAndSet_from.simps [of b i] c_def)
    have "unat (i + 1) = Suc (unat i)"
      using True by (blast intro: unat_less_suc)
    then have "\<forall>j < unat (i + 1). j \<in> used c" and "unat (i + 1) \<le> unat (blocks c)"
      using 1(4) c True by (auto simp: less_Suc_eq word_less_nat_alt)
    then show ?thesis
      using 1(1) [folded c_def, of r b'] True c f by (simp split: if_splits)
  next
    case False
    then consider "\<not> i < blocks b" | "i < blocks b" "\<not> fst (probe_set b i)"
      by blast
    then show ?thesis
    proof cases
      case 1
      then have "i = blocks b"
        using "1.prems"(2) by (simp add: word_less_nat_alt word_unat_eq_iff)
      then show ?thesis
        using 1 "1.prems" by (auto simp: findAndSet_from.simps [of b "blocks b"] used_def)
    next
      case 2
      then show ?thesis
        using "1.prems" probe_set_used [of b i]
        by (auto simp: findAndSet_from.simps [of b i])
    qed
  qed
qed

lemma findAndUnset_from_spec:
  assumes "bm_wf b" and "unat i \<le> unat (blocks b)" and "\<forall>j < unat i. j \<notin> used b"
    and "findAndUnset_from b i = (r, b')"
  shows "bm_wf b' \<and> blocks b' = blocks b \<and>
    (if r = blocks b then used b' = used b \<and> used b = {}
     else r < blocks b \<and> unat r \<in> used b \<and> (\<forall>j < unat r. j \<notin> used b)
       \<and> used b' = used b - {unat r})"
  using assms
proof (induction b i arbitrary: r b' rule: findAndUnset_from.induct)
  case (1 b i)
  show ?case
  proof (cases "i < blocks b \<and> \<not> fst (probe_unset b i)")
    case True
    define c where "c = snd (probe_unset b i)"
    from True 1(2) have c: "bm_wf c" "used c = used b" "blocks c = blocks b" "unat i \<notin> used b"
      using probe_unset_used [of b i] by (auto simp: c_def)
    from True 1(5) have f: "findAndUnset_from c (i + 1) = (r, b')"
      by (simp add: findAndUnset_from.simps [of b i] c_def)
    have "unat (i + 1) = Suc (unat i)"
      using True by (blast intro: unat_less_suc)
    then have "\<forall>j < unat (i + 1). j \<notin> used c" and "unat (i + 1) \<le> unat (blocks c)"
      using 1(4) c True by (auto simp: less_Suc_eq word_less_nat_alt)
    then show ?thesis
      using 1(1) [folded c_def, of r b'] True c f by (simp split: if_splits)
  next
    case False
    then consider "\<not> i < blocks b" | "i < blocks b" "fst (probe_unset b i)"
      by blast
    then show ?thesis
    proof cases
      case 1
      then have "i = blocks b"
        using "1.prems"(2) by (simp add: word_less_nat_alt word_unat_eq_iff)
      then show ?thesis
        using 1 "1.prems" by (auto simp: findAndUnset_from.simps [of b "blocks b"] used_def)
    next
      case 2
      then show ?thesis
        using "1.prems" probe_unset_used [of b i]
        by (auto simp: findAndUnset_from.simps [of b i])
    qed
  qed
qed

lemma bm_set_used:
  assumes "bm_wf b"
  shows "bm_wf (bm_set b i)" and "blocks (bm_set b i) = blocks b"
    and "used (bm_set b i) = (if i < blocks b then insert (unat i) (used b) else used b)"
  using assms by (auto simp: bm_set_def bitSet_def unat_bit_index used_store_set)

lemma bm_unset_used:
  assumes "bm_wf b"
  shows "bm_wf (bm_unset b i)" and "blocks (bm_unset b i) = blocks b"
    and "used (bm_unset b i) = (if i < blocks b then used b - {unat i} else used b)"
  using assms by (auto simp: bm_unset_def bitReset_def unat_bit_index used_store_unset)

lemma bm_check_used: "bm_check b i v \<longleftrightarrow> i < blocks b \<and> (unat i \<in> used b) = v"
  by (auto simp: bm_check_def bitTest_def unat_bit_index used_def bm_word_def unat_word_index
      word_less_nat_alt word_le_nat_alt)

lemma findAndSet_spec:
  assumes "bm_wf b" and "findAndSet b = (r, b')"
  shows "bm_wf b' \<and> blocks b' = blocks b \<and>
    (if used b = {..<unat (blocks b)} then r = INVALID_INDEX \<and> used b' = used b
     else r < blocks b \<and> unat r \<notin> used b \<and> (\<forall>j < unat r. j \<in> used b)
       \<and> used b' = insert (unat r) (used b))"
proof -
  obtain i where f: "findAndSet_from b 0 = (i, b')"
    and r: "r = (if i = blocks b' then INVALID_INDEX else i)"
    using assms(2) by (auto simp: findAndSet_def split: prod.splits)
  show ?thesis
    using findAndSet_from_spec [OF assms(1) _ _ f] r
    by (auto simp: word_less_nat_alt split: if_splits)
qed

lemma findAndUnset_spec:
  assumes "bm_wf b" and "findAndUnset b = (r, b')"
  shows "bm_wf b' \<and> blocks b' = blocks b \<and>
    (if used b = {} then r = INVALID_INDEX \<and> used b' = used b
     else r < blocks b \<and> unat r \<in> used b \<and> (\<forall>j < unat r. j \<notin> used b)
       \<and> used b' = used b - {unat r})"
proof -
  obtain i where f: "findAndUnset_from b 0 = (i, b')"
    and r: "r = (if i = blocks b' then INVALID_INDEX else i)"
    using assms(2) by (auto simp: findAndUnset_def split: prod.splits)
  show ?thesis
    using findAndUnset_from_spec [OF assms(1) _ _ f] r by (auto split: if_splits)
qed

section \<open>Concurrent claimants\<close>

text \<open>
  Any number of threads run \<open>findAndSet\<close> and give indices back with \<open>unset\<close>. A round of the
  loop is one atomic instruction, so rounds of different threads interleave freely.
\<close>

datatype claimant = Idle | Scanning u32 | Owner u32

inductive claim_step ::
    "AtomicBitmap \<times> (nat \<Rightarrow> claimant) \<Rightarrow> AtomicBitmap \<times> (nat \<Rightarrow> claimant) \<Rightarrow> bool" where
  claim_begin: "p t = Idle \<Longrightarrow> claim_step (b, p) (b, p(t := Scanning 0))"
| claim_miss: "p t = Scanning i \<Longrightarrow> i < blocks b \<Longrightarrow> probe_set b i = (True, b') \<Longrightarrow>
    claim_step (b, p) (b', p(t := Scanning (i + 1)))"
| claim_hit: "p t = Scanning i \<Longrightarrow> i < blocks b \<Longrightarrow> probe_set b i = (False, b') \<Longrightarrow>
    claim_step (b, p) (b', p(t := Owner i))"
| claim_invalid: "p t = Scanning i \<Longrightarrow> i = blocks b \<Longrightarrow> claim_step (b, p) (b, p(t := Idle))"
| claim_unset: "p t = Owner i \<Longrightarrow> claim_step (b, p) (bm_unset b i, p(t := Idle))"

definition claims_ok :: "AtomicBitmap \<times> (nat \<Rightarrow> claimant) \<Rightarrow> bool" where
  "claims_ok s \<longleftrightarrow> bm_wf (fst s) \<and>
     (\<forall>t i. snd s t = Owner i \<longrightarrow> i < blocks (fst s) \<and> unat i \<in> used (fst s)) \<and>
     (\<forall>t u i. snd s t = Owner i \<longrightarrow> snd s u = Owner i \<longrightarrow> t = u)"

lemma claims_ok_step: "claim_step s s' \<Longrightarrow> claims_ok s \<Longrightarrow> claims_ok s'"
proof (induction rule: claim_step.induct)
  case (claim_begin p t b)
  then show ?case
    by (auto simp: claims_ok_def)
next
  case (claim_miss p t i b b')
  then have "bm_wf b'" "used b' = insert (unat i) (used b)" "blocks b' = blocks b"
    using probe_set_used [of b i] blocks_probe(1) [of b i] by (auto simp: claims_ok_def)
  with claim_miss show ?case
    by (auto simp: claims_ok_def)
next
  case (claim_hit p t i b b')
  then have "bm_wf b'" "used b' = insert (unat i) (used b)" "blocks b' = blocks b" "unat i \<notin> used b"
    using probe_set_used [of b i] blocks_probe(1) [of b i] by (auto simp: claims_ok_def)
  with claim_hit show ?case
    by (auto simp: claims_ok_def)
next
  case (claim_invalid p t i b)
  then show ?case
    by (auto simp: claims_ok_def)
next
  case (claim_unset p t i b)
  then have "bm_wf b" and "i < blocks b"
    by (auto simp: claims_ok_def)
  with claim_unset show ?case
    by (auto simp: claims_ok_def bm_unset_used dest!: unsigned_word_eqI)
qed

lemma claim_step_blocks: "claim_step s s' \<Longrightarrow> blocks (fst s') = blocks (fst s)"
proof (induction rule: claim_step.induct)
  case (claim_miss p t i b b')
  then show ?case
    using blocks_probe(1) [of b i] by simp
next
  case (claim_hit p t i b b')
  then show ?case
    using blocks_probe(1) [of b i] by simp
qed (simp_all add: bm_unset_def)

lemma claims_ok_reachable:
  assumes "claim_step\<^sup>*\<^sup>* (AtomicBitmap_new n, \<lambda>_. Idle) s"
  shows "claims_ok s"
  using assms
proof (induction rule: rtranclp_induct)
  case base
  then show ?case
    by (simp add: claims_ok_def)
qed (rule claims_ok_step)

text \<open>
  C3. Concurrent \<open>findAndSet\<close>: however the rounds of any number of threads interleave, no index
  of the bitmap is owned by two threads, and every owned index is inside the bitmap.
\<close>

theorem concurrent_claims_distinct:
  assumes "claim_step\<^sup>*\<^sup>* (AtomicBitmap_new n, \<lambda>_. Idle) (b, p)" and "p t = Owner i"
  shows "i < n \<and> (\<forall>u. p u = Owner i \<longrightarrow> u = t)"
proof -
  have "blocks (fst s) = n" if "claim_step\<^sup>*\<^sup>* (AtomicBitmap_new n, \<lambda>_. Idle) s" for s
    using that
  proof (induction rule: rtranclp_induct)
    case base
    then show ?case
      by simp
  next
    case (step x y)
    then show ?case
      by (simp add: claim_step_blocks)
  qed
  then show ?thesis
    using claims_ok_reachable [OF assms(1)] assms by (auto simp: claims_ok_def)
qed

lemma claim_run:
  "claim_step\<^sup>*\<^sup>* (AtomicBitmap_new 2, \<lambda>_. Idle)
     (snd (probe_set (AtomicBitmap_new 2) 0), (\<lambda>_. Idle)(3 := Owner 0))"
proof -
  have "claim_step (AtomicBitmap_new 2, \<lambda>_. Idle) (AtomicBitmap_new 2, (\<lambda>_. Idle)(3 := Scanning 0))"
    by (rule claim_begin) simp
  moreover have "claim_step (AtomicBitmap_new 2, (\<lambda>_. Idle)(3 := Scanning 0))
      (snd (probe_set (AtomicBitmap_new 2) 0), ((\<lambda>_. Idle)(3 := Scanning 0))(3 := Owner 0))"
    by (rule claim_hit) (simp_all add: prod_eq_iff probe_set_used)
  ultimately show ?thesis
    unfolding fun_upd_upd by (rule converse_rtranclp_into_rtranclp [OF _ r_into_rtranclp])
qed

theorem concurrent_claims_distinct_witness:
  "\<exists>b p. claim_step\<^sup>*\<^sup>* (AtomicBitmap_new 2, \<lambda>_. Idle) (b, p) \<and> p 3 = Owner 0
     \<and> (\<forall>u. p u = Owner 0 \<longrightarrow> u = 3)"
proof (intro exI conjI)
  show "claim_step\<^sup>*\<^sup>* (AtomicBitmap_new 2, \<lambda>_. Idle)
      (snd (probe_set (AtomicBitmap_new 2) 0), (\<lambda>_. Idle)(3 := Owner 0))"
    by (rule claim_run)
  show own: "((\<lambda>_. Idle)(3 := Owner 0)) (3::nat) = Owner 0"
    by simp
  show "\<forall>u::nat. ((\<lambda>_. Idle)(3 := Owner 0)) u = Owner 0 \<longrightarrow> u = 3"
    by (rule concurrent_claims_distinct [OF claim_run own, THEN conjunct2])
qed

text \<open>
  C4. \<open>findAndSet\<close> returns the least index whose bit is clear and sets exactly that bit; it
  returns \<open>INVALID_INDEX\<close> and changes nothing exactly when every bit is set.
\<close>

theorem findAndSet_least_free:
  assumes "bm_wf b" and "findAndSet b = (r, b')"
  shows "if used b = {..<unat (blocks b)} then r = INVALID_INDEX \<and> used b' = used b
    else unat r = (LEAST j. j \<notin> used b) \<and> r < blocks b \<and> used b' = insert (unat r) (used b)"
proof (cases "used b = {..<unat (blocks b)}")
  case False
  with findAndSet_spec [OF assms] have "r < blocks b \<and> unat r \<notin> used b \<and> (\<forall>j < unat r. j \<in> used b)
      \<and> used b' = insert (unat r) (used b)"
    by simp
  with False show ?thesis
    by (auto intro!: Least_equality [symmetric] simp: not_less [symmetric])
qed (use findAndSet_spec [OF assms] in simp)

theorem findAndSet_least_free_witness:
  "used (AtomicBitmap_new 40) \<noteq> {..<40} \<and> fst (findAndSet (AtomicBitmap_new 40)) = 0
     \<and> used (snd (findAndSet (AtomicBitmap_new 40))) = {0}"
proof -
  have "used (AtomicBitmap_new 40) \<noteq> {..<40}" and "(LEAST j. j \<notin> used (AtomicBitmap_new 40)) = 0"
    by (auto intro: Least_equality simp: set_eq_iff intro: exI [of _ 0])
  then show ?thesis
    using findAndSet_least_free [of "AtomicBitmap_new 40", OF _ surjective_pairing]
    by (simp add: unat_eq_zero)
qed

section \<open>The slot interface\<close>

text \<open>
  What the block managers and the object pool rely on: claiming a slot returns a free one and
  marks it, returning a slot clears its mark. \<open>claims\<close> collects the slots of a run of claims.
\<close>

locale slot_source =
  fixes claim :: "'s \<Rightarrow> u32 \<times> 's"
    and give :: "'s \<Rightarrow> u32 \<Rightarrow> 's"
    and taken :: "'s \<Rightarrow> nat set"
    and size_of :: "'s \<Rightarrow> u32"
    and good :: "'s \<Rightarrow> bool"
  assumes claim_good: "good s \<Longrightarrow> good (snd (claim s)) \<and> size_of (snd (claim s)) = size_of s"
    and claim_fresh: "good s \<Longrightarrow> fst (claim s) \<noteq> INVALID_INDEX \<Longrightarrow>
      fst (claim s) < size_of s \<and> unat (fst (claim s)) \<notin> taken s
      \<and> taken (snd (claim s)) = insert (unat (fst (claim s))) (taken s)"
    and claim_full: "good s \<Longrightarrow> fst (claim s) = INVALID_INDEX \<Longrightarrow>
      taken (snd (claim s)) = taken s \<and> taken s = {..<unat (size_of s)}"
    and give_good: "good s \<Longrightarrow> good (give s i) \<and> size_of (give s i) = size_of s"
    and give_taken: "good s \<Longrightarrow> i < size_of s \<Longrightarrow> taken (give s i) = taken s - {unat i}"
begin

lemma claim_give:
  assumes "good s" and "fst (claim s) \<noteq> INVALID_INDEX"
  shows "taken (give (snd (claim s)) (fst (claim s))) = taken s"
  using claim_good [OF assms(1)] claim_fresh [OF assms] give_taken [of "snd (claim s)" "fst (claim s)"]
  by auto

lemma claim_card:
  assumes "good s" and "finite (taken s)"
  shows "card (taken (snd (claim s))) =
    card (taken s) + (if fst (claim s) = INVALID_INDEX then 0 else 1)"
  using claim_fresh [OF assms(1)] claim_full [OF assms(1)] assms(2) by auto

end

lemma used_bound: "used b \<subseteq> {..<unat (blocks b)}"
  by (auto simp: used_def)

lemma finite_used [simp]: "finite (used b)"
  by (rule finite_subset [OF used_bound]) simp

interpretation bitmap_slots: slot_source findAndSet bm_unset used blocks bm_wf
proof
  fix s :: AtomicBitmap and i
  assume wf: "bm_wf s"
  note spec = findAndSet_spec [OF wf surjective_pairing]
  show "bm_wf (snd (findAndSet s)) \<and> blocks (snd (findAndSet s)) = blocks s"
    using spec by blast
  show "bm_wf (bm_unset s i) \<and> blocks (bm_unset s i) = blocks s"
    using bm_unset_used [OF wf] by simp
  show "used (bm_unset s i) = used s - {unat i}" if "i < blocks s"
    using bm_unset_used [OF wf] that by simp
  show "fst (findAndSet s) < blocks s \<and> unat (fst (findAndSet s)) \<notin> used s
      \<and> used (snd (findAndSet s)) = insert (unat (fst (findAndSet s))) (used s)"
    if "fst (findAndSet s) \<noteq> INVALID_INDEX"
    using spec that by (simp split: if_splits)
  show "used (snd (findAndSet s)) = used s \<and> used s = {..<unat (blocks s)}"
    if "fst (findAndSet s) = INVALID_INDEX"
  proof -
    have "\<not> INVALID_INDEX < blocks s"
      by (simp add: not_less)
    then show ?thesis
      using spec that by (simp split: if_splits)
  qed
qed

end
