(* ===== verification/Block_Managers.thy ===== *)
theory Block_Managers
  imports Address_Ops Bitmaps
begin

text \<open>
  \<^verbatim>\<open>Kernel::BitmapMemoryManager\<close> (kernel/memory): a block allocator over an atomic bitmap. \<open>live\<close> is the set of block addresses a manager has handed out. The
  \<^verbatim>\<open>BlockMemoryManager\<close> contract (fresh blocks, disjoint from the live ones; freeing gives a live
  block back) is the locale \<open>block_manager\<close>, in which runs of allocations and frees are
  verified once; it is interpreted on the managers.
\<close>

section \<open>Bitmap memory manager\<close>

record BitmapMemoryManager =
  startAddress :: u32
  endAddress :: u32
  freeMemory :: u32
  blockSize :: u32
  zeroMemory :: bool
  bmm_bitmap :: AtomicBitmap

definition BitmapMemoryManager_new :: "u32 \<Rightarrow> u32 \<Rightarrow> u32 \<Rightarrow> bool \<Rightarrow> BitmapMemoryManager" where
  "BitmapMemoryManager_new s e bs z =
     \<lparr>startAddress = s, endAddress = e, freeMemory = e - s + 1, blockSize = bs, zeroMemory = z,
      bmm_bitmap = AtomicBitmap_new ((e - s + 1) div bs)\<rparr>"

definition bmm_allocateBlock ::
    "BitmapMemoryManager \<Rightarrow> mem \<Rightarrow> (u32 \<times> BitmapMemoryManager \<times> mem) result" where
  "bmm_allocateBlock m h =
     (let (block, b) = findAndSet (bmm_bitmap m); m = m\<lparr>bmm_bitmap := b\<rparr>
      in if block = INVALID_INDEX then Inr (nullptr, m, h)
         else if freeMemory m < freeMemory m - blockSize m then Inl OUT_OF_BOUNDS
         else let m = m\<lparr>freeMemory := freeMemory m - blockSize m\<rparr>;
                  address = startAddress m + block * blockSize m;
                  h = (if zeroMemory m then setRange h address 0 (blockSize m) else h)
              in Inr (address, m, h))"

definition bmm_freeBlock :: "BitmapMemoryManager \<Rightarrow> u32 \<Rightarrow> BitmapMemoryManager result" where
  "bmm_freeBlock m pointer =
     (if pointer < startAddress m \<or> endAddress m \<le> pointer then Inl OUT_OF_BOUNDS
      else let blockNumber = (pointer - startAddress m) div blockSize m
           in Inr (m\<lparr>bmm_bitmap := bm_unset (bmm_bitmap m) blockNumber,
                     freeMemory := freeMemory m + blockSize m\<rparr>))"

text \<open>
  The loop of \<open>setRange\<close>: \<open>True\<close> when it ran to its end, \<open>False\<close> when it left the function
  at the end of the bitmap, in which case \<open>freeMemory\<close> is not adjusted.
\<close>

function bmm_setRange_from :: "AtomicBitmap \<Rightarrow> u32 \<Rightarrow> u32 \<Rightarrow> u32 \<Rightarrow> bool \<times> AtomicBitmap" where
  "bmm_setRange_from b startBlock blockCount i =
     (if i < blockCount
      then if blocks b \<le> startBlock + i then (False, b)
           else bmm_setRange_from (bm_set b (startBlock + i)) startBlock blockCount (i + 1)
      else (True, b))"
  by pat_completeness auto
termination
  by (relation "measure (\<lambda>(b, s, n, i). unat n - unat i)") (auto simp: word_nat word_less_nat_alt)

declare bmm_setRange_from.simps [simp del]

definition bmm_setRange :: "BitmapMemoryManager \<Rightarrow> u32 \<Rightarrow> u32 \<Rightarrow> BitmapMemoryManager" where
  "bmm_setRange m startBlock blockCount =
     (let (finished, b) = bmm_setRange_from (bmm_bitmap m) startBlock blockCount 0;
          m = m\<lparr>bmm_bitmap := b\<rparr>
      in if finished then m\<lparr>freeMemory := freeMemory m - blockCount * blockSize m\<rparr> else m)"

definition bmm_getTotalMemory :: "BitmapMemoryManager \<Rightarrow> u32" where
  "bmm_getTotalMemory m = endAddress m - startAddress m + 1"

subsection \<open>Invariant\<close>

definition bmm_total :: "BitmapMemoryManager \<Rightarrow> nat" where
  "bmm_total m = Suc (unat (endAddress m)) - unat (startAddress m)"

definition bmm_shape :: "BitmapMemoryManager \<Rightarrow> bool" where
  "bmm_shape m \<longleftrightarrow> 1 < blockSize m \<and> 0 < startAddress m \<and> startAddress m \<le> endAddress m \<and>
     bm_wf (bmm_bitmap m) \<and> unat (blocks (bmm_bitmap m)) = bmm_total m div unat (blockSize m)"

definition bmm_ok :: "BitmapMemoryManager \<Rightarrow> bool" where
  "bmm_ok m \<longleftrightarrow> bmm_shape m \<and>
     unat (freeMemory m) + card (used (bmm_bitmap m)) * unat (blockSize m) = bmm_total m"

definition bmm_addr :: "BitmapMemoryManager \<Rightarrow> nat \<Rightarrow> u32" where
  "bmm_addr m i = startAddress m + of_nat i * blockSize m"

definition bmm_live :: "BitmapMemoryManager \<Rightarrow> u32 set" where
  "bmm_live m = bmm_addr m ` used (bmm_bitmap m)"

definition span :: "u32 \<Rightarrow> u32 \<Rightarrow> nat set" where
  "span a n = {unat a ..< unat a + unat n}"

lemma bmm_total_bound: "0 < startAddress m \<Longrightarrow> bmm_total m < 2 ^ 32"
  using unat_lt_2_32 [of "endAddress m"] unfolding bmm_total_def word_less_nat_alt unat_0
  by linarith

lemma bmm_addr_unat:
  assumes "bmm_shape m" and "i < unat (blocks (bmm_bitmap m))"
  shows "unat (bmm_addr m i) = unat (startAddress m) + i * unat (blockSize m)"
    and "unat (startAddress m) + i * unat (blockSize m) + unat (blockSize m) \<le> Suc (unat (endAddress m))"
proof -
  have "Suc i * unat (blockSize m) \<le> bmm_total m div unat (blockSize m) * unat (blockSize m)"
    using assms by (intro mult_le_mono1) (simp add: bmm_shape_def)
  also have "\<dots> \<le> bmm_total m"
    by simp
  finally show le: "unat (startAddress m) + i * unat (blockSize m) + unat (blockSize m)
      \<le> Suc (unat (endAddress m))"
    using assms(1) unfolding bmm_shape_def bmm_total_def word_le_nat_alt mult_Suc by linarith
  have "0 < unat (blockSize m)"
    using assms(1) by (simp add: bmm_shape_def word_less_nat_alt)
  then have lt: "unat (startAddress m) + i * unat (blockSize m) < 2 ^ 32"
    using le unat_lt_2_32 [of "endAddress m"] by linarith
  have "bmm_addr m i = of_nat (unat (startAddress m) + i * unat (blockSize m))"
    by (simp add: bmm_addr_def)
  then show "unat (bmm_addr m i) = unat (startAddress m) + i * unat (blockSize m)"
    using lt by (simp only: unat_of_nat32)
qed

lemma bmm_blockSize_pos: "bmm_shape m \<Longrightarrow> 1 < unat (blockSize m)"
  by (simp add: bmm_shape_def word_less_nat_alt)

lemma bmm_addr_nonnull: "bmm_shape m \<Longrightarrow> i < unat (blocks (bmm_bitmap m)) \<Longrightarrow> bmm_addr m i \<noteq> nullptr"
  using bmm_addr_unat(1) [of m i] by (auto simp: bmm_shape_def word_less_nat_alt)

lemma bmm_addr_span:
  assumes "bmm_shape m" and "i < unat (blocks (bmm_bitmap m))" and "j < unat (blocks (bmm_bitmap m))"
    and "i \<noteq> j"
  shows "span (bmm_addr m i) (blockSize m) \<inter> span (bmm_addr m j) (blockSize m) = {}"
proof -
  have "Suc i * unat (blockSize m) \<le> j * unat (blockSize m)
      \<or> Suc j * unat (blockSize m) \<le> i * unat (blockSize m)"
    using assms(4) by (rule strides_apart)
  then show ?thesis
    unfolding span_def bmm_addr_unat(1) [OF assms(1,2)] bmm_addr_unat(1) [OF assms(1,3)]
    by auto
qed

lemma bmm_addr_inj: "bmm_shape m \<Longrightarrow> inj_on (bmm_addr m) {..<unat (blocks (bmm_bitmap m))}"
proof (rule inj_onI, rule ccontr)
  fix i j
  assume "bmm_shape m" and "i \<in> {..<unat (blocks (bmm_bitmap m))}"
    and "j \<in> {..<unat (blocks (bmm_bitmap m))}" and "bmm_addr m i = bmm_addr m j" and "i \<noteq> j"
  then show False
    using bmm_addr_span [of m i j] bmm_blockSize_pos [of m] by (simp add: span_def)
qed

lemma bmm_live_iff:
  "bmm_shape m \<Longrightarrow> i < unat (blocks (bmm_bitmap m)) \<Longrightarrow>
     bmm_addr m i \<in> bmm_live m \<longleftrightarrow> i \<in> used (bmm_bitmap m)"
  using bmm_addr_inj [of m] used_bound [of "bmm_bitmap m"]
  by (auto simp: bmm_live_def dest: inj_onD)

subsection \<open>Allocation and release\<close>

lemma bmm_allocateBlock_full:
  assumes "bmm_ok m" and "used (bmm_bitmap m) = {..<unat (blocks (bmm_bitmap m))}"
  shows "\<exists>m'. bmm_allocateBlock m h = Inr (nullptr, m', h) \<and> bmm_ok m' \<and> bmm_live m' = bmm_live m
    \<and> startAddress m' = startAddress m \<and> endAddress m' = endAddress m \<and> blockSize m' = blockSize m
    \<and> freeMemory m' = freeMemory m"
proof -
  obtain r b where f: "findAndSet (bmm_bitmap m) = (r, b)"
    by (cases "findAndSet (bmm_bitmap m)")
  have "bm_wf (bmm_bitmap m)"
    using assms(1) by (simp add: bmm_ok_def bmm_shape_def)
  from findAndSet_spec [OF this f] assms(2)
  have b: "r = INVALID_INDEX" "bm_wf b" "blocks b = blocks (bmm_bitmap m)" "used b = used (bmm_bitmap m)"
    by simp_all
  define m' where "m' = m\<lparr>bmm_bitmap := b\<rparr>"
  have "bmm_allocateBlock m h = Inr (nullptr, m', h)"
    using b(1) by (simp add: bmm_allocateBlock_def f m'_def)
  moreover have "bmm_ok m'"
    using assms(1) b by (simp add: bmm_ok_def bmm_shape_def bmm_total_def m'_def)
  moreover have "bmm_live m' = bmm_live m"
    using b by (simp add: bmm_live_def bmm_addr_def [abs_def] m'_def)
  ultimately show ?thesis
    by (simp add: m'_def)
qed

lemma bmm_allocateBlock_free:
  assumes ok: "bmm_ok m" and space: "used (bmm_bitmap m) \<noteq> {..<unat (blocks (bmm_bitmap m))}"
  defines "i \<equiv> unat (fst (findAndSet (bmm_bitmap m)))"
  shows "\<exists>m' h'. bmm_allocateBlock m h = Inr (bmm_addr m i, m', h') \<and> bmm_ok m'
    \<and> i < unat (blocks (bmm_bitmap m)) \<and> i \<notin> used (bmm_bitmap m)
    \<and> bmm_live m' = insert (bmm_addr m i) (bmm_live m)
    \<and> startAddress m' = startAddress m \<and> endAddress m' = endAddress m \<and> blockSize m' = blockSize m
    \<and> freeMemory m' = freeMemory m - blockSize m
    \<and> h' = (if zeroMemory m then \<lambda>x. if x - bmm_addr m i < blockSize m then 0 else h x else h)"
proof -
  obtain r b where f: "findAndSet (bmm_bitmap m) = (r, b)"
    by (cases "findAndSet (bmm_bitmap m)")
  have wf: "bm_wf (bmm_bitmap m)" and shape: "bmm_shape m"
    using ok by (simp_all add: bmm_ok_def bmm_shape_def)
  have i: "i = unat r"
    by (simp add: i_def f)
  from findAndSet_spec [OF wf f] space
  have b: "bm_wf b" "blocks b = blocks (bmm_bitmap m)" "r < blocks (bmm_bitmap m)"
      "i \<notin> used (bmm_bitmap m)" "used b = insert i (used (bmm_bitmap m))"
    by (auto simp: i)
  have ne: "r \<noteq> INVALID_INDEX"
    using b(3) by auto
  have "card (used b) \<le> unat (blocks (bmm_bitmap m))"
    using card_mono [OF _ used_bound [of b]] b(2) by simp
  then have "card (used b) * unat (blockSize m) \<le> bmm_total m"
    using shape unfolding bmm_shape_def
    by (metis div_times_less_eq_dividend le_trans mult_le_mono1)
  then have le: "unat (blockSize m) \<le> unat (freeMemory m)"
    using ok b(4,5) by (simp add: bmm_ok_def)
  then have dec: "unat (freeMemory m - blockSize m) = unat (freeMemory m) - unat (blockSize m)"
      "\<not> freeMemory m < freeMemory m - blockSize m"
    by (simp_all add: unat_sub word_le_nat_alt not_less)
  define m' where "m' = m\<lparr>bmm_bitmap := b, freeMemory := freeMemory m - blockSize m\<rparr>"
  have "bmm_allocateBlock m h = Inr (bmm_addr m i, m',
      if zeroMemory m then \<lambda>x. if x - bmm_addr m i < blockSize m then 0 else h x else h)"
    using ne dec(2)
    by (simp add: bmm_allocateBlock_def f Let_def bmm_addr_def i setRange_bytes fill_bytes_eq word_less_nat_alt m'_def)
  moreover have "bmm_ok m'"
    using ok b le dec(1) by (simp add: bmm_ok_def bmm_shape_def bmm_total_def m'_def)
  moreover have "bmm_live m' = insert (bmm_addr m i) (bmm_live m)"
    using b(5) by (simp add: bmm_live_def bmm_addr_def [abs_def] m'_def)
  ultimately show ?thesis
    using b(3,4) by (simp add: m'_def word_less_nat_alt i)
qed

lemma bmm_freeBlock_live:
  assumes ok: "bmm_ok m" and live: "a \<in> bmm_live m"
  shows "\<exists>m'. bmm_freeBlock m a = Inr m' \<and> bmm_ok m' \<and> bmm_live m' = bmm_live m - {a}
    \<and> startAddress m' = startAddress m \<and> endAddress m' = endAddress m \<and> blockSize m' = blockSize m
    \<and> freeMemory m' = freeMemory m + blockSize m"
proof -
  from live obtain i where i: "i \<in> used (bmm_bitmap m)" and a: "a = bmm_addr m i"
    by (auto simp: bmm_live_def)
  then have lt: "i < unat (blocks (bmm_bitmap m))"
    using used_bound by blast
  have shape: "bmm_shape m" and wf: "bm_wf (bmm_bitmap m)"
    using ok by (simp_all add: bmm_ok_def bmm_shape_def)
  note au = bmm_addr_unat [OF shape lt] and pos = bmm_blockSize_pos [OF shape]
  have range: "\<not> a < startAddress m" "\<not> endAddress m \<le> a"
    using au pos by (simp_all add: a word_less_nat_alt word_le_nat_alt)
  have "unat (a - startAddress m) = i * unat (blockSize m)"
    using range(1) au(1) by (simp add: a unat_sub not_less)
  then have bn: "unat ((a - startAddress m) div blockSize m) = i"
    using pos by (simp add: unat_div)
  then have bl: "(a - startAddress m) div blockSize m < blocks (bmm_bitmap m)"
    using lt by (simp add: word_less_nat_alt)
  define m' where "m' = m\<lparr>bmm_bitmap := bm_unset (bmm_bitmap m) ((a - startAddress m) div blockSize m),
    freeMemory := freeMemory m + blockSize m\<rparr>"
  have used': "used (bmm_bitmap m') = used (bmm_bitmap m) - {i}"
    and wf': "bm_wf (bmm_bitmap m')" "blocks (bmm_bitmap m') = blocks (bmm_bitmap m)"
    using bm_unset_used [OF wf] bl bn by (simp_all add: m'_def)
  have card: "card (used (bmm_bitmap m)) = Suc (card (used (bmm_bitmap m) - {i}))"
    using card_Suc_Diff1 [OF finite_used i] by simp
  have sum: "unat (freeMemory m) + unat (blockSize m) + card (used (bmm_bitmap m) - {i}) * unat (blockSize m)
      = bmm_total m"
    using ok card by (simp add: bmm_ok_def)
  then have "unat (freeMemory m) + unat (blockSize m) < 2 ^ 32"
    using bmm_total_bound [of m] shape unfolding bmm_shape_def by linarith
  then have "unat (freeMemory m + blockSize m) = unat (freeMemory m) + unat (blockSize m)"
    by (simp add: unat_word_ariths(1))
  then have "bmm_ok m'"
    using sum used' wf' shape by (simp add: bmm_ok_def bmm_shape_def bmm_total_def m'_def)
  moreover have "bmm_live m' = bmm_live m - {a}"
  proof -
    have "bmm_addr m' = bmm_addr m"
      by (simp add: bmm_addr_def [abs_def] m'_def)
    then show ?thesis
      using inj_on_image_set_diff [OF bmm_addr_inj [OF shape], of "used (bmm_bitmap m)" "{i}"]
        used_bound [of "bmm_bitmap m"] lt used' by (simp add: bmm_live_def a subset_iff)
  qed
  ultimately show ?thesis
    using range by (auto simp: bmm_freeBlock_def m'_def)
qed

section \<open>The block manager interface\<close>

text \<open>
  A run of a client: \<open>Alloc\<close> requests a block and keeps it if the manager has one, \<open>Free i\<close>
  gives the \<open>i\<close>-th block it holds back.
\<close>

datatype block_op = Alloc | Free nat

fun block_run ::
    "('s \<Rightarrow> mem \<Rightarrow> (u32 \<times> 's \<times> mem) result) \<Rightarrow> ('s \<Rightarrow> u32 \<Rightarrow> 's result) \<Rightarrow>
     block_op list \<Rightarrow> 's \<Rightarrow> mem \<Rightarrow> u32 list \<Rightarrow> ('s \<times> mem \<times> u32 list) result" where
  "block_run alloc free [] s h held = Inr (s, h, held)"
| "block_run alloc free (Alloc # ops) s h held =
     res_bind (alloc s h) (\<lambda>(a, s', h').
       block_run alloc free ops s' h' (if a = nullptr then held else a # held))"
| "block_run alloc free (Free i # ops) s h held =
     (if i < length held
      then res_bind (free s (held ! i)) (\<lambda>s'.
             block_run alloc free ops s' h (take i held @ drop (Suc i) held))
      else block_run alloc free ops s h held)"

definition disjoint_blocks :: "u32 \<Rightarrow> u32 set \<Rightarrow> bool" where
  "disjoint_blocks n A \<longleftrightarrow> (\<forall>a \<in> A. \<forall>b \<in> A. a \<noteq> b \<longrightarrow> span a n \<inter> span b n = {})"

lemma set_remove_nth:
  "distinct xs \<Longrightarrow> i < length xs \<Longrightarrow> set (take i xs @ drop (Suc i) xs) = set xs - {xs ! i}"
  "distinct xs \<Longrightarrow> i < length xs \<Longrightarrow> distinct (take i xs @ drop (Suc i) xs)"
  using id_take_nth_drop [of i xs] distinct_append [of "take i xs" "xs ! i # drop (Suc i) xs"]
  by (auto simp: set_take_disj_set_drop_if_distinct dest: in_set_takeD in_set_dropD)
    (metis Un_iff list.set_intros(1) set_ConsD set_append)+

locale block_manager =
  fixes alloc :: "'s \<Rightarrow> mem \<Rightarrow> (u32 \<times> 's \<times> mem) result"
    and free :: "'s \<Rightarrow> u32 \<Rightarrow> 's result"
    and live :: "'s \<Rightarrow> u32 set"
    and bsize :: "'s \<Rightarrow> u32"
    and ok :: "'s \<Rightarrow> bool"
  assumes alloc_step: "ok s \<Longrightarrow> alloc s h = Inr (a, s', h') \<Longrightarrow> ok s' \<and> bsize s' = bsize s \<and>
      (if a = nullptr then live s' = live s
       else a \<notin> live s \<and> live s' = insert a (live s) \<and>
         (\<forall>b \<in> live s. span a (bsize s) \<inter> span b (bsize s) = {}))"
    and free_step: "ok s \<Longrightarrow> a \<in> live s \<Longrightarrow>
      \<exists>s'. free s a = Inr s' \<and> ok s' \<and> bsize s' = bsize s \<and> live s' = live s - {a}"
begin

lemma run_sound:
  assumes "ok s" and "distinct held" and "set held = live s" and "disjoint_blocks (bsize s) (live s)"
    and "block_run alloc free ops s h held = Inr (s', h', held')"
  shows "ok s' \<and> distinct held' \<and> set held' = live s' \<and> bsize s' = bsize s \<and>
    disjoint_blocks (bsize s) (live s')"
  using assms
proof (induction ops arbitrary: s h held)
  case Nil
  then show ?case
    by simp
next
  case (Cons opn ops)
  show ?case
  proof (cases opn)
    case Alloc
    then obtain a t g where a: "alloc s h = Inr (a, t, g)"
      and r: "block_run alloc free ops t g (if a = nullptr then held else a # held) = Inr (s', h', held')"
      using Cons.prems(5) by (auto simp: res_iff)
    note st = alloc_step [OF Cons.prems(1) a]
    have "disjoint_blocks (bsize t) (live t)"
      using st Cons.prems(4) by (cases "a = nullptr") (auto simp: disjoint_blocks_def Int_commute)
    then show ?thesis
      using Cons.IH [OF _ _ _ _ r] st Cons.prems(2,3) by (cases "a = nullptr") auto
  next
    case (Free i)
    show ?thesis
    proof (cases "i < length held")
      case True
      then have "held ! i \<in> live s"
        using Cons.prems(3) nth_mem by blast
      then obtain t where t: "free s (held ! i) = Inr t" "ok t" "bsize t = bsize s"
          "live t = live s - {held ! i}"
        using free_step [OF Cons.prems(1), of "held ! i"] by blast
      have "disjoint_blocks (bsize t) (live t)"
        using t Cons.prems(4) by (auto simp: disjoint_blocks_def)
      then show ?thesis
        using Cons.IH [of t "take i held @ drop (Suc i) held" h] t True Free Cons.prems
          set_remove_nth [of held i] by simp
    qed (use Cons Free in simp)
  qed
qed

lemma run_total:
  assumes total: "\<And>s h. ok s \<Longrightarrow> \<exists>r. alloc s h = Inr r"
    and "ok s" and "distinct held" and "set held = live s"
  shows "\<exists>r. block_run alloc free ops s h held = Inr r"
  using assms(2-)
proof (induction ops arbitrary: s h held)
  case (Cons opn ops)
  show ?case
  proof (cases opn)
    case Alloc
    obtain a t g where a: "alloc s h = Inr (a, t, g)"
      using total [OF Cons.prems(1), of h] by auto
    then show ?thesis
      using Cons.IH [of t "if a = nullptr then held else a # held" g] Cons.prems Alloc
        alloc_step [OF Cons.prems(1) a] by (cases "a = nullptr") auto
  next
    case (Free i)
    show ?thesis
    proof (cases "i < length held")
      case True
      then have "held ! i \<in> live s"
        using Cons.prems(3) nth_mem by blast
      then obtain t where t: "free s (held ! i) = Inr t" "ok t" "live t = live s - {held ! i}"
        using free_step [OF Cons.prems(1), of "held ! i"] by blast
      then show ?thesis
        using Cons.IH [of t "take i held @ drop (Suc i) held" h] True Free Cons.prems
          set_remove_nth [of held i] by simp
    qed (use Cons Free in simp)
  qed
qed simp

end

lemma bmm_alloc_cases:
  assumes "bmm_ok m" and "bmm_allocateBlock m h = Inr (a, m', h')"
  shows "bmm_ok m' \<and> startAddress m' = startAddress m \<and> endAddress m' = endAddress m
    \<and> blockSize m' = blockSize m \<and>
    (if a = nullptr then bmm_live m' = bmm_live m
     else a \<notin> bmm_live m \<and> bmm_live m' = insert a (bmm_live m) \<and>
       (\<forall>b \<in> bmm_live m. span a (blockSize m) \<inter> span b (blockSize m) = {}))"
proof (cases "used (bmm_bitmap m) = {..<unat (blocks (bmm_bitmap m))}")
  case True
  then show ?thesis
    using bmm_allocateBlock_full [OF assms(1) True, of h] assms(2) by auto
next
  case False
  define i where "i = unat (fst (findAndSet (bmm_bitmap m)))"
  have shape: "bmm_shape m"
    using assms(1) by (simp add: bmm_ok_def)
  from bmm_allocateBlock_free [OF assms(1) False, of h] assms(2)
  have m': "a = bmm_addr m i" "bmm_ok m'" "i < unat (blocks (bmm_bitmap m))" "i \<notin> used (bmm_bitmap m)"
      "bmm_live m' = insert a (bmm_live m)" "startAddress m' = startAddress m"
      "endAddress m' = endAddress m" "blockSize m' = blockSize m"
    by (auto simp: i_def)
  have "span a (blockSize m) \<inter> span b (blockSize m) = {}" if "b \<in> bmm_live m" for b
    using that m'(1,3,4) bmm_addr_span [OF shape m'(3)] used_bound [of "bmm_bitmap m"]
    by (auto simp: bmm_live_def)
  then show ?thesis
    using m' bmm_addr_nonnull [OF shape m'(3)] bmm_live_iff [OF shape m'(3)] by auto
qed

interpretation bmm: block_manager bmm_allocateBlock bmm_freeBlock bmm_live blockSize bmm_ok
proof
  show "bmm_ok s' \<and> blockSize s' = blockSize s \<and>
      (if a = nullptr then bmm_live s' = bmm_live s
       else a \<notin> bmm_live s \<and> bmm_live s' = insert a (bmm_live s) \<and>
         (\<forall>b \<in> bmm_live s. span a (blockSize s) \<inter> span b (blockSize s) = {}))"
    if "bmm_ok s" and "bmm_allocateBlock s h = Inr (a, s', h')" for s h a s' h'
    using bmm_alloc_cases [OF that] by blast
  show "\<exists>s'. bmm_freeBlock s a = Inr s' \<and> bmm_ok s' \<and> blockSize s' = blockSize s \<and>
      bmm_live s' = bmm_live s - {a}"
    if "bmm_ok s" and "a \<in> bmm_live s" for s a
    using bmm_freeBlock_live [OF that] by blast
qed

lemma bmm_allocate_space:
  assumes "bmm_ok m" and "used (bmm_bitmap m) \<noteq> {..<unat (blocks (bmm_bitmap m))}"
  shows "\<exists>a m' h'. bmm_allocateBlock m h = Inr (a, m', h') \<and> a \<noteq> nullptr \<and> a \<notin> bmm_live m
    \<and> bmm_live m' = insert a (bmm_live m) \<and> blocks (bmm_bitmap m') = blocks (bmm_bitmap m)"
proof -
  define i where "i = unat (fst (findAndSet (bmm_bitmap m)))"
  have shape: "bmm_shape m"
    using assms(1) by (simp add: bmm_ok_def)
  from bmm_allocateBlock_free [OF assms, of h] obtain m' h' where
    r: "bmm_allocateBlock m h = Inr (bmm_addr m i, m', h')" "bmm_ok m'" "i < unat (blocks (bmm_bitmap m))"
      "i \<notin> used (bmm_bitmap m)" "bmm_live m' = insert (bmm_addr m i) (bmm_live m)"
      "startAddress m' = startAddress m" "endAddress m' = endAddress m" "blockSize m' = blockSize m"
    by (auto simp: i_def)
  have "blocks (bmm_bitmap m') = blocks (bmm_bitmap m)"
    using r(2,6-8) shape by (simp add: bmm_ok_def bmm_shape_def bmm_total_def word_unat_eq_iff)
  then show ?thesis
    using r bmm_addr_nonnull [OF shape r(3)] bmm_live_iff [OF shape r(3)] by blast
qed

lemma bmm_allocateBlock_total: "bmm_ok m \<Longrightarrow> \<exists>r. bmm_allocateBlock m h = Inr r"
  using bmm_allocateBlock_full bmm_allocateBlock_free by blast

lemma bmm_new_ok:
  assumes "1 < bs" and "0 < s" and "s \<le> e"
  shows "bmm_ok (BitmapMemoryManager_new s e bs z)"
    and "bmm_live (BitmapMemoryManager_new s e bs z) = {}"
proof -
  have "Suc (unat (e - s)) < 2 ^ 32"
    using assms(2,3) unat_lt_2_32 [of e]
    unfolding unat_sub [OF assms(3)] word_less_nat_alt word_le_nat_alt unat_0 by linarith
  then have "unat (e - s + 1) = Suc (unat e) - unat s"
    using assms(3) by (simp add: unat_inc unat_sub word_le_nat_alt Suc_diff_le)
  then show "bmm_ok (BitmapMemoryManager_new s e bs z)"
    using assms by (simp add: bmm_ok_def bmm_shape_def bmm_total_def BitmapMemoryManager_new_def unat_div)
qed (simp add: bmm_live_def BitmapMemoryManager_new_def)

lemma bmm_live_card: "bmm_ok m \<Longrightarrow> card (bmm_live m) = card (used (bmm_bitmap m))"
  unfolding bmm_live_def bmm_ok_def
  by (intro card_image inj_on_subset [OF bmm_addr_inj used_bound]) simp

lemma bmm_live_area:
  assumes "bmm_ok m" and "a \<in> bmm_live m"
  shows "span a (blockSize m) \<subseteq> {unat (startAddress m) .. unat (endAddress m)}"
proof -
  obtain i where i: "i < unat (blocks (bmm_bitmap m))" "a = bmm_addr m i"
    using assms(2) used_bound by (fastforce simp: bmm_live_def)
  have "bmm_shape m"
    using assms(1) by (simp add: bmm_ok_def)
  from bmm_addr_unat [OF this i(1)] show ?thesis
    by (auto simp: span_def i(2))
qed

lemma bmm_run_area:
  "bmm_ok s \<Longrightarrow> distinct held \<Longrightarrow> set held = bmm_live s \<Longrightarrow>
   block_run bmm_allocateBlock bmm_freeBlock ops s h held = Inr (s', h', held') \<Longrightarrow>
     startAddress s' = startAddress s \<and> endAddress s' = endAddress s"
proof (induction ops arbitrary: s h held)
  case (Cons opn ops)
  show ?case
  proof (cases opn)
    case Alloc
    then obtain a t g where a: "bmm_allocateBlock s h = Inr (a, t, g)"
      and r: "block_run bmm_allocateBlock bmm_freeBlock ops t g
        (if a = nullptr then held else a # held) = Inr (s', h', held')"
      using Cons.prems(4) by (auto simp: res_iff)
    show ?thesis
      using Cons.IH [OF _ _ _ r] bmm_alloc_cases [OF Cons.prems(1) a] Cons.prems(2,3)
      by (cases "a = nullptr") auto
  next
    case (Free i)
    show ?thesis
    proof (cases "i < length held")
      case True
      then have "held ! i \<in> bmm_live s"
        using Cons.prems(3) nth_mem by blast
      then show ?thesis
        using bmm_freeBlock_live [OF Cons.prems(1)] Cons.IH [of _ "take i held @ drop (Suc i) held" h]
          True Free Cons.prems set_remove_nth [of held i] by fastforce
    qed (use Cons Free in simp)
  qed
qed simp

text \<open>
  C2. Block allocation: on a fresh \<open>BitmapMemoryManager\<close> every sequence of \<open>allocateBlock\<close> and
  \<open>freeBlock\<close> calls of a client that frees only blocks it holds succeeds without an exception.
  At every moment the held blocks are pairwise disjoint and inside the managed area, and
  \<open>freeMemory\<close> is the size of the area minus the size of the held blocks.
\<close>

theorem block_runs_correct:
  assumes "1 < bs" and "0 < s" and "s \<le> e"
  shows "\<exists>m h' held.
    block_run bmm_allocateBlock bmm_freeBlock ops (BitmapMemoryManager_new s e bs z) h [] = Inr (m, h', held)
    \<and> distinct held \<and> disjoint_blocks bs (set held)
    \<and> (\<forall>a \<in> set held. span a bs \<subseteq> {unat s .. unat e})
    \<and> unat (freeMemory m) + length held * unat bs = Suc (unat e) - unat s"
proof -
  let ?m = "BitmapMemoryManager_new s e bs z"
  note new = bmm_new_ok [OF assms, of z]
  have st: "startAddress ?m = s" "endAddress ?m = e" "blockSize ?m = bs"
    by (simp_all add: BitmapMemoryManager_new_def)
  obtain m h' held where r: "block_run bmm_allocateBlock bmm_freeBlock ops ?m h [] = Inr (m, h', held)"
    using bmm.run_total [OF bmm_allocateBlock_total new(1), of "[]" ops h] new(2) by auto
  have d: "bmm_ok m" "distinct held" "set held = bmm_live m" "blockSize m = bs" "disjoint_blocks bs (bmm_live m)"
    using bmm.run_sound [OF new(1) _ _ _ r] new(2) st by (auto simp: disjoint_blocks_def)
  have a: "startAddress m = s" "endAddress m = e"
    using bmm_run_area [OF new(1) _ _ r] new(2) st by auto
  have "length held = card (used (bmm_bitmap m))"
    using bmm_live_card [OF d(1)] distinct_card [OF d(2)] d(3) by simp
  then have "unat (freeMemory m) + length held * unat bs = Suc (unat e) - unat s"
    using d(1,4) a by (simp add: bmm_ok_def bmm_total_def)
  then show ?thesis
    using r d a bmm_live_area [OF d(1)] by auto
qed

theorem block_runs_correct_witness:
  "\<exists>m h' held.
    block_run bmm_allocateBlock bmm_freeBlock [Alloc, Alloc, Free 1]
      (BitmapMemoryManager_new 0x100000 0x1fffff 0x1000 True) (\<lambda>_. 0) [] = Inr (m, h', held)
    \<and> unat (freeMemory m) + length held * 0x1000 = 0x100000"
  using block_runs_correct [of "0x1000" "0x100000" "0x1fffff" "[Alloc, Alloc, Free 1]" True "\<lambda>_. 0"]
  by auto

section \<open>Marking a range\<close>

lemma bmm_setRange_from_spec:
  assumes "bm_wf b" and "unat startBlock + unat blockCount < 2 ^ 32" and "i \<le> blockCount"
    and "bmm_setRange_from b startBlock blockCount i = (fin, b')"
  shows "bm_wf b' \<and> blocks b' = blocks b \<and>
    used b' = used b \<union> {j. unat startBlock + unat i \<le> j \<and> j < unat startBlock + unat blockCount \<and>
      j < unat (blocks b)} \<and>
    (fin \<longleftrightarrow> i = blockCount \<or> unat startBlock + unat blockCount \<le> unat (blocks b))"
  using assms
proof (induction b startBlock blockCount i arbitrary: fin b' rule: bmm_setRange_from.induct)
  case (1 b s n i)
  have si: "unat (s + i) = unat s + unat i"
    using "1.prems"(2,3) by (simp add: unat_word_ariths(1) word_le_nat_alt)
  consider (stop) "i = n" | (leave) "i < n" "blocks b \<le> s + i" | (go) "i < n" "s + i < blocks b"
    using "1.prems"(3) by fastforce
  then show ?case
  proof cases
    case stop
    then show ?thesis
      using "1.prems" by (auto simp: bmm_setRange_from.simps [of b s n n])
  next
    case leave
    then show ?thesis
      using "1.prems" si by (auto simp: bmm_setRange_from.simps [of b s n i] word_le_nat_alt word_less_nat_alt)
  next
    case go
    let ?b = "bm_set b (s + i)"
    have i1: "unat (i + 1) = Suc (unat i)" "i + 1 \<le> n"
      using go(1) by (auto intro: unat_less_suc) (simp add: inc_le)
    have b: "bm_wf ?b" "blocks ?b = blocks b" "used ?b = insert (unat s + unat i) (used b)"
      using bm_set_used [OF "1.prems"(1), of "s + i"] go(2) si by auto
    have "bmm_setRange_from ?b s n (i + 1) = (fin, b')"
      using "1.prems"(4) go linorder_not_le [THEN iffD2, OF go(2)]
      by (simp add: bmm_setRange_from.simps [of b s n i] split: if_splits)
    from "1.IH" [OF go(1) _ b(1) "1.prems"(2) i1(2) this] go(2)
    have ih: "bm_wf b' \<and> blocks b' = blocks b \<and>
        used b' = insert (unat s + unat i) (used b) \<union>
          {j. unat s + Suc (unat i) \<le> j \<and> j < unat s + unat n \<and> j < unat (blocks b)} \<and>
        (fin \<longleftrightarrow> i + 1 = n \<or> unat s + unat n \<le> unat (blocks b))"
      by (simp only: b i1(1) not_le simp_thms)
    have lt: "unat s + unat i < unat (blocks b)" "unat i < unat n"
      using go by (simp_all add: word_less_nat_alt si)
    then have "insert (unat s + unat i) (used b) \<union>
          {j. unat s + Suc (unat i) \<le> j \<and> j < unat s + unat n \<and> j < unat (blocks b)} =
        used b \<union> {j. unat s + unat i \<le> j \<and> j < unat s + unat n \<and> j < unat (blocks b)}"
      by auto
    moreover have "unat s + unat n \<le> unat (blocks b)" if "i + 1 = n"
      using lt(1) i1(1) that by simp
    ultimately show ?thesis
      using ih go(1) by auto
  qed
qed

lemma bmm_setRange_ok:
  assumes "bmm_ok m" and "unat n \<le> unat (blocks (bmm_bitmap m))" and "used (bmm_bitmap m) = {}"
  shows "bmm_ok (bmm_setRange m 0 n)" and "used (bmm_bitmap (bmm_setRange m 0 n)) = {..<unat n}"
proof -
  obtain fin b where f: "bmm_setRange_from (bmm_bitmap m) 0 n 0 = (fin, b)"
    by fastforce
  have wf: "bm_wf (bmm_bitmap m)" and shape: "bmm_shape m"
    using assms(1) by (simp_all add: bmm_ok_def bmm_shape_def)
  have b: "bm_wf b" "blocks b = blocks (bmm_bitmap m)" "used b = {..<unat n}" "fin"
    using bmm_setRange_from_spec [OF wf _ _ f] assms(2,3) by auto
  have "unat n * unat (blockSize m) \<le> bmm_total m"
    using assms(2) shape unfolding bmm_shape_def
    by (metis div_times_less_eq_dividend le_trans mult_le_mono1)
  moreover have "unat (freeMemory m) = bmm_total m"
    using assms(1,3) by (simp add: bmm_ok_def)
  ultimately have "unat (n * blockSize m) = unat n * unat (blockSize m)"
      "n * blockSize m \<le> freeMemory m"
    using unat_lt_2_32 [of "freeMemory m"] by (simp_all add: unat_word_ariths(2) word_le_nat_alt)
  then have "unat (freeMemory m - n * blockSize m) = unat (freeMemory m) - unat n * unat (blockSize m)"
    by (simp add: unat_sub)
  then show "bmm_ok (bmm_setRange m 0 n)" and "used (bmm_bitmap (bmm_setRange m 0 n)) = {..<unat n}"
    using b shape \<open>unat (freeMemory m) = bmm_total m\<close> \<open>unat n * unat (blockSize m) \<le> bmm_total m\<close>
    by (simp_all add: bmm_setRange_def f bmm_ok_def bmm_shape_def bmm_total_def)
qed

end
