(* ===== verification/Table_Managers.thy ===== *)
theory Table_Managers
  imports Block_Managers
begin

text \<open>
  \<^verbatim>\<open>Kernel::TableMemoryManager\<close> and \<^verbatim>\<open>Kernel::PageFrameAllocator\<close> (kernel/memory): page frames
  with use counts in a two-level table. The first level (reference tables) holds a lock bit, an
  installed bit and the address of a second-level allocation table; the second level holds a
  reserved bit and the use count of each frame. Allocation tables are created on demand from the
  bitmap memory manager below, which is the parameter \<open>alloc\<close>; what the table manager needs of
  it is the locale \<open>table_blocks\<close>, interpreted on the bitmap memory manager. A new block is
  zeroed by its source. \<open>None\<close> is a call that never returns (waiting for a lock nobody releases).
\<close>

section \<open>Table entries\<close>

subsection \<open>Reference table entries\<close>

text \<open>The compare loops of the setters end in the first round when no other thread interferes.\<close>

definition re_setAddress :: "u32 \<Rightarrow> u32 \<Rightarrow> u32" where
  "re_setAddress v address =
     (let exchangeValue = (v AND 0xf) OR (address AND 0xfffffff0);
          (oldValue, v', env) = getAndSet [] v exchangeValue
      in v')"

definition re_setInstalled :: "u32 \<Rightarrow> bool \<Rightarrow> u32" where
  "re_setInstalled v installed = (if installed then bitSet v 3 else bitReset v 3)"

definition re_tryAcquireLock :: "u32 \<Rightarrow> bool \<times> u32" where
  "re_tryAcquireLock v = (let (old, v') = bitTestAndSet v 2 in (\<not> old, v'))"

definition re_releaseLock :: "u32 \<Rightarrow> u32" where
  "re_releaseLock v = bitReset v 2"

definition re_getAddress :: "u32 \<Rightarrow> u32" where
  "re_getAddress v = v AND 0xfffffff0"

definition re_isInstalled :: "u32 \<Rightarrow> bool" where
  "re_isInstalled v = bitTest v 3"

definition re_isLocked :: "u32 \<Rightarrow> bool" where
  "re_isLocked v = bitTest v 2"

subsection \<open>Allocation table entries\<close>

definition ae_setReserved :: "u16 \<Rightarrow> bool \<Rightarrow> u16" where
  "ae_setReserved v reserved = (if reserved then bitSet v 0 else bitReset v 0)"

definition ae_setUseCount :: "u16 \<Rightarrow> u16 \<Rightarrow> u16" where
  "ae_setUseCount v useCount =
     (let exchangeValue = (v AND 1) OR push_bit 1 useCount;
          (oldValue, v', env) = getAndSet [] v exchangeValue
      in v')"

definition ae_incrementUseCount :: "u16 \<Rightarrow> u16 result" where
  "ae_incrementUseCount v =
     (let (oldValue, v') = fetchAndAdd v 2 in if oldValue + 2 \<le> oldValue then Inl PAGING_ERROR else Inr v')"

definition ae_decrementUseCount :: "u16 \<Rightarrow> u16 result" where
  "ae_decrementUseCount v =
     (let (oldValue, v') = fetchAndSub v 2 in if oldValue \<le> oldValue - 2 then Inl PAGING_ERROR else Inr v')"

definition ae_getUseCount :: "u16 \<Rightarrow> u16" where
  "ae_getUseCount v = drop_bit 1 v"

definition ae_isReserved :: "u16 \<Rightarrow> bool" where
  "ae_isReserved v = bitTest v 0"

section \<open>The manager\<close>

record TableIndex =
  referenceTableArrayIndex :: u32
  referenceTableIndex :: u32
  allocationTableIndex :: u32

record 'b TableMemoryManager =
  t_source :: 'b
  t_startAddress :: u32
  t_endAddress :: u32
  t_blockSize :: u32
  t_referenceTableSizeInBlocks :: u32
  t_allocationTableEntriesPerBlock :: u32
  t_managedMemoryPerAllocationTable :: u32
  t_referenceTableEntriesPerBlock :: u32
  t_allocationTableCount :: u32
  t_referenceTable :: "nat \<Rightarrow> nat \<Rightarrow> u32"
  t_tables :: "u32 \<Rightarrow> nat \<Rightarrow> u16"

definition set_ref :: "'b TableMemoryManager \<Rightarrow> nat \<Rightarrow> nat \<Rightarrow> u32 \<Rightarrow> 'b TableMemoryManager" where
  "set_ref t i j v = t\<lparr>t_referenceTable := (t_referenceTable t)(i := (t_referenceTable t i)(j := v))\<rparr>"

definition set_entry :: "'b TableMemoryManager \<Rightarrow> u32 \<Rightarrow> nat \<Rightarrow> u16 \<Rightarrow> 'b TableMemoryManager" where
  "set_entry t a k v = t\<lparr>t_tables := (t_tables t)(a := (t_tables t a)(k := v))\<rparr>"

text \<open>
  The loop over the reference table blocks in the constructor: every block comes from the source
  zeroed, and each of its entries is set to address zero and marked installed when it has an
  allocation table.
\<close>

fun init_refs :: "('b \<Rightarrow> (u32 \<times> 'b) result) \<Rightarrow> u32 \<Rightarrow> 'b TableMemoryManager \<Rightarrow> nat list \<Rightarrow> 'b TableMemoryManager result" where
  "init_refs alloc perBlock t [] = Inr t"
| "init_refs alloc perBlock t (i # is) =
     res_bind (alloc (t_source t)) (\<lambda>(block, src).
       init_refs alloc perBlock
         (t\<lparr>t_source := src,
            t_referenceTable := (t_referenceTable t)(i :=
              (\<lambda>j. re_setInstalled (re_setAddress 0 0) (of_nat i * perBlock + of_nat j < t_allocationTableCount t)))\<rparr>) is)"

definition TableMemoryManager_new ::
    "('b \<Rightarrow> (u32 \<times> 'b) result) \<Rightarrow> u32 \<Rightarrow> 'b \<Rightarrow> u32 \<Rightarrow> u32 \<Rightarrow> u32 \<Rightarrow> 'b TableMemoryManager result" where
  "TableMemoryManager_new alloc bitmapBlockSize src s e bs =
     (let memorySize = e - s + 1;
          blockCount = memorySize div bs
      in if blockCount = 0 then Inl DIVIDE_BY_ZERO
         else let blockCount = (if memorySize mod blockCount \<noteq> 0 then blockCount + 1 else blockCount)
              in if bitmapBlockSize < 16 then Inl INVALID_ARGUMENT
                 else let tableCount = (blockCount * 2) div bitmapBlockSize
                            + (if (blockCount * 2) mod bitmapBlockSize \<noteq> 0 then 1 else 0);
                          perBlock = bitmapBlockSize div 4;
                          refBlocks = tableCount div perBlock + (if tableCount mod perBlock \<noteq> 0 then 1 else 0);
                          perTable = bitmapBlockSize div 2
                      in init_refs alloc perBlock
                           \<lparr>t_source = src, t_startAddress = s, t_endAddress = e, t_blockSize = bs,
                            t_referenceTableSizeInBlocks = refBlocks,
                            t_allocationTableEntriesPerBlock = perTable,
                            t_managedMemoryPerAllocationTable = perTable * bs,
                            t_referenceTableEntriesPerBlock = perBlock,
                            t_allocationTableCount = tableCount,
                            t_referenceTable = (\<lambda>_ _. 0), t_tables = (\<lambda>_ _. 0)\<rparr>
                           [0..<unat refBlocks])"

definition calculateIndex :: "'b TableMemoryManager \<Rightarrow> u32 \<Rightarrow> TableIndex" where
  "calculateIndex t address =
     (let referenceTableAddress = (address div t_blockSize t) * t_blockSize t;
          refIndex = referenceTableAddress div t_managedMemoryPerAllocationTable t;
          allocationTableAddress = address mod t_managedMemoryPerAllocationTable t;
          allocIndex = allocationTableAddress div t_blockSize t
      in \<lparr>referenceTableArrayIndex = refIndex div t_referenceTableEntriesPerBlock t,
          referenceTableIndex = refIndex mod t_referenceTableEntriesPerBlock t,
          allocationTableIndex = allocIndex\<rparr>)"

definition calculateAddress :: "'b TableMemoryManager \<Rightarrow> TableIndex \<Rightarrow> u32" where
  "calculateAddress t index =
     referenceTableArrayIndex index * t_referenceTableEntriesPerBlock t * t_managedMemoryPerAllocationTable t
     + referenceTableIndex index * t_managedMemoryPerAllocationTable t
     + allocationTableIndex index * t_blockSize t"

text \<open>
  The code that creates a missing allocation table, shared by three operations. The blocks of the
  source arrive zeroed: it is a bitmap memory manager with \<open>zeroMemory\<close>, as the paging area manager is.
\<close>

definition install_table :: "('b \<Rightarrow> (u32 \<times> 'b) result) \<Rightarrow> 'b TableMemoryManager \<Rightarrow> nat \<Rightarrow> nat \<Rightarrow> 'b TableMemoryManager result" where
  "install_table alloc t i j =
     (if re_getAddress (t_referenceTable t i j) = 0
      then res_bind (alloc (t_source t)) (\<lambda>(block, src).
             Inr (set_ref (t\<lparr>t_source := src, t_tables := (t_tables t)(block := (\<lambda>_. 0))\<rparr>) i j
                    (re_setAddress (t_referenceTable t i j) block)))
      else Inr t)"

text \<open>
  The inclusive ranges of the nested loops. The bounds of the inner ones depend on whether the
  outer index is the first or the last one.
\<close>

definition j_range :: "'b TableMemoryManager \<Rightarrow> TableIndex \<Rightarrow> TableIndex \<Rightarrow> nat \<Rightarrow> nat \<times> nat" where
  "j_range t startIndex endIndex i =
     (if i = unat (referenceTableArrayIndex startIndex) then unat (referenceTableIndex startIndex) else 0,
      if i = unat (referenceTableArrayIndex endIndex) then unat (referenceTableIndex endIndex)
      else unat (t_referenceTableEntriesPerBlock t - 1))"

definition k_range :: "'b TableMemoryManager \<Rightarrow> TableIndex \<Rightarrow> TableIndex \<Rightarrow> nat \<times> nat \<Rightarrow> nat \<Rightarrow> nat list" where
  "k_range t startIndex endIndex jr j =
     [if j = fst jr then unat (allocationTableIndex startIndex) else 0
      ..< Suc (if j = snd jr then unat (allocationTableIndex endIndex)
               else unat (t_allocationTableEntriesPerBlock t - 1))]"

definition i_range :: "TableIndex \<Rightarrow> TableIndex \<Rightarrow> nat list" where
  "i_range startIndex endIndex =
     [unat (referenceTableArrayIndex startIndex)..<Suc (unat (referenceTableArrayIndex endIndex))]"

subsection \<open>setMemory\<close>

fun set_entries :: "'b TableMemoryManager \<Rightarrow> u32 \<Rightarrow> u16 \<Rightarrow> bool \<Rightarrow> nat list \<Rightarrow> 'b TableMemoryManager" where
  "set_entries t a useCount reserved [] = t"
| "set_entries t a useCount reserved (k # ks) =
     set_entries (set_entry t a k (ae_setUseCount (ae_setReserved (t_tables t a k) reserved) useCount)) a useCount reserved ks"

fun set_refs ::
    "('b \<Rightarrow> (u32 \<times> 'b) result) \<Rightarrow> TableIndex \<Rightarrow> TableIndex \<Rightarrow> u16 \<Rightarrow> bool \<Rightarrow> nat \<Rightarrow> 'b TableMemoryManager
     \<Rightarrow> nat list \<Rightarrow> 'b TableMemoryManager result option" where
  "set_refs alloc s e useCount reserved i t [] = Some (Inr t)"
| "set_refs alloc s e useCount reserved i t (j # js) =
     (case re_tryAcquireLock (t_referenceTable t i j) of (acquired, v) \<Rightarrow>
        if \<not> acquired then None
        else case install_table alloc (set_ref t i j v) i j of
               Inl err \<Rightarrow> Some (Inl err)
             | Inr t \<Rightarrow>
                 let a = re_getAddress (t_referenceTable t i j);
                     t = set_entries t a useCount reserved (k_range t s e (j_range t s e i) j);
                     t = set_ref t i j (re_releaseLock (t_referenceTable t i j))
                 in set_refs alloc s e useCount reserved i t js)"

fun set_arrays ::
    "('b \<Rightarrow> (u32 \<times> 'b) result) \<Rightarrow> TableIndex \<Rightarrow> TableIndex \<Rightarrow> u16 \<Rightarrow> bool \<Rightarrow> 'b TableMemoryManager
     \<Rightarrow> nat list \<Rightarrow> 'b TableMemoryManager result option" where
  "set_arrays alloc s e useCount reserved t [] = Some (Inr t)"
| "set_arrays alloc s e useCount reserved t (i # is) =
     (case j_range t s e i of (a, b) \<Rightarrow>
        case set_refs alloc s e useCount reserved i t [a..<Suc b] of
          None \<Rightarrow> None
        | Some (Inl err) \<Rightarrow> Some (Inl err)
        | Some (Inr t) \<Rightarrow> set_arrays alloc s e useCount reserved t is)"

definition tmm_setMemory ::
    "('b \<Rightarrow> (u32 \<times> 'b) result) \<Rightarrow> 'b TableMemoryManager \<Rightarrow> u32 \<Rightarrow> u32 \<Rightarrow> u16 \<Rightarrow> bool
     \<Rightarrow> 'b TableMemoryManager result option" where
  "tmm_setMemory alloc t start end' useCount reserved =
     (let s = calculateIndex t start; e = calculateIndex t end'
      in set_arrays alloc s e useCount reserved t (i_range s e))"

subsection \<open>Allocation\<close>

definition tmm_allocateBlockAtAddress ::
    "('b \<Rightarrow> (u32 \<times> 'b) result) \<Rightarrow> 'b TableMemoryManager \<Rightarrow> u32 \<Rightarrow> (u32 \<times> 'b TableMemoryManager) result" where
  "tmm_allocateBlockAtAddress alloc t address =
     (if t_endAddress t < address then Inr (address, t)
      else let index = calculateIndex t address;
               i = unat (referenceTableArrayIndex index); j = unat (referenceTableIndex index);
               k = unat (allocationTableIndex index)
           in res_bind (install_table alloc t i j) (\<lambda>t.
                let a = re_getAddress (t_referenceTable t i j)
                in res_bind (ae_incrementUseCount (t_tables t a k)) (\<lambda>v.
                     Inr (calculateAddress t index, set_entry t a k v))))"

text \<open>\<open>None\<close>: the frame has no allocation table yet, and the code accesses a table at address zero.\<close>

definition tmm_freeBlock :: "'b TableMemoryManager \<Rightarrow> u32 \<Rightarrow> 'b TableMemoryManager outcome" where
  "tmm_freeBlock t pointer =
     (if t_endAddress t < pointer then Some (Inr t)
      else let index = calculateIndex t pointer;
               i = unat (referenceTableArrayIndex index); j = unat (referenceTableIndex index);
               k = unat (allocationTableIndex index);
               a = re_getAddress (t_referenceTable t i j)
           in if a = 0 then None
              else Some (res_bind (ae_decrementUseCount (t_tables t a k)) (\<lambda>v. Inr (set_entry t a k v))))"

fun scan_table :: "(nat \<Rightarrow> u16) \<Rightarrow> nat list \<Rightarrow> nat option" where
  "scan_table tb [] = None"
| "scan_table tb (k # ks) =
     (if ae_isReserved (tb k) \<or> 0 < ae_getUseCount (tb k) then scan_table tb ks else Some k)"

fun alloc_refs ::
    "('b \<Rightarrow> (u32 \<times> 'b) result) \<Rightarrow> TableIndex \<Rightarrow> TableIndex \<Rightarrow> nat \<Rightarrow> 'b TableMemoryManager \<Rightarrow> nat list
     \<Rightarrow> ((nat \<times> nat \<times> nat) option \<times> 'b TableMemoryManager) result" where
  "alloc_refs alloc s e i t [] = Inr (None, t)"
| "alloc_refs alloc s e i t (j # js) =
     (case re_tryAcquireLock (t_referenceTable t i j) of (acquired, v) \<Rightarrow>
        if \<not> acquired then alloc_refs alloc s e i (set_ref t i j v) js
        else res_bind (install_table alloc (set_ref t i j v) i j) (\<lambda>t.
               let a = re_getAddress (t_referenceTable t i j)
               in case scan_table (t_tables t a) (k_range t s e (j_range t s e i) j) of
                    Some k \<Rightarrow>
                      res_bind (ae_incrementUseCount (t_tables t a k)) (\<lambda>w.
                        let t = set_entry t a k w
                        in Inr (Some (i, j, k), set_ref t i j (re_releaseLock (t_referenceTable t i j))))
                  | None \<Rightarrow> alloc_refs alloc s e i (set_ref t i j (re_releaseLock (t_referenceTable t i j))) js))"

fun alloc_arrays ::
    "('b \<Rightarrow> (u32 \<times> 'b) result) \<Rightarrow> TableIndex \<Rightarrow> TableIndex \<Rightarrow> 'b TableMemoryManager \<Rightarrow> nat list
     \<Rightarrow> ((nat \<times> nat \<times> nat) option \<times> 'b TableMemoryManager) result" where
  "alloc_arrays alloc s e t [] = Inr (None, t)"
| "alloc_arrays alloc s e t (i # is) =
     (case j_range t s e i of (a, b) \<Rightarrow>
        res_bind (alloc_refs alloc s e i t [a..<Suc b]) (\<lambda>(found, t).
          case found of Some ijk \<Rightarrow> Inr (Some ijk, t) | None \<Rightarrow> alloc_arrays alloc s e t is))"

definition tmm_allocateBlockAfterAddress ::
    "('b \<Rightarrow> (u32 \<times> 'b) result) \<Rightarrow> 'b TableMemoryManager \<Rightarrow> u32 \<Rightarrow> (u32 \<times> 'b TableMemoryManager) result" where
  "tmm_allocateBlockAfterAddress alloc t address =
     (let s = calculateIndex t address; e = calculateIndex t (t_endAddress t)
      in res_bind (alloc_arrays alloc s e t (i_range s e)) (\<lambda>(found, t).
           case found of
             None \<Rightarrow> Inr (nullptr, t)
           | Some (i, j, k) \<Rightarrow>
               Inr (calculateAddress t \<lparr>referenceTableArrayIndex = of_nat i, referenceTableIndex = of_nat j,
                                        allocationTableIndex = of_nat k\<rparr>, t)))"

definition tmm_allocateBlock ::
    "('b \<Rightarrow> (u32 \<times> 'b) result) \<Rightarrow> 'b TableMemoryManager \<Rightarrow> (u32 \<times> 'b TableMemoryManager) result" where
  "tmm_allocateBlock alloc t = tmm_allocateBlockAfterAddress alloc t (t_startAddress t)"

definition tmm_getTotalMemory :: "'b TableMemoryManager \<Rightarrow> u32" where
  "tmm_getTotalMemory t = t_endAddress t - t_startAddress t + 1"

fun free_entries :: "u32 \<Rightarrow> (nat \<Rightarrow> u16) \<Rightarrow> u32 \<Rightarrow> nat list \<Rightarrow> u32" where
  "free_entries bs tb free [] = free"
| "free_entries bs tb free (k # ks) = free_entries bs tb (if ae_getUseCount (tb k) = 0 then free + bs else free) ks"

fun free_refs :: "'b TableMemoryManager \<Rightarrow> u32 \<Rightarrow> (nat \<times> nat) list \<Rightarrow> u32" where
  "free_refs t free [] = free"
| "free_refs t free ((i, j) # ijs) =
     (let v = t_referenceTable t i j
      in if \<not> re_isInstalled v then free_refs t free ijs
         else if re_getAddress v = 0 then free_refs t (free + t_managedMemoryPerAllocationTable t) ijs
         else free_refs t (free_entries (t_blockSize t) (t_tables t (re_getAddress v)) free
                             [0..<unat (t_allocationTableEntriesPerBlock t)]) ijs)"

definition tmm_getFreeMemory :: "'b TableMemoryManager \<Rightarrow> u32 \<Rightarrow> u32" where
  "tmm_getFreeMemory t bitmapBlockSize =
     free_refs t 0 (List.product [0..<unat (t_referenceTableSizeInBlocks t)] [0..<unat (bitmapBlockSize div 4)])"

subsection \<open>Page frame allocator\<close>

text \<open>\<open>maxDma\<close> is \<^verbatim>\<open>Device::Isa::MAX_DMA_ADDRESS\<close>, \<open>kernelEnd\<close> a symbol of the linker.\<close>

definition pfa_allocateBlock ::
    "('b \<Rightarrow> (u32 \<times> 'b) result) \<Rightarrow> u32 \<Rightarrow> u32 \<Rightarrow> 'b TableMemoryManager \<Rightarrow> (u32 \<times> 'b TableMemoryManager) result" where
  "pfa_allocateBlock alloc maxDma kernelEnd t =
     res_bind (tmm_allocateBlockAfterAddress alloc t maxDma) (\<lambda>(ret, t).
       if ret \<noteq> nullptr then Inr (ret, t)
       else res_bind (tmm_allocateBlockAfterAddress alloc t kernelEnd) (\<lambda>(ret, t).
              if ret \<noteq> nullptr then Inr (ret, t) else tmm_allocateBlock alloc t))"

section \<open>Indices and addresses\<close>

definition geometry_ok :: "'b TableMemoryManager \<Rightarrow> bool" where
  "geometry_ok t \<longleftrightarrow> 0 < unat (t_blockSize t) \<and> 0 < unat (t_allocationTableEntriesPerBlock t) \<and>
     0 < unat (t_referenceTableEntriesPerBlock t) \<and>
     unat (t_managedMemoryPerAllocationTable t) = unat (t_allocationTableEntriesPerBlock t) * unat (t_blockSize t)"

lemma calculateIndex_nat:
  assumes "geometry_ok t"
  defines "B \<equiv> unat (t_blockSize t)" and "M \<equiv> unat (t_managedMemoryPerAllocationTable t)"
    and "R \<equiv> unat (t_referenceTableEntriesPerBlock t)"
  shows "unat (referenceTableArrayIndex (calculateIndex t a)) = unat a div M div R"
    and "unat (referenceTableIndex (calculateIndex t a)) = unat a div M mod R"
    and "unat (allocationTableIndex (calculateIndex t a)) = unat a mod M div B"
proof -
  have le: "unat a div B * B \<le> unat a"
    by simp
  then have "unat a div B * B < 2 ^ 32"
    using unat_lt_2_32 [of a] by linarith
  then have u: "unat ((a div t_blockSize t) * t_blockSize t) = unat a div B * B"
    by (simp add: B_def unat_word_ariths(2) unat_div_distrib)
  have M: "M = B * unat (t_allocationTableEntriesPerBlock t)" and B: "0 < B"
    using assms(1) by (simp_all add: geometry_ok_def M_def B_def mult.commute)
  have "unat a div B * B div M = unat a div M"
    unfolding M using B by (simp add: div_mult2_eq)
  then have ref: "unat ((a div t_blockSize t) * t_blockSize t div t_managedMemoryPerAllocationTable t) = unat a div M"
    using u by (simp add: unat_div_distrib M_def)
  show "unat (referenceTableArrayIndex (calculateIndex t a)) = unat a div M div R"
    "unat (referenceTableIndex (calculateIndex t a)) = unat a div M mod R"
    using ref by (simp_all add: calculateIndex_def Let_def unat_div_distrib unat_mod_distrib R_def)
  show "unat (allocationTableIndex (calculateIndex t a)) = unat a mod M div B"
    by (simp add: calculateIndex_def Let_def unat_div_distrib unat_mod_distrib M_def B_def)
qed

lemma calculateAddress_nat:
  "calculateAddress t index = of_nat
     (unat (referenceTableArrayIndex index) * unat (t_referenceTableEntriesPerBlock t) * unat (t_managedMemoryPerAllocationTable t)
      + unat (referenceTableIndex index) * unat (t_managedMemoryPerAllocationTable t)
      + unat (allocationTableIndex index) * unat (t_blockSize t))"
  by (simp add: calculateAddress_def)

text \<open>
  C19. The index calculation and the address calculation of the frame tables are inverse: the
  address of the index of \<open>a\<close> is the start of the block that contains \<open>a\<close>, and the index stays
  inside of its tables.
\<close>

theorem table_index_roundtrip:
  assumes "geometry_ok t"
  shows "calculateAddress t (calculateIndex t a) = a - a mod t_blockSize t \<and>
    referenceTableIndex (calculateIndex t a) < t_referenceTableEntriesPerBlock t \<and>
    allocationTableIndex (calculateIndex t a) < t_allocationTableEntriesPerBlock t"
proof (intro conjI)
  let ?n = "unat a" and ?B = "unat (t_blockSize t)" and ?M = "unat (t_managedMemoryPerAllocationTable t)"
    and ?R = "unat (t_referenceTableEntriesPerBlock t)"
  note idx = calculateIndex_nat [OF assms, of a]
  have M: "?M = unat (t_allocationTableEntriesPerBlock t) * ?B" and pos: "0 < ?B" "0 < ?R" "0 < ?M"
    using assms by (simp_all add: geometry_ok_def)
  have "?n div ?M div ?R * ?R * ?M + ?n div ?M mod ?R * ?M = ?n div ?M * ?M"
    by (metis add_mult_distrib div_mult_mod_eq)
  moreover have "?n mod ?M div ?B * ?B = ?n mod ?M - ?n mod ?B"
    by (simp add: M mod_mult2_eq [symmetric] minus_mod_eq_div_mult [symmetric] mod_mod_cancel)
  moreover have "?n mod ?B \<le> ?n mod ?M"
  proof -
    have "?n mod ?M mod ?B = ?n mod ?B"
      by (simp add: M mod_mod_cancel)
    then show ?thesis
      by (metis mod_less_eq_dividend)
  qed
  ultimately have "?n div ?M div ?R * ?R * ?M + ?n div ?M mod ?R * ?M + ?n mod ?M div ?B * ?B = ?n - ?n mod ?B"
    using div_mult_mod_eq [of ?n ?M] by linarith
  then have "calculateAddress t (calculateIndex t a) = of_nat (?n - ?n mod ?B)"
    unfolding calculateAddress_nat idx by simp
  also have "?n - ?n mod ?B = unat (a - a mod t_blockSize t)"
    by (subst unat_sub) (simp_all add: word_le_nat_alt unat_mod_distrib)
  also have "of_nat \<dots> = a - a mod t_blockSize t"
    by simp
  finally show "calculateAddress t (calculateIndex t a) = a - a mod t_blockSize t" .
  show "referenceTableIndex (calculateIndex t a) < t_referenceTableEntriesPerBlock t"
    using pos by (simp add: word_less_nat_alt idx)
  have "?n mod ?M div ?B < unat (t_allocationTableEntriesPerBlock t)"
    using pos M by (simp add: div_less_iff_less_mult)
  then show "allocationTableIndex (calculateIndex t a) < t_allocationTableEntriesPerBlock t"
    by (simp add: word_less_nat_alt idx)
qed

text \<open>The page frame tables of the kernel: 4 KiB frames, 1024 references and 2048 frames per block.\<close>

theorem table_index_roundtrip_witness:
  "calculateAddress
     (\<lparr>t_source = (), t_startAddress = 0, t_endAddress = 0x3ffffff, t_blockSize = 0x1000,
       t_referenceTableSizeInBlocks = 1, t_allocationTableEntriesPerBlock = 0x800,
       t_managedMemoryPerAllocationTable = 0x800000, t_referenceTableEntriesPerBlock = 0x400,
       t_allocationTableCount = 8, t_referenceTable = (\<lambda>_ _. 0), t_tables = (\<lambda>_ _. 0)\<rparr> :: unit TableMemoryManager)
     (calculateIndex
       (\<lparr>t_source = (), t_startAddress = 0, t_endAddress = 0x3ffffff, t_blockSize = 0x1000,
         t_referenceTableSizeInBlocks = 1, t_allocationTableEntriesPerBlock = 0x800,
         t_managedMemoryPerAllocationTable = 0x800000, t_referenceTableEntriesPerBlock = 0x400,
         t_allocationTableCount = 8, t_referenceTable = (\<lambda>_ _. 0), t_tables = (\<lambda>_ _. 0)\<rparr> :: unit TableMemoryManager)
       0x1234567) = 0x1234000"
  using table_index_roundtrip [of "\<lparr>t_source = (), t_startAddress = 0, t_endAddress = 0x3ffffff,
    t_blockSize = 0x1000, t_referenceTableSizeInBlocks = 1, t_allocationTableEntriesPerBlock = 0x800,
    t_managedMemoryPerAllocationTable = 0x800000, t_referenceTableEntriesPerBlock = 0x400,
    t_allocationTableCount = 8, t_referenceTable = (\<lambda>_ _. 0), t_tables = (\<lambda>_ _. 0)\<rparr>" "0x1234567"]
  by (simp add: geometry_ok_def)

section \<open>Frames\<close>

subsection \<open>Entries as bit patterns\<close>

lemma re_setAddress_eq: "re_setAddress v a = (v AND 0xf) OR (a AND 0xfffffff0)"
  by (simp add: re_setAddress_def)

lemma low_mask: "(0xf :: u32) = mask 4" and high_mask: "(0xfffffff0 :: u32) = NOT (mask 4)"
  by (simp_all add: mask_eq_exp_minus_1)

lemma bit_low: "bit (0xf :: u32) n \<longleftrightarrow> n < 4"
  by (simp only: low_mask bit_mask_iff) auto

lemma bit_high: "bit (0xfffffff0 :: u32) n \<longleftrightarrow> 4 \<le> n \<and> n < 32"
  by (simp only: high_mask bit_not_iff bit_mask_iff) auto

lemma re_address_lock [simp]:
  "re_getAddress (set_bit 2 v) = re_getAddress v" "re_getAddress (unset_bit 2 v) = re_getAddress v"
  by (rule bit_word_eqI, auto simp: re_getAddress_def bit_simps bit_high)+

lemma re_address_set:
  assumes "a AND 0xf = 0"
  shows "re_getAddress (re_setAddress v a) = a"
proof (rule bit_word_eqI)
  fix n
  have "\<not> bit (a AND 0xf) n"
    using assms by simp
  then have "bit a n \<longrightarrow> 4 \<le> n"
    by (simp only: bit_and_iff bit_low) auto
  moreover assume "n < LENGTH(32)"
  ultimately show "bit (re_getAddress (re_setAddress v a)) n = bit a n"
    unfolding re_getAddress_def re_setAddress_eq bit_and_iff bit_or_iff bit_low bit_high by auto
qed

lemma re_lock_set: "bit (re_setAddress v a) 2 = bit v 2"
  by (simp add: re_setAddress_eq bit_simps bit_low bit_high)

lemma ae_free_iff: "(ae_isReserved v \<or> 0 < ae_getUseCount v) \<longleftrightarrow> v \<noteq> 0"
proof -
  have "v = 0" if "\<not> bit v 0" "drop_bit 1 v = 0"
  proof (rule bit_word_eqI)
    fix n
    have "\<not> bit (drop_bit 1 v) (n - 1)"
      using that(2) by simp
    then show "bit v n = bit 0 n"
      using that(1) by (cases n) (simp_all add: bit_drop_bit_eq)
  qed
  then show ?thesis
    by (auto simp: ae_isReserved_def ae_getUseCount_def bitTest_def word_gt_0)
qed

lemma ae_increment_free [simp]: "ae_incrementUseCount 0 = Inr 2"
  by (simp add: ae_incrementUseCount_def fetchAndAdd_def)

subsection \<open>The source of the allocation tables\<close>

locale table_blocks =
  fixes alloc :: "'b \<Rightarrow> (u32 \<times> 'b) result"
    and held :: "'b \<Rightarrow> u32 set"
    and room :: "'b \<Rightarrow> nat"
    and ok :: "'b \<Rightarrow> bool"
  assumes alloc_law: "ok b \<Longrightarrow> 0 < room b \<Longrightarrow>
    \<exists>a b'. alloc b = Inr (a, b') \<and> ok b' \<and> a \<noteq> 0 \<and> a AND 0xf = 0 \<and> a \<notin> held b \<and>
      held b' = insert a (held b) \<and> Suc (room b') = room b"

text \<open>
  \<open>entry\<close> is the abstract view of the two levels: the entry of frame \<open>(i, j, k)\<close>, zero when its
  table does not exist yet. Two references never share a table, and all tables are blocks the
  source has handed out.
\<close>

definition address_of :: "'b TableMemoryManager \<Rightarrow> nat \<Rightarrow> nat \<Rightarrow> u32" where
  "address_of t i j = re_getAddress (t_referenceTable t i j)"

definition entry :: "'b TableMemoryManager \<Rightarrow> nat \<times> nat \<times> nat \<Rightarrow> u16" where
  "entry t = (\<lambda>(i, j, k). if address_of t i j = 0 then 0 else t_tables t (address_of t i j) k)"

definition locked :: "'b TableMemoryManager \<Rightarrow> nat \<Rightarrow> nat \<Rightarrow> bool" where
  "locked t i j = re_isLocked (t_referenceTable t i j)"

definition same_shape :: "'b TableMemoryManager \<Rightarrow> 'b TableMemoryManager \<Rightarrow> bool" where
  "same_shape t t' \<longleftrightarrow> t_startAddress t' = t_startAddress t \<and> t_endAddress t' = t_endAddress t \<and>
     t_blockSize t' = t_blockSize t \<and> t_allocationTableEntriesPerBlock t' = t_allocationTableEntriesPerBlock t \<and>
     t_managedMemoryPerAllocationTable t' = t_managedMemoryPerAllocationTable t \<and>
     t_referenceTableEntriesPerBlock t' = t_referenceTableEntriesPerBlock t"

definition tables_ok :: "('b \<Rightarrow> u32 set) \<Rightarrow> ('b \<Rightarrow> bool) \<Rightarrow> 'b TableMemoryManager \<Rightarrow> bool" where
  "tables_ok held ok t \<longleftrightarrow> ok (t_source t) \<and>
     (\<forall>i j. address_of t i j \<noteq> 0 \<longrightarrow> address_of t i j \<in> held (t_source t)) \<and>
     (\<forall>i j i' j'. address_of t i j \<noteq> 0 \<longrightarrow> address_of t i j = address_of t i' j' \<longrightarrow> i = i' \<and> j = j')"

text \<open>
  What a scan over the frames \<open>S\<close> does: it finds no frame because all of \<open>S\<close> is in use or locked,
  or it takes a free one of \<open>S\<close> and changes nothing else.
\<close>

definition scan_post ::
    "('b \<Rightarrow> u32 set) \<Rightarrow> ('b \<Rightarrow> bool) \<Rightarrow> (nat \<times> nat \<times> nat) set \<Rightarrow> 'b TableMemoryManager
     \<Rightarrow> (nat \<times> nat \<times> nat) option \<Rightarrow> 'b TableMemoryManager \<Rightarrow> bool" where
  "scan_post held ok S t found t' \<longleftrightarrow> tables_ok held ok t' \<and> same_shape t t' \<and> locked t' = locked t \<and>
     (case found of
        None \<Rightarrow> entry t' = entry t \<and> (\<forall>(i, j, k) \<in> S. locked t i j \<or> entry t (i, j, k) \<noteq> 0)
      | Some (i, j, k) \<Rightarrow> (i, j, k) \<in> S \<and> \<not> locked t i j \<and> entry t (i, j, k) = 0 \<and>
          entry t' = (entry t)((i, j, k) := 2))"

lemma same_shape_trans: "same_shape t t1 \<Longrightarrow> same_shape t1 t2 \<Longrightarrow> same_shape t t2"
  by (simp add: same_shape_def)

lemma scan_post_seq:
  assumes "scan_post held ok S t None t1" and "scan_post held ok S' t1 found t2"
  shows "scan_post held ok (S \<union> S') t found t2"
  using assms same_shape_trans [of t t1 t2]
  by (auto simp: scan_post_def split: option.splits)

lemma scan_post_refl: "tables_ok held ok t \<Longrightarrow> scan_post held ok {} t None t"
  by (simp add: scan_post_def same_shape_def)

lemma scan_table_spec:
  "scan_table tb ks = Some k \<Longrightarrow> k \<in> set ks \<and> tb k = 0"
  "scan_table tb ks = None \<Longrightarrow> \<forall>k \<in> set ks. tb k \<noteq> 0"
  by (induction ks) (auto simp: ae_free_iff split: if_splits)

lemma ref_upd [simp]:
  "t_referenceTable (set_ref t i j v) i' j' = (if i' = i \<and> j' = j then v else t_referenceTable t i' j')"
  "t_tables (set_ref t i j v) = t_tables t" "t_source (set_ref t i j v) = t_source t"
  "t_referenceTable (set_entry t a k w) = t_referenceTable t" "t_source (set_entry t a k w) = t_source t"
  "t_tables (set_entry t a k w) a' k' = (if a' = a \<and> k' = k then w else t_tables t a' k')"
  by (auto simp: set_ref_def set_entry_def)

lemma same_shape_upd [simp]:
  "same_shape t (set_ref t' i j v) = same_shape t t'" "same_shape t (set_entry t' a k w) = same_shape t t'"
  "same_shape t (t'\<lparr>t_source := src, t_tables := tb\<rparr>) = same_shape t t'" "same_shape t t"
  by (simp_all add: same_shape_def set_ref_def set_entry_def)

lemma address_upd [simp]:
  "address_of (set_ref t i j v) i' j' = (if i' = i \<and> j' = j then re_getAddress v else address_of t i' j')"
  "address_of (set_entry t a k w) = address_of t"
  "address_of (t\<lparr>t_source := src, t_tables := tb\<rparr>) = address_of t"
  by (auto simp: address_of_def fun_eq_iff)

context table_blocks
begin

lemma install_plain:
  assumes "tables_ok held ok t" and "0 < room (t_source t)"
  shows "\<exists>t1. install_table alloc t i j = Inr t1 \<and> tables_ok held ok t1 \<and> same_shape t t1 \<and>
    entry t1 = entry t \<and> address_of t1 i j \<noteq> 0 \<and> room (t_source t) \<le> Suc (room (t_source t1)) \<and>
    locked t1 = locked t \<and>
    (\<forall>i' j'. (i', j') \<noteq> (i, j) \<longrightarrow> t_referenceTable t1 i' j' = t_referenceTable t i' j')"
proof (cases "address_of t i j = 0")
  case True
  obtain a b' where a: "alloc (t_source t) = Inr (a, b')" "ok b'" "a \<noteq> 0" "a AND 0xf = 0" "a \<notin> held (t_source t)"
      "held b' = insert a (held (t_source t))" "Suc (room b') = room (t_source t)"
    using alloc_law [of "t_source t"] assms(1,2) by (auto simp: tables_ok_def)
  define t1 where "t1 = set_ref (t\<lparr>t_source := b', t_tables := (t_tables t)(a := (\<lambda>_. 0))\<rparr>) i j
    (re_setAddress (t_referenceTable t i j) a)"
  have src: "t_source t1 = b'" "t_tables t1 = (t_tables t)(a := (\<lambda>_. 0))"
    by (simp_all add: t1_def set_ref_def)
  have addr: "address_of t1 i' j' = (if i' = i \<and> j' = j then a else address_of t i' j')" for i' j'
    using re_address_set [OF a(4)] by (simp add: t1_def)
  have inst: "install_table alloc t i j = Inr t1"
    using True a(1) by (simp add: install_table_def t1_def address_of_def)
  have fresh: "address_of t i' j' \<noteq> a" for i' j'
    using assms(1) a(3,5) by (auto simp: tables_ok_def)
  have "tables_ok held ok t1"
    unfolding tables_ok_def addr src using assms(1) a fresh
    by (auto simp: tables_ok_def)
  moreover have "entry t1 = entry t"
    using fresh True a(3) by (auto simp: entry_def addr src fun_eq_iff)
  moreover have "locked t1 = locked t"
    by (auto simp: t1_def locked_def fun_eq_iff set_ref_def re_isLocked_def bitTest_def re_lock_set)
  moreover have "t_referenceTable t1 i' j' = t_referenceTable t i' j'" if "(i', j') \<noteq> (i, j)" for i' j'
    using that by (auto simp: t1_def set_ref_def)
  moreover have "same_shape t t1"
    by (simp add: t1_def)
  ultimately show ?thesis
    using inst addr a(3,7) src(1) by auto
next
  case False
  then show ?thesis
    using assms(1) by (auto simp: install_table_def address_of_def)
qed

text \<open>Locking first and creating the table then is invisible in the abstract view.\<close>

lemma install_spec:
  assumes "tables_ok held ok t" and "0 < room (t_source t)" and "\<not> locked t i j"
  defines "t0 \<equiv> set_ref t i j (set_bit 2 (t_referenceTable t i j))"
  shows "\<exists>t1. install_table alloc t0 i j = Inr t1 \<and> tables_ok held ok t1 \<and> same_shape t t1 \<and>
    entry t1 = entry t \<and> address_of t1 i j \<noteq> 0 \<and> room (t_source t) \<le> Suc (room (t_source t1)) \<and>
    (\<forall>i' j'. (i', j') \<noteq> (i, j) \<longrightarrow> t_referenceTable t1 i' j' = t_referenceTable t i' j')"
proof -
  have addr: "address_of t0 = address_of t" and tab: "t_tables t0 = t_tables t" and src: "t_source t0 = t_source t"
    by (auto simp: t0_def fun_eq_iff address_of_def)
  have "tables_ok held ok t0"
    using assms(1) unfolding tables_ok_def addr src .
  moreover have "entry t0 = entry t"
    unfolding entry_def addr tab ..
  moreover have "same_shape t t1" if "same_shape t0 t1" for t1
    using that by (simp add: same_shape_def t0_def set_ref_def)
  moreover have "t_referenceTable t0 i' j' = t_referenceTable t i' j'" if "(i', j') \<noteq> (i, j)" for i' j'
    using that by (auto simp: t0_def)
  ultimately show ?thesis
    using install_plain [of t0 i j] assms(2) src by fastforce
qed

end

lemma release_spec:
  assumes "tables_ok held ok t1" and "same_shape t t1" and "\<not> locked t i j"
    and "\<forall>i' j'. (i', j') \<noteq> (i, j) \<longrightarrow> t_referenceTable t1 i' j' = t_referenceTable t i' j'"
  defines "t2 \<equiv> set_ref t1 i j (re_releaseLock (t_referenceTable t1 i j))"
  shows "tables_ok held ok t2" and "same_shape t t2" and "locked t2 = locked t" and "entry t2 = entry t1"
    and "t_source t2 = t_source t1"
proof -
  have addr: "address_of t2 = address_of t1"
    by (auto simp: t2_def fun_eq_iff address_of_def re_releaseLock_def bitReset_def)
  have tab: "t_tables t2 = t_tables t1"
    by (simp add: t2_def)
  show "tables_ok held ok t2"
    using assms(1) unfolding tables_ok_def addr by (simp add: t2_def)
  show "same_shape t t2" "t_source t2 = t_source t1"
    using assms(2) by (simp_all add: t2_def)
  show "entry t2 = entry t1"
    unfolding entry_def addr tab ..
  show "locked t2 = locked t"
    using assms(3,4)
    by (auto simp: t2_def fun_eq_iff locked_def re_isLocked_def bitTest_def re_releaseLock_def bitReset_def bit_simps)
qed

lemma k_range_same: "same_shape t t' \<Longrightarrow> k_range t' s e (j_range t' s e i) j = k_range t s e (j_range t s e i) j"
  and j_range_same: "same_shape t t' \<Longrightarrow> j_range t' s e i = j_range t s e i"
  by (simp_all add: same_shape_def k_range_def j_range_def)

definition frames :: "'b TableMemoryManager \<Rightarrow> TableIndex \<Rightarrow> TableIndex \<Rightarrow> nat \<Rightarrow> nat list \<Rightarrow> (nat \<times> nat \<times> nat) set" where
  "frames t s e i js = {(i, j, k) | j k. j \<in> set js \<and> k \<in> set (k_range t s e (j_range t s e i) j)}"

lemma frames_Cons: "frames t s e i (j # js) = frames t s e i [j] \<union> frames t s e i js"
  by (auto simp: frames_def)

lemma frames_same: "same_shape t t' \<Longrightarrow> frames t' s e i js = frames t s e i js"
  by (simp add: frames_def k_range_same)

lemma entry_set_entry:
  assumes "tables_ok held ok t" and "address_of t i j \<noteq> 0"
  shows "entry (set_entry t (address_of t i j) k w) = (entry t)((i, j, k) := w)"
proof
  fix ijk :: "nat \<times> nat \<times> nat"
  obtain i' j' k' where x: "ijk = (i', j', k')"
    by (cases ijk)
  have "address_of t i' j' = address_of t i j \<longleftrightarrow> i' = i \<and> j' = j" if "address_of t i' j' \<noteq> 0"
    using assms(1) that unfolding tables_ok_def by metis
  then show "entry (set_entry t (address_of t i j) k w) ijk = ((entry t)((i, j, k) := w)) ijk"
    using assms(2) by (auto simp: x entry_def)
qed

lemma tables_ok_set_entry: "tables_ok held ok t \<Longrightarrow> tables_ok held ok (set_entry t a k w)"
  by (simp add: tables_ok_def)

text \<open>The frames that an allocation after \<open>address\<close> looks at, and a bound on the number of tables
  it creates.\<close>

definition scanned :: "'b TableMemoryManager \<Rightarrow> u32 \<Rightarrow> (nat \<times> nat \<times> nat) set" where
  "scanned t address =
     (let s = calculateIndex t address; e = calculateIndex t (t_endAddress t)
      in \<Union>i \<in> set (i_range s e). frames t s e i [fst (j_range t s e i)..<Suc (snd (j_range t s e i))])"

definition tables_needed :: "'b TableMemoryManager \<Rightarrow> u32 \<Rightarrow> nat" where
  "tables_needed t address =
     (let s = calculateIndex t address; e = calculateIndex t (t_endAddress t)
      in sum_list (map (\<lambda>i. Suc (snd (j_range t s e i))) (i_range s e)))"

context table_blocks
begin

lemma alloc_refs_spec:
  assumes "tables_ok held ok t" and "length js \<le> room (t_source t)"
  shows "\<exists>found t'. alloc_refs alloc s e i t js = Inr (found, t') \<and> scan_post held ok (frames t s e i js) t found t' \<and>
    room (t_source t) \<le> room (t_source t') + length js"
  using assms
proof (induction js arbitrary: t)
  case Nil
  then show ?case
    using scan_post_refl by (simp add: frames_def)
next
  case (Cons j js)
  let ?v = "t_referenceTable t i j"
  show ?case
  proof (cases "locked t i j")
    case True
    then have b: "bit ?v 2"
      by (simp add: locked_def re_isLocked_def bitTest_def)
    then have "set_bit 2 ?v = ?v"
      by (intro bit_word_eqI) (auto simp: bit_simps)
    then have step: "alloc_refs alloc s e i t (j # js) = alloc_refs alloc s e i t js"
      using b by (simp add: re_tryAcquireLock_def bitTestAndSet_def set_ref_def)
    have "scan_post held ok (frames t s e i [j]) t None t"
      using Cons.prems(1) True by (auto simp: scan_post_def frames_def)
    then show ?thesis
      using Cons.IH [of t] Cons.prems step scan_post_seq frames_Cons [of t s e i j js] by fastforce
  next
    case False
    then have nb: "\<not> bit ?v 2"
      by (simp add: locked_def re_isLocked_def bitTest_def)
    let ?t0 = "set_ref t i j (set_bit 2 ?v)"
    obtain t1 where t1: "install_table alloc ?t0 i j = Inr t1" "tables_ok held ok t1" "same_shape t t1" "entry t1 = entry t"
        "address_of t1 i j \<noteq> 0" "room (t_source t) \<le> Suc (room (t_source t1))"
        "\<forall>i' j'. (i', j') \<noteq> (i, j) \<longrightarrow> t_referenceTable t1 i' j' = t_referenceTable t i' j'"
      using install_spec [OF Cons.prems(1) _ False] Cons.prems(2) by auto
    let ?a = "address_of t1 i j" and ?ks = "k_range t s e (j_range t s e i) j"
    have step: "alloc_refs alloc s e i t (j # js) =
        (case scan_table (t_tables t1 ?a) ?ks of
           Some k \<Rightarrow> res_bind (ae_incrementUseCount (t_tables t1 ?a k)) (\<lambda>w.
             let t = set_entry t1 ?a k w in Inr (Some (i, j, k), set_ref t i j (re_releaseLock (t_referenceTable t i j))))
         | None \<Rightarrow> alloc_refs alloc s e i (set_ref t1 i j (re_releaseLock (t_referenceTable t1 i j))) js)"
      using nb t1(1) k_range_same [OF t1(3), of s e i j]
      by (simp add: re_tryAcquireLock_def bitTestAndSet_def address_of_def Let_def cong: option.case_cong)
    have ent: "entry t (i, j, k) = t_tables t1 ?a k" for k
      unfolding t1(4) [symmetric] using t1(5) by (simp add: entry_def)
    show ?thesis
    proof (cases "scan_table (t_tables t1 ?a) ?ks")
      case None
      let ?t2 = "set_ref t1 i j (re_releaseLock (t_referenceTable t1 i j))"
      note rel = release_spec [OF t1(2,3) False t1(7)]
      have post: "scan_post held ok (frames t s e i [j]) t None ?t2"
        using rel t1(4) scan_table_spec(2) [OF None] ent by (auto simp: scan_post_def frames_def)
      obtain found t' where r: "alloc_refs alloc s e i ?t2 js = Inr (found, t')"
          "scan_post held ok (frames ?t2 s e i js) ?t2 found t'" "room (t_source ?t2) \<le> room (t_source t') + length js"
        using Cons.IH [OF rel(1)] rel(5) t1(6) Cons.prems(2) by auto
      have "scan_post held ok (frames t s e i (j # js)) t found t'"
        unfolding frames_Cons [of t s e i j js] using scan_post_seq [OF post] r(2) frames_same [OF rel(2)] by simp
      then show ?thesis
        using step None r rel(5) t1(6) by auto
    next
      case (Some k)
      note k = scan_table_spec(1) [OF Some]
      let ?t2 = "set_entry t1 ?a k 2"
      have "same_shape t ?t2" and "\<forall>i' j'. (i', j') \<noteq> (i, j) \<longrightarrow> t_referenceTable ?t2 i' j' = t_referenceTable t i' j'"
        using t1(3,7) by simp_all
      note rel = release_spec [OF tables_ok_set_entry [OF t1(2)] this(1) False this(2)]
      have "scan_post held ok (frames t s e i (j # js)) t (Some (i, j, k))
          (set_ref ?t2 i j (re_releaseLock (t_referenceTable ?t2 i j)))"
        using rel k ent entry_set_entry [OF t1(2,5), of k 2] t1(4) False
        by (auto simp: scan_post_def frames_def)
      then show ?thesis
        using step Some k rel(5) t1(6) by (auto simp: Let_def)
    qed
  qed
qed

lemma alloc_arrays_spec:
  assumes "tables_ok held ok t"
    and "sum_list (map (\<lambda>i. Suc (snd (j_range t s e i))) is) \<le> room (t_source t)"
  shows "\<exists>found t'. alloc_arrays alloc s e t is = Inr (found, t') \<and>
    scan_post held ok (\<Union>i \<in> set is. frames t s e i [fst (j_range t s e i)..<Suc (snd (j_range t s e i))]) t found t' \<and>
    room (t_source t) \<le> room (t_source t') + sum_list (map (\<lambda>i. Suc (snd (j_range t s e i))) is)"
  using assms
proof (induction "is" arbitrary: t)
  case Nil
  then show ?case
    using scan_post_refl by simp
next
  case (Cons i "is")
  obtain a b where ab: "j_range t s e i = (a, b)"
    by fastforce
  obtain found t1 where r: "alloc_refs alloc s e i t [a..<Suc b] = Inr (found, t1)"
      "scan_post held ok (frames t s e i [a..<Suc b]) t found t1" "room (t_source t) \<le> room (t_source t1) + length [a..<Suc b]"
  proof -
    have "length [a..<Suc b] \<le> room (t_source t)"
      using Cons.prems(2) ab by (simp del: upt_Suc)
    then show ?thesis
      using alloc_refs_spec [OF Cons.prems(1), of "[a..<Suc b]" s e i] that by blast
  qed
  show ?case
  proof (cases found)
    case None
    have sh: "same_shape t t1" and ok: "tables_ok held ok t1"
      using r(2) by (simp_all add: scan_post_def)
    have "sum_list (map (\<lambda>i. Suc (snd (j_range t1 s e i))) is) \<le> room (t_source t1)"
      using Cons.prems(2) ab r(3) by (simp add: j_range_same [OF sh] del: upt_Suc)
    from Cons.IH [OF ok this] obtain found' t' where q: "alloc_arrays alloc s e t1 is = Inr (found', t')"
        "scan_post held ok (\<Union>i \<in> set is. frames t s e i [fst (j_range t s e i)..<Suc (snd (j_range t s e i))]) t1 found' t'"
        "room (t_source t1) \<le> room (t_source t') + sum_list (map (\<lambda>i. Suc (snd (j_range t s e i))) is)"
      by (auto simp: frames_same [OF sh] j_range_same [OF sh])
    have "room (t_source t) \<le> room (t_source t') + sum_list (map (\<lambda>i. Suc (snd (j_range t s e i))) (i # is))"
      using q(3) r(3) ab by (simp del: upt_Suc)
    then show ?thesis
      using scan_post_seq [OF r(2) [unfolded None] q(2)] r(1) q(1) None ab by (auto simp del: upt_Suc)
  next
    case (Some ijk)
    then have "scan_post held ok (\<Union>i \<in> set (i # is). frames t s e i [fst (j_range t s e i)..<Suc (snd (j_range t s e i))]) t found t1"
      using r(2) ab by (auto simp: scan_post_def simp del: upt_Suc split: prod.splits)
    moreover have "room (t_source t) \<le> room (t_source t1) + sum_list (map (\<lambda>i. Suc (snd (j_range t s e i))) (i # is))"
      using r(3) ab by (simp del: upt_Suc)
    ultimately show ?thesis
      using r(1) Some ab by (auto simp del: upt_Suc)
  qed
qed

lemma after_spec:
  assumes "tables_ok held ok t" and "tables_needed t address \<le> room (t_source t)"
  shows "\<exists>ret t'. tmm_allocateBlockAfterAddress alloc t address = Inr (ret, t') \<and> tables_ok held ok t' \<and>
    same_shape t t' \<and> locked t' = locked t \<and> room (t_source t) \<le> room (t_source t') + tables_needed t address \<and>
    (ret = nullptr \<and> entry t' = entry t \<and> (\<forall>(i, j, k) \<in> scanned t address. locked t i j \<or> entry t (i, j, k) \<noteq> 0) \<or>
     (\<exists>i j k. (i, j, k) \<in> scanned t address \<and> \<not> locked t i j \<and> entry t (i, j, k) = 0 \<and>
        entry t' = (entry t)((i, j, k) := 2) \<and>
        ret = calculateAddress t \<lparr>referenceTableArrayIndex = of_nat i, referenceTableIndex = of_nat j,
                                  allocationTableIndex = of_nat k\<rparr>))"
proof -
  let ?s = "calculateIndex t address" and ?e = "calculateIndex t (t_endAddress t)"
  obtain found t' where r: "alloc_arrays alloc ?s ?e t (i_range ?s ?e) = Inr (found, t')"
      "scan_post held ok (scanned t address) t found t'" "room (t_source t) \<le> room (t_source t') + tables_needed t address"
    using alloc_arrays_spec [OF assms(1), of ?s ?e "i_range ?s ?e"] assms(2)
    by (auto simp: scanned_def tables_needed_def Let_def)
  have addr: "calculateAddress t' ix = calculateAddress t ix" for ix
    using r(2) by (simp add: scan_post_def same_shape_def calculateAddress_def)
  show ?thesis
  proof (cases found)
    case None
    then show ?thesis
      using r by (auto simp: tmm_allocateBlockAfterAddress_def scan_post_def)
  next
    case (Some ijk)
    obtain i j k where ijk: "ijk = (i, j, k)"
      by (cases ijk)
    have "tmm_allocateBlockAfterAddress alloc t address =
        Inr (calculateAddress t \<lparr>referenceTableArrayIndex = of_nat i, referenceTableIndex = of_nat j,
                                  allocationTableIndex = of_nat k\<rparr>, t')"
      using r(1) Some ijk addr by (simp add: tmm_allocateBlockAfterAddress_def)
    then show ?thesis
      using r(2,3) Some ijk by (auto simp: scan_post_def)
  qed
qed

end

subsection \<open>Frames by number\<close>

text \<open>
  The frames as consecutive blocks of memory, without reference to the loops: frame \<open>n\<close> starts at \<open>n\<close>
  times the block size, and its entry is found by dividing \<open>n\<close> by the sizes of the tables. The
  allocation tables of all frames are referenced from one block (with 4 KiB blocks one block of
  references covers 8 GiB, more than there are addresses).
\<close>

definition frame_number :: "'b TableMemoryManager \<Rightarrow> u32 \<Rightarrow> nat" where
  "frame_number t a = unat a div unat (t_blockSize t)"

definition frame_at :: "'b TableMemoryManager \<Rightarrow> nat \<Rightarrow> nat \<times> nat \<times> nat" where
  "frame_at t n = (let E = unat (t_allocationTableEntriesPerBlock t); R = unat (t_referenceTableEntriesPerBlock t)
     in (n div E div R, n div E mod R, n mod E))"

definition busy :: "'b TableMemoryManager \<Rightarrow> nat \<Rightarrow> bool" where
  "busy t n \<longleftrightarrow> (case frame_at t n of (i, j, k) \<Rightarrow> locked t i j \<or> entry t (i, j, k) \<noteq> 0)"

definition single_block :: "'b TableMemoryManager \<Rightarrow> bool" where
  "single_block t \<longleftrightarrow> frame_number t (t_endAddress t) <
     unat (t_allocationTableEntriesPerBlock t) * unat (t_referenceTableEntriesPerBlock t)"

lemma calculateIndex_frame:
  assumes "geometry_ok t"
  shows "(unat (referenceTableArrayIndex (calculateIndex t a)), unat (referenceTableIndex (calculateIndex t a)),
     unat (allocationTableIndex (calculateIndex t a))) = frame_at t (frame_number t a)"
proof -
  let ?B = "unat (t_blockSize t)" and ?E = "unat (t_allocationTableEntriesPerBlock t)"
  have M: "unat (t_managedMemoryPerAllocationTable t) = ?B * ?E" and B: "0 < ?B"
    using assms by (simp_all add: geometry_ok_def mult.commute)
  have "unat a div (?B * ?E) = unat a div ?B div ?E"
    by (simp add: div_mult2_eq)
  moreover have "unat a mod (?B * ?E) div ?B = unat a div ?B mod ?E"
    using B by (simp add: mod_mult2_eq)
  ultimately show ?thesis
    by (simp add: calculateIndex_nat [OF assms] frame_at_def frame_number_def M Let_def)
qed

lemma split_le:
  fixes E j k n :: nat
  assumes "k < E"
  shows "j * E + k \<le> n \<longleftrightarrow> j < n div E \<or> j = n div E \<and> k \<le> n mod E"
    and "n \<le> j * E + k \<longleftrightarrow> n div E < j \<or> j = n div E \<and> n mod E \<le> k"
proof -
  obtain q r where n: "n = q * E + r" "r < E" and q: "n div E = q" and r: "n mod E = r"
    using assms div_mult_mod_eq [of n E] mod_less_divisor [of E n] by (metis gr_zeroI not_less_zero)
  have less: "i * E + E \<le> j * E" if "i < j" for i j
    using that by (metis Suc_leI add.commute mult_Suc mult_le_mono1)
  have cases: "j < q \<and> j * E + E \<le> q * E \<or> j = q \<or> q < j \<and> q * E + E \<le> j * E"
    using less [of j q] less [of q j] by linarith
  show "j * E + k \<le> n \<longleftrightarrow> j < n div E \<or> j = n div E \<and> k \<le> n mod E"
    unfolding q r using n assms cases by auto
  show "n \<le> j * E + k \<longleftrightarrow> n div E < j \<or> j = n div E \<and> n mod E \<le> k"
    unfolding q r using n assms cases by auto
qed

lemma scanned_iff:
  assumes "geometry_ok t" and "single_block t"
  shows "(i, j, k) \<in> scanned t a \<longleftrightarrow>
    (\<exists>n. frame_number t a \<le> n \<and> n \<le> frame_number t (t_endAddress t) \<and> (i, j, k) = frame_at t n)"
proof -
  let ?E = "unat (t_allocationTableEntriesPerBlock t)" and ?R = "unat (t_referenceTableEntriesPerBlock t)"
  let ?S = "frame_number t a" and ?N = "frame_number t (t_endAddress t)"
  let ?s = "calculateIndex t a" and ?e = "calculateIndex t (t_endAddress t)"
  have E: "0 < ?E" and R: "0 < ?R" and N: "?N < ?E * ?R"
    using assms by (auto simp: geometry_ok_def single_block_def)
  have zero: "n div ?E div ?R = 0" "n div ?E mod ?R = n div ?E" if "n < ?E * ?R" for n
    using that by (simp_all add: div_mult2_eq [symmetric] less_mult_imp_div_less mult.commute)
  have e: "unat (referenceTableArrayIndex ?e) = 0" "unat (referenceTableIndex ?e) = ?N div ?E"
      "unat (allocationTableIndex ?e) = ?N mod ?E"
    using calculateIndex_frame [OF assms(1), of "t_endAddress t"] zero [OF N] by (simp_all add: frame_at_def Let_def)
  show ?thesis
  proof (cases "?S < ?E * ?R")
    case True
    have s: "unat (referenceTableArrayIndex ?s) = 0" "unat (referenceTableIndex ?s) = ?S div ?E"
        "unat (allocationTableIndex ?s) = ?S mod ?E"
      using calculateIndex_frame [OF assms(1), of a] zero [OF True] by (simp_all add: frame_at_def Let_def)
    have "(i, j, k) \<in> scanned t a \<longleftrightarrow> i = 0 \<and> k < ?E \<and> ?S \<le> j * ?E + k \<and> j * ?E + k \<le> ?N"
    proof (cases "i = 0")
      case True
      have le: "k \<le> ?N mod ?E \<Longrightarrow> k < ?E" "k \<le> unat (t_allocationTableEntriesPerBlock t - 1) \<longleftrightarrow> k < ?E"
        using E mod_less_divisor [OF E, of ?N] by (linarith, auto simp: unat_minus_one word_unat_eq_iff)
      have "(i, j, k) \<in> scanned t a \<longleftrightarrow> ?S div ?E \<le> j \<and> j \<le> ?N div ?E \<and>
          (if j = ?S div ?E then ?S mod ?E else 0) \<le> k \<and>
          k \<le> (if j = ?N div ?E then ?N mod ?E else unat (t_allocationTableEntriesPerBlock t - 1))"
        using True s e by (auto simp: scanned_def frames_def i_range_def j_range_def k_range_def Let_def less_Suc_eq_le
            simp del: upt_Suc split: if_splits)
      also have "\<dots> \<longleftrightarrow> k < ?E \<and> (?S div ?E < j \<or> j = ?S div ?E \<and> ?S mod ?E \<le> k) \<and>
          (j < ?N div ?E \<or> j = ?N div ?E \<and> k \<le> ?N mod ?E)"
        using le by (auto split: if_splits)
      finally show ?thesis
        using True split_le [of k ?E] by blast
    next
      case False
      then show ?thesis
        using e(1) s(1) by (auto simp: scanned_def frames_def i_range_def Let_def)
    qed
    also have "\<dots> \<longleftrightarrow> (\<exists>n. ?S \<le> n \<and> n \<le> ?N \<and> (i, j, k) = (n div ?E div ?R, n div ?E mod ?R, n mod ?E))"
    proof (intro iffI)
      assume "i = 0 \<and> k < ?E \<and> ?S \<le> j * ?E + k \<and> j * ?E + k \<le> ?N"
      then show "\<exists>n. ?S \<le> n \<and> n \<le> ?N \<and> (i, j, k) = (n div ?E div ?R, n div ?E mod ?R, n mod ?E)"
        using zero [of "j * ?E + k"] N by (intro exI [of _ "j * ?E + k"]) auto
    next
      assume "\<exists>n. ?S \<le> n \<and> n \<le> ?N \<and> (i, j, k) = (n div ?E div ?R, n div ?E mod ?R, n mod ?E)"
      then obtain n where "?S \<le> n" "n \<le> ?N" "(i, j, k) = (n div ?E div ?R, n div ?E mod ?R, n mod ?E)"
        by blast
      then show "i = 0 \<and> k < ?E \<and> ?S \<le> j * ?E + k \<and> j * ?E + k \<le> ?N"
        using zero [of n] N E by simp
    qed
    finally show ?thesis
      by (simp add: frame_at_def Let_def)
  next
    case False
    have "0 < ?S div ?E div ?R"
      using False E R by (simp add: div_mult2_eq [symmetric] div_greater_zero_iff)
    then have "unat (referenceTableArrayIndex ?s) \<noteq> 0"
      using calculateIndex_frame [OF assms(1), of a] by (simp add: frame_at_def Let_def)
    then show ?thesis
      using False N e(1) by (auto simp: scanned_def i_range_def)
  qed
qed

lemma frame_addr_number:
  assumes "geometry_ok t" and "n \<le> frame_number t (t_endAddress t)"
  shows "unat (case frame_at t n of (i, j, k) \<Rightarrow> calculateAddress t \<lparr>referenceTableArrayIndex = of_nat i,
    referenceTableIndex = of_nat j, allocationTableIndex = of_nat k\<rparr>) = n * unat (t_blockSize t)"
proof -
  let ?B = "unat (t_blockSize t)" and ?E = "unat (t_allocationTableEntriesPerBlock t)"
  let ?R = "unat (t_referenceTableEntriesPerBlock t)"
  have M: "unat (t_managedMemoryPerAllocationTable t) = ?E * ?B" and B: "0 < ?B"
    using assms(1) by (simp_all add: geometry_ok_def)
  have "n * ?B \<le> unat (t_endAddress t)"
    using assms(2) B by (simp add: frame_number_def less_eq_div_iff_mult_less_eq)
  then have nB: "n * ?B < 2 ^ 32"
    using unat_lt_2_32 [of "t_endAddress t"] by linarith
  have n32: "n < 2 ^ 32"
  proof -
    have "n * 1 \<le> n * ?B"
      using B by (intro mult_le_mono) simp_all
    then show ?thesis
      using nB by linarith
  qed
  have small: "n div ?E div ?R < 2 ^ 32" "n div ?E mod ?R < 2 ^ 32" "n mod ?E < 2 ^ 32"
    using n32 by (meson div_le_dividend le_less_trans mod_less_eq_dividend order_trans)+
  have "(n div ?E div ?R * ?R * (?E * ?B) + n div ?E mod ?R * (?E * ?B) + n mod ?E * ?B) =
      ((n div ?E div ?R * ?R + n div ?E mod ?R) * ?E + n mod ?E) * ?B"
    by (simp only: add_mult_distrib mult.assoc)
  also have "\<dots> = n * ?B"
    by simp
  finally show ?thesis
    using small nB by (simp only: frame_at_def Let_def prod.case calculateAddress_nat TableIndex.simps M unat_of_nat32)
qed

context table_blocks
begin

lemma after_frames:
  assumes "tables_ok held ok t" and "tables_needed t address \<le> room (t_source t)"
    and "geometry_ok t" and "single_block t"
  shows "\<exists>ret t'. tmm_allocateBlockAfterAddress alloc t address = Inr (ret, t') \<and> tables_ok held ok t' \<and>
    same_shape t t' \<and> locked t' = locked t \<and> room (t_source t) \<le> room (t_source t') + tables_needed t address \<and>
    (ret = nullptr \<and> entry t' = entry t \<and>
       (\<forall>n. frame_number t address \<le> n \<and> n \<le> frame_number t (t_endAddress t) \<longrightarrow> busy t n) \<or>
     (\<exists>n. frame_number t address \<le> n \<and> n \<le> frame_number t (t_endAddress t) \<and> \<not> busy t n \<and>
        entry t' = (entry t)(frame_at t n := 2) \<and> unat ret = n * unat (t_blockSize t)))"
proof -
  note scanned = scanned_iff [OF assms(3,4), of _ _ _ address]
  obtain ret t' where r: "tmm_allocateBlockAfterAddress alloc t address = Inr (ret, t')" "tables_ok held ok t'"
      "same_shape t t'" "locked t' = locked t" "room (t_source t) \<le> room (t_source t') + tables_needed t address"
    and d: "ret = nullptr \<and> entry t' = entry t \<and> (\<forall>(i, j, k) \<in> scanned t address. locked t i j \<or> entry t (i, j, k) \<noteq> 0) \<or>
     (\<exists>i j k. (i, j, k) \<in> scanned t address \<and> \<not> locked t i j \<and> entry t (i, j, k) = 0 \<and>
        entry t' = (entry t)((i, j, k) := 2) \<and>
        ret = calculateAddress t \<lparr>referenceTableArrayIndex = of_nat i, referenceTableIndex = of_nat j,
                                  allocationTableIndex = of_nat k\<rparr>)"
    using after_spec [OF assms(1,2)] by blast
  from d have "ret = nullptr \<and> entry t' = entry t \<and>
       (\<forall>n. frame_number t address \<le> n \<and> n \<le> frame_number t (t_endAddress t) \<longrightarrow> busy t n) \<or>
     (\<exists>n. frame_number t address \<le> n \<and> n \<le> frame_number t (t_endAddress t) \<and> \<not> busy t n \<and>
        entry t' = (entry t)(frame_at t n := 2) \<and> unat ret = n * unat (t_blockSize t))"
  proof (elim disjE conjE exE)
    assume "ret = nullptr" "entry t' = entry t" "\<forall>(i, j, k) \<in> scanned t address. locked t i j \<or> entry t (i, j, k) \<noteq> 0"
    moreover have "busy t n" if "frame_number t address \<le> n" "n \<le> frame_number t (t_endAddress t)" for n
    proof -
      have "frame_at t n \<in> scanned t address"
        using that scanned by (cases "frame_at t n") auto
      then show ?thesis
        using calculation(3) by (auto simp: busy_def)
    qed
    ultimately show ?thesis
      by blast
  next
    fix i j k
    assume a: "(i, j, k) \<in> scanned t address" "\<not> locked t i j" "entry t (i, j, k) = 0" "entry t' = (entry t)((i, j, k) := 2)"
      "ret = calculateAddress t \<lparr>referenceTableArrayIndex = of_nat i, referenceTableIndex = of_nat j,
                                  allocationTableIndex = of_nat k\<rparr>"
    obtain n where n: "frame_number t address \<le> n" "n \<le> frame_number t (t_endAddress t)" "(i, j, k) = frame_at t n"
      using a(1) scanned by blast
    have "unat ret = n * unat (t_blockSize t)" "\<not> busy t n"
      using frame_addr_number [OF assms(3) n(2)] a n(3) [symmetric] by (simp_all add: busy_def)
    then show ?thesis
      using n a(4) by metis
  qed
  with r show ?thesis
    by blast
qed

end

section \<open>The bitmap memory manager as source of tables\<close>

definition bmm_source :: "BitmapMemoryManager \<times> mem \<Rightarrow> (u32 \<times> BitmapMemoryManager \<times> mem) result" where
  "bmm_source = (\<lambda>(m, h). bmm_allocateBlock m h)"

definition bmm_held :: "BitmapMemoryManager \<times> mem \<Rightarrow> u32 set" where
  "bmm_held = (\<lambda>(m, h). bmm_live m)"

definition bmm_room :: "BitmapMemoryManager \<times> mem \<Rightarrow> nat" where
  "bmm_room = (\<lambda>(m, h). unat (blocks (bmm_bitmap m)) - card (used (bmm_bitmap m)))"

definition bmm_aligned :: "BitmapMemoryManager \<times> mem \<Rightarrow> bool" where
  "bmm_aligned = (\<lambda>(m, h). bmm_ok m \<and> zeroMemory m \<and> 16 dvd unat (startAddress m) \<and> 16 dvd unat (blockSize m))"

lemma aligned_low:
  assumes "16 dvd unat (a :: u32)"
  shows "a AND 0xf = 0"
proof -
  have "unat (take_bit 4 a) = unat a mod 16"
    by (simp only: unsigned_take_bit_eq) (simp add: take_bit_eq_mod)
  then have "take_bit 4 a = 0"
    using assms by (simp only: word_unat_eq_iff) (simp add: dvd_eq_mod_eq_0)
  then show ?thesis
    by (simp only: low_mask take_bit_eq_mask)
qed

interpretation tb: table_blocks bmm_source bmm_held bmm_room bmm_aligned
proof
  fix b
  assume ok: "bmm_aligned b" and room: "0 < bmm_room b"
  obtain m h where b: "b = (m, h)"
    by fastforce
  have bok: "bmm_ok m" and shape: "bmm_shape m" and al: "16 dvd unat (startAddress m)" "16 dvd unat (blockSize m)"
    using ok by (simp_all add: b bmm_aligned_def bmm_ok_def)
  have space: "used (bmm_bitmap m) \<noteq> {..<unat (blocks (bmm_bitmap m))}"
  proof
    assume "used (bmm_bitmap m) = {..<unat (blocks (bmm_bitmap m))}"
    then have "card (used (bmm_bitmap m)) = unat (blocks (bmm_bitmap m))"
      by (metis card_lessThan)
    then show False
      using room by (simp add: b bmm_room_def)
  qed
  define i where "i = unat (fst (findAndSet (bmm_bitmap m)))"
  from bmm_allocateBlock_free [OF bok space, of h] obtain m' h' where
    r: "bmm_allocateBlock m h = Inr (bmm_addr m i, m', h')" "bmm_ok m'" "i < unat (blocks (bmm_bitmap m))"
      "i \<notin> used (bmm_bitmap m)" "bmm_live m' = insert (bmm_addr m i) (bmm_live m)"
      "startAddress m' = startAddress m" "endAddress m' = endAddress m" "blockSize m' = blockSize m"
    by (auto simp: i_def)
  have zero: "zeroMemory m' = zeroMemory m"
    using r(1) by (auto simp: bmm_allocateBlock_def Let_def split: prod.splits if_splits)
  have notin: "bmm_addr m i \<notin> bmm_live m"
    using r(3,4) bmm_live_iff [OF shape r(3)] by blast
  have bl: "blocks (bmm_bitmap m') = blocks (bmm_bitmap m)"
    using r(2,6-8) shape by (simp add: bmm_ok_def bmm_shape_def bmm_total_def word_unat_eq_iff)
  have "card (used (bmm_bitmap m')) = Suc (card (used (bmm_bitmap m)))"
    using bmm_live_card [OF bok] bmm_live_card [OF r(2)] r(5) notin by (simp add: bmm_live_def)
  then have "Suc (bmm_room (m', h')) = bmm_room b"
    using room bl by (simp add: b bmm_room_def)
  moreover have "16 dvd unat (bmm_addr m i)"
    unfolding bmm_addr_unat(1) [OF shape r(3)] using al by simp
  then have "bmm_addr m i AND 0xf = 0"
    by (rule aligned_low)
  ultimately show "\<exists>a b'. bmm_source b = Inr (a, b') \<and> bmm_aligned b' \<and> a \<noteq> 0 \<and> a AND 0xf = 0 \<and> a \<notin> bmm_held b \<and>
      bmm_held b' = insert a (bmm_held b) \<and> Suc (bmm_room b') = bmm_room b"
    using r notin al ok zero bmm_addr_nonnull [OF shape r(3)]
    by (intro exI [of _ "bmm_addr m i"] exI [of _ "(m', h')"]) (simp add: b bmm_source_def bmm_held_def bmm_aligned_def)
qed

abbreviation frames_ok :: "(BitmapMemoryManager \<times> mem) TableMemoryManager \<Rightarrow> bool" where
  "frames_ok \<equiv> tables_ok bmm_held bmm_aligned"

lemma range_room:
  fixes a :: u32
  assumes "geometry_ok t"
  defines "s \<equiv> calculateIndex t a" and "e \<equiv> calculateIndex t (t_endAddress t)"
  shows "sum_list (map (\<lambda>i. Suc (snd (j_range t s e i))) (i_range s e)) \<le>
    Suc (unat (referenceTableArrayIndex e)) * unat (t_referenceTableEntriesPerBlock t)"
proof -
  have R: "0 < unat (t_referenceTableEntriesPerBlock t)"
    using assms(1) by (simp add: geometry_ok_def)
  have "unat (t_referenceTableEntriesPerBlock t - 1) = unat (t_referenceTableEntriesPerBlock t) - 1"
    using R by (intro unat_minus_one) auto
  moreover have "unat (referenceTableIndex e) < unat (t_referenceTableEntriesPerBlock t)"
    unfolding e_def calculateIndex_nat(2) [OF assms(1)] using R by simp
  ultimately have le: "Suc (snd (j_range t s e i)) \<le> unat (t_referenceTableEntriesPerBlock t)" for i
    using R by (simp add: j_range_def)
  have "sum_list (map (\<lambda>i. Suc (snd (j_range t s e i))) xs) \<le> length xs * unat (t_referenceTableEntriesPerBlock t)" for xs
  proof (induction xs)
    case (Cons x xs)
    then show ?case
      using add_mono [OF le [of x] Cons.IH] by simp
  qed simp
  also have "length (i_range s e) * unat (t_referenceTableEntriesPerBlock t) \<le>
      Suc (unat (referenceTableArrayIndex e)) * unat (t_referenceTableEntriesPerBlock t)"
    by (intro mult_le_mono1) (simp add: i_range_def del: upt_Suc)
  finally show ?thesis .
qed

text \<open>A small instance: 64 KiB of frames, tables from a manager with 16 blocks.\<close>

definition sample_tables :: "(BitmapMemoryManager \<times> mem) TableMemoryManager" where
  "sample_tables =
     \<lparr>t_source = (BitmapMemoryManager_new 0x100000 0x10ffff 0x1000 True, \<lambda>_. 0),
      t_startAddress = 0, t_endAddress = 0xffff, t_blockSize = 0x1000,
      t_referenceTableSizeInBlocks = 1, t_allocationTableEntriesPerBlock = 8,
      t_managedMemoryPerAllocationTable = 0x8000, t_referenceTableEntriesPerBlock = 4,
      t_allocationTableCount = 2, t_referenceTable = (\<lambda>_ _. 0), t_tables = (\<lambda>_ _. 0)\<rparr>"

lemma sample_tables_ok:
  "frames_ok sample_tables" "geometry_ok sample_tables" "bmm_room (t_source sample_tables) = 16"
  by (simp_all add: sample_tables_def tables_ok_def address_of_def re_getAddress_def geometry_ok_def bmm_aligned_def
      bmm_room_def bmm_new_ok) (simp_all add: BitmapMemoryManager_new_def)

lemma sample_tables_entry: "entry sample_tables f = 0"
  by (cases f) (simp add: entry_def sample_tables_def address_of_def re_getAddress_def)

text \<open>
  C17. Allocation of a page frame at or after an address is correct, for tables that fit into one block
  of references and are created on demand from a zeroing bitmap memory manager with enough free blocks.
  Frame \<open>n\<close> is the \<open>n\<close>-th block of memory. The call returns; either it returns the null pointer, changes no
  frame, and every frame from the one of the address up to the last one is in use, reserved or behind a
  held lock; or it returns the start of a frame in that range that was neither in use nor reserved nor
  locked, whose use count is one now (entry 2), and every other frame is unchanged. All locks are as
  before, and no two references share a table.
\<close>

theorem page_frame_allocation:
  assumes "frames_ok t" and "geometry_ok t" and "single_block t"
    and "Suc (unat (referenceTableArrayIndex (calculateIndex t (t_endAddress t)))) *
      unat (t_referenceTableEntriesPerBlock t) \<le> bmm_room (t_source t)"
  shows "\<exists>ret t'. tmm_allocateBlockAfterAddress bmm_source t address = Inr (ret, t') \<and> frames_ok t' \<and>
    locked t' = locked t \<and>
    (ret = nullptr \<and> entry t' = entry t \<and>
       (\<forall>n. frame_number t address \<le> n \<and> n \<le> frame_number t (t_endAddress t) \<longrightarrow> busy t n) \<or>
     (\<exists>n. frame_number t address \<le> n \<and> n \<le> frame_number t (t_endAddress t) \<and> \<not> busy t n \<and>
        entry t' = (entry t)(frame_at t n := 2) \<and> unat ret = n * unat (t_blockSize t)))"
proof -
  have "tables_needed t address \<le> bmm_room (t_source t)"
    using range_room [OF assms(2), of address] assms(4) by (simp add: tables_needed_def Let_def)
  then show ?thesis
    using tb.after_frames [OF assms(1) _ assms(2,3), of address] by blast
qed

theorem page_frame_allocation_witness:
  "\<exists>ret t' n. tmm_allocateBlockAfterAddress bmm_source sample_tables 0x3000 = Inr (ret, t') \<and> frames_ok t' \<and>
    3 \<le> n \<and> n \<le> 15 \<and> unat ret = n * 4096 \<and> entry t' (frame_at sample_tables n) = 2"
proof -
  have f: "single_block sample_tables" "frame_number sample_tables 0x3000 = 3" "frame_number sample_tables (t_endAddress sample_tables) = 15"
      "unat (t_blockSize sample_tables) = 4096"
    by (simp_all add: single_block_def frame_number_def sample_tables_def)
  have free: "\<not> busy sample_tables n" for n
    by (simp add: busy_def sample_tables_entry locked_def re_isLocked_def bitTest_def split: prod.splits)
      (simp add: sample_tables_def)
  have "Suc (unat (referenceTableArrayIndex (calculateIndex sample_tables (t_endAddress sample_tables)))) *
      unat (t_referenceTableEntriesPerBlock sample_tables) \<le> bmm_room (t_source sample_tables)"
    using sample_tables_ok(3) by (simp add: sample_tables_def calculateIndex_def Let_def)
  from page_frame_allocation [OF sample_tables_ok(1,2) f(1) this, of "0x3000", unfolded f] obtain ret t' where
    "tmm_allocateBlockAfterAddress bmm_source sample_tables 0x3000 = Inr (ret, t')" "frames_ok t'"
    "(\<forall>n. 3 \<le> n \<and> n \<le> 15 \<longrightarrow> busy sample_tables n) \<or> (\<exists>n \<ge> 3. n \<le> 15 \<and>
       entry t' = (entry sample_tables)(frame_at sample_tables n := 2) \<and> unat ret = n * 4096)"
    by blast
  then show ?thesis
    using free [of 3] by fastforce
qed

text \<open>
  C18. Use counts: allocating a given frame creates its table if needed, adds one to the use count
  of exactly that frame and returns the start of the frame; freeing it afterwards restores all
  use counts. If nobody held the frame before, freeing it once more throws PAGING_ERROR. The frame
  lies below the end address, its use count is not at the maximum, and a block is free for the table.
\<close>

theorem page_frame_use_count:
  assumes "frames_ok t" and "0 < bmm_room (t_source t)" and "a \<le> t_endAddress t"
  defines "ix \<equiv> calculateIndex t a"
  defines "f \<equiv> (unat (referenceTableArrayIndex ix), unat (referenceTableIndex ix), unat (allocationTableIndex ix))"
  assumes "unat (entry t f) < 65534"
  shows "\<exists>t1 t2. tmm_allocateBlockAtAddress bmm_source t a = Inr (calculateAddress t ix, t1) \<and> frames_ok t1 \<and>
    entry t1 = (entry t)(f := entry t f + 2) \<and>
    tmm_freeBlock t1 a = Some (Inr t2) \<and> frames_ok t2 \<and> entry t2 = entry t \<and>
    (unat (entry t f) < 2 \<longrightarrow> tmm_freeBlock t2 a = Some (Inl PAGING_ERROR))"
proof -
  define i where "i = unat (referenceTableArrayIndex ix)"
  define j where "j = unat (referenceTableIndex ix)"
  define k where "k = unat (allocationTableIndex ix)"
  have f: "f = (i, j, k)"
    by (simp add: f_def i_def j_def k_def)
  obtain t0 where t0: "install_table bmm_source t i j = Inr t0" "frames_ok t0" "same_shape t t0" "entry t0 = entry t"
      "address_of t0 i j \<noteq> 0"
    using tb.install_plain [OF assms(1,2), of i j] by auto
  let ?a = "address_of t0 i j" and ?v = "entry t f"
  have v: "t_tables t0 ?a k = ?v"
    unfolding t0(4) [symmetric] f using t0(5) by (simp add: entry_def)
  have inc: "ae_incrementUseCount ?v = Inr (?v + 2)"
  proof -
    have "unat (?v + 2) = unat ?v + 2"
      using assms(6) by (simp add: unat_word_ariths(1))
    then show ?thesis
      by (simp add: ae_incrementUseCount_def fetchAndAdd_def word_le_nat_alt)
  qed
  have dec: "ae_decrementUseCount (?v + 2) = Inr ?v"
  proof -
    have "unat (?v + 2) = unat ?v + 2"
      using assms(6) by (simp add: unat_word_ariths(1))
    then show ?thesis
      by (simp add: ae_decrementUseCount_def fetchAndSub_def fetchAndAdd_def word_le_nat_alt)
  qed
  have under: "ae_decrementUseCount ?v = Inl PAGING_ERROR" if "unat ?v < 2"
  proof -
    have "unat (?v - 2) = 65534 + unat ?v"
      using that by (simp add: unat_sub_if_size word_size)
    then show ?thesis
      by (simp add: ae_decrementUseCount_def fetchAndSub_def fetchAndAdd_def word_le_nat_alt)
  qed
  let ?t1 = "set_entry t0 ?a k (?v + 2)" and ?t2 = "set_entry (set_entry t0 ?a k (?v + 2)) ?a k ?v"
  have shape: "calculateIndex t' a = ix" "calculateAddress t' ix = calculateAddress t ix" "\<not> t_endAddress t' < a"
    if "same_shape t t'" for t'
    using that assms(3) by (simp_all add: same_shape_def calculateIndex_def calculateAddress_def ix_def not_less)
  have free: "tmm_freeBlock t' a = Some (res_bind (ae_decrementUseCount (t_tables t' (address_of t' i j) k))
      (\<lambda>v. Inr (set_entry t' (address_of t' i j) k v)))" if "same_shape t t'" "address_of t' i j \<noteq> 0" for t'
    using shape [OF that(1)] that(2) by (simp add: tmm_freeBlock_def Let_def i_def j_def k_def address_of_def)
  have "tmm_allocateBlockAtAddress bmm_source t a = Inr (calculateAddress t ix, ?t1)"
    using shape [of t] shape [OF t0(3)] t0(1) v inc
    by (simp add: tmm_allocateBlockAtAddress_def Let_def i_def [symmetric] j_def [symmetric] k_def [symmetric]
        address_of_def [symmetric])
  moreover have ok1: "frames_ok ?t1" and ok2: "frames_ok ?t2"
    using t0(2) by (simp_all add: tables_ok_set_entry)
  moreover have e1: "entry ?t1 = (entry t)(f := ?v + 2)"
    using entry_set_entry [OF t0(2,5), of k "?v + 2"] t0(4) f by simp
  moreover have "tmm_freeBlock ?t1 a = Some (Inr ?t2)"
    using free [of ?t1] t0(3,5) dec by simp
  moreover have e2: "entry ?t2 = entry t"
    using entry_set_entry [OF ok1, of i j k ?v] t0(5) e1 f by simp
  moreover have "tmm_freeBlock ?t2 a = Some (Inl PAGING_ERROR)" if "unat ?v < 2"
    using free [of ?t2] t0(3,5) under [OF that] by simp
  ultimately show ?thesis
    by blast
qed

theorem page_frame_use_count_witness:
  "\<exists>t1 t2. tmm_allocateBlockAtAddress bmm_source sample_tables 0x3000 = Inr (0x3000, t1) \<and>
    tmm_freeBlock t1 0x3000 = Some (Inr t2) \<and> tmm_freeBlock t2 0x3000 = Some (Inl PAGING_ERROR)"
proof -
  have "calculateAddress sample_tables (calculateIndex sample_tables 0x3000) = 0x3000"
    by (simp add: sample_tables_def calculateIndex_def calculateAddress_def)
  moreover have "(0x3000 :: u32) \<le> t_endAddress sample_tables"
    by (simp add: sample_tables_def)
  ultimately show ?thesis
    using page_frame_use_count [OF sample_tables_ok(1), of "0x3000"] sample_tables_ok(3)
    by (auto simp: sample_tables_entry)
qed

end
