(* ===== verification/Slab.thy ===== *)
theory Slab
  imports Block_Managers
begin

text \<open>
  \<^verbatim>\<open>Kernel::SlabAllocator\<close> (kernel/memory): six bitmap memory managers of one MiB each, for blocks
  of 1, 2, 4, 8, 16 and 32 page frames.
\<close>

section \<open>Slab allocator\<close>

record SlabAllocator =
  pool4K :: BitmapMemoryManager
  pool8K :: BitmapMemoryManager
  pool16K :: BitmapMemoryManager
  pool32K :: BitmapMemoryManager
  pool64K :: BitmapMemoryManager
  pool128K :: BitmapMemoryManager

abbreviation POOL_SIZE :: u32 where "POOL_SIZE \<equiv> 0x100000"

definition MAX_SLAB_SIZE :: u32 where "MAX_SLAB_SIZE = 128 * 1024"

definition SlabAllocator_new :: "u32 \<Rightarrow> SlabAllocator" where
  "SlabAllocator_new slabMemory =
     \<lparr>pool4K = BitmapMemoryManager_new slabMemory (slabMemory + POOL_SIZE - 1) (4 * 1024) False,
      pool8K = BitmapMemoryManager_new (slabMemory + 1 * POOL_SIZE) (slabMemory + 2 * POOL_SIZE - 1) (8 * 1024) False,
      pool16K = BitmapMemoryManager_new (slabMemory + 2 * POOL_SIZE) (slabMemory + 3 * POOL_SIZE - 1) (16 * 1024) False,
      pool32K = BitmapMemoryManager_new (slabMemory + 3 * POOL_SIZE) (slabMemory + 4 * POOL_SIZE - 1) (32 * 1024) False,
      pool64K = BitmapMemoryManager_new (slabMemory + 4 * POOL_SIZE) (slabMemory + 5 * POOL_SIZE - 1) (64 * 1024) False,
      pool128K = BitmapMemoryManager_new (slabMemory + 5 * POOL_SIZE) (slabMemory + 6 * POOL_SIZE - 1) (128 * 1024) False\<rparr>"

definition slab_allocateBlock :: "SlabAllocator \<Rightarrow> u32 \<Rightarrow> mem \<Rightarrow> (u32 \<times> SlabAllocator \<times> mem) result" where
  "slab_allocateBlock s frameCount h =
     (if frameCount = 1 then
        res_bind (bmm_allocateBlock (pool4K s) h) (\<lambda>(a, p, h). Inr (a, s\<lparr>pool4K := p\<rparr>, h))
      else if frameCount = 2 then
        res_bind (bmm_allocateBlock (pool8K s) h) (\<lambda>(a, p, h). Inr (a, s\<lparr>pool8K := p\<rparr>, h))
      else if 3 \<le> frameCount \<and> frameCount \<le> 4 then
        res_bind (bmm_allocateBlock (pool16K s) h) (\<lambda>(a, p, h). Inr (a, s\<lparr>pool16K := p\<rparr>, h))
      else if 5 \<le> frameCount \<and> frameCount \<le> 8 then
        res_bind (bmm_allocateBlock (pool32K s) h) (\<lambda>(a, p, h). Inr (a, s\<lparr>pool32K := p\<rparr>, h))
      else if 9 \<le> frameCount \<and> frameCount \<le> 16 then
        res_bind (bmm_allocateBlock (pool64K s) h) (\<lambda>(a, p, h). Inr (a, s\<lparr>pool64K := p\<rparr>, h))
      else if 17 \<le> frameCount \<and> frameCount \<le> 32 then
        res_bind (bmm_allocateBlock (pool128K s) h) (\<lambda>(a, p, h). Inr (a, s\<lparr>pool128K := p\<rparr>, h))
      else Inr (nullptr, s, h))"

definition slab_freeBlock :: "SlabAllocator \<Rightarrow> u32 \<Rightarrow> (bool \<times> SlabAllocator) result" where
  "slab_freeBlock s pointer =
     (if pointer < startAddress (pool4K s) \<or> endAddress (pool128K s) < pointer then Inr (False, s)
      else if startAddress (pool4K s) \<le> pointer \<and> pointer \<le> endAddress (pool4K s) then
        res_bind (bmm_freeBlock (pool4K s) pointer) (\<lambda>p. Inr (True, s\<lparr>pool4K := p\<rparr>))
      else if startAddress (pool8K s) \<le> pointer \<and> pointer \<le> endAddress (pool8K s) then
        res_bind (bmm_freeBlock (pool8K s) pointer) (\<lambda>p. Inr (True, s\<lparr>pool8K := p\<rparr>))
      else if startAddress (pool16K s) \<le> pointer \<and> pointer \<le> endAddress (pool16K s) then
        res_bind (bmm_freeBlock (pool16K s) pointer) (\<lambda>p. Inr (True, s\<lparr>pool16K := p\<rparr>))
      else if startAddress (pool32K s) \<le> pointer \<and> pointer \<le> endAddress (pool32K s) then
        res_bind (bmm_freeBlock (pool32K s) pointer) (\<lambda>p. Inr (True, s\<lparr>pool32K := p\<rparr>))
      else if startAddress (pool64K s) \<le> pointer \<and> pointer \<le> endAddress (pool64K s) then
        res_bind (bmm_freeBlock (pool64K s) pointer) (\<lambda>p. Inr (True, s\<lparr>pool64K := p\<rparr>))
      else if startAddress (pool128K s) \<le> pointer \<and> pointer \<le> endAddress (pool128K s) then
        res_bind (bmm_freeBlock (pool128K s) pointer) (\<lambda>p. Inr (True, s\<lparr>pool128K := p\<rparr>))
      else Inr (False, s))"

definition slab_getFreeMemory :: "SlabAllocator \<Rightarrow> u32" where
  "slab_getFreeMemory s = freeMemory (pool4K s) + freeMemory (pool8K s) + freeMemory (pool16K s)
     + freeMemory (pool32K s) + freeMemory (pool64K s) + freeMemory (pool128K s)"

definition slab_getTotalMemory :: "SlabAllocator \<Rightarrow> u32" where
  "slab_getTotalMemory s = bmm_getTotalMemory (pool4K s) + bmm_getTotalMemory (pool8K s)
     + bmm_getTotalMemory (pool16K s) + bmm_getTotalMemory (pool32K s)
     + bmm_getTotalMemory (pool64K s) + bmm_getTotalMemory (pool128K s)"

text \<open>The pools by size class, \<open>k\<close> for blocks of \<open>2\<^sup>k\<close> page frames.\<close>

definition slab_pool :: "SlabAllocator \<Rightarrow> nat \<Rightarrow> BitmapMemoryManager" where
  "slab_pool s k = [pool4K s, pool8K s, pool16K s, pool32K s, pool64K s, pool128K s] ! k"

definition slab_upd :: "SlabAllocator \<Rightarrow> nat \<Rightarrow> BitmapMemoryManager \<Rightarrow> SlabAllocator" where
  "slab_upd s k p =
     [s\<lparr>pool4K := p\<rparr>, s\<lparr>pool8K := p\<rparr>, s\<lparr>pool16K := p\<rparr>, s\<lparr>pool32K := p\<rparr>, s\<lparr>pool64K := p\<rparr>, s\<lparr>pool128K := p\<rparr>] ! k"

definition slab_class :: "u32 \<Rightarrow> nat" where
  "slab_class n = (if n = 1 then 0 else if n = 2 then 1 else if 3 \<le> n \<and> n \<le> 4 then 2
     else if 5 \<le> n \<and> n \<le> 8 then 3 else if 9 \<le> n \<and> n \<le> 16 then 4
     else if 17 \<le> n \<and> n \<le> 32 then 5 else 6)"

lemma less_6_cases: "k < 6 \<longleftrightarrow> k = 0 \<or> k = 1 \<or> k = 2 \<or> k = 3 \<or> k = 4 \<or> k = (5::nat)"
  by auto

lemma slab_pool_upd: "k < 6 \<Longrightarrow> j < 6 \<Longrightarrow> slab_pool (slab_upd s k p) j = (if j = k then p else slab_pool s j)"
  by (auto simp: slab_pool_def slab_upd_def less_6_cases)

lemma slab_allocateBlock_class:
  "slab_allocateBlock s n h =
     (if slab_class n < 6
      then res_bind (bmm_allocateBlock (slab_pool s (slab_class n)) h)
             (\<lambda>(a, p, h). Inr (a, slab_upd s (slab_class n) p, h))
      else Inr (nullptr, s, h))"
  by (simp add: slab_allocateBlock_def slab_class_def slab_pool_def slab_upd_def)

lemma slab_class_size: "slab_class n < 6 \<Longrightarrow> unat n \<le> 2 ^ slab_class n"
  by (auto simp: slab_class_def word_le_nat_alt split: if_splits)

subsection \<open>Invariant\<close>

definition slab_ok :: "u32 \<Rightarrow> SlabAllocator \<Rightarrow> bool" where
  "slab_ok base s \<longleftrightarrow> (\<forall>k < 6. bmm_ok (slab_pool s k) \<and>
     unat (startAddress (slab_pool s k)) = unat base + k * 0x100000 \<and>
     unat (endAddress (slab_pool s k)) = unat base + k * 0x100000 + 0xfffff \<and>
     unat (blockSize (slab_pool s k)) = 4096 * 2 ^ k)"

definition slab_live :: "SlabAllocator \<Rightarrow> (u32 \<times> u32) set" where
  "slab_live s = {(a, n). \<exists>k < 6. a \<in> bmm_live (slab_pool s k) \<and> n = blockSize (slab_pool s k)}"

lemma slab_okD:
  assumes "slab_ok base s" and "k < 6"
  shows "bmm_ok (slab_pool s k)" and "unat (startAddress (slab_pool s k)) = unat base + k * 0x100000"
    and "unat (endAddress (slab_pool s k)) = unat base + k * 0x100000 + 0xfffff"
    and "unat (blockSize (slab_pool s k)) = 4096 * 2 ^ k"
  using assms by (simp_all add: slab_ok_def)

lemma slab_ok_upd:
  assumes "slab_ok base s" and "k < 6" and "bmm_ok p"
    and "startAddress p = startAddress (slab_pool s k)" and "endAddress p = endAddress (slab_pool s k)"
    and "blockSize p = blockSize (slab_pool s k)"
  shows "slab_ok base (slab_upd s k p)"
  using assms by (simp add: slab_ok_def slab_pool_upd)

lemma slab_live_upd:
  assumes "k < 6" and "blockSize p = blockSize (slab_pool s k)"
  shows "slab_live (slab_upd s k p) = {(a, n). a \<in> bmm_live p \<and> n = blockSize (slab_pool s k)} \<union>
    {(a, n). \<exists>j < 6. j \<noteq> k \<and> a \<in> bmm_live (slab_pool s j) \<and> n = blockSize (slab_pool s j)}"
  using assms by (fastforce simp: slab_live_def slab_pool_upd split: if_splits)

lemma slab_live_split:
  assumes "k < 6"
  shows "slab_live s = {(a, n). a \<in> bmm_live (slab_pool s k) \<and> n = blockSize (slab_pool s k)} \<union>
    {(a, n). \<exists>j < 6. j \<noteq> k \<and> a \<in> bmm_live (slab_pool s j) \<and> n = blockSize (slab_pool s j)}"
  using assms by (fastforce simp: slab_live_def)

lemma slab_pools_apart:
  assumes "slab_ok base s" and "k < 6" and "j < 6" and "j \<noteq> k"
    and "a \<in> bmm_live (slab_pool s k)" and "b \<in> bmm_live (slab_pool s j)"
  shows "span a (blockSize (slab_pool s k)) \<inter> span b (blockSize (slab_pool s j)) = {}"
proof -
  have "Suc k * 0x100000 \<le> j * 0x100000 \<or> Suc j * 0x100000 \<le> k * (0x100000::nat)"
    using assms(4) by (intro strides_apart) simp
  then have "{unat base + k * 0x100000 .. unat base + k * 0x100000 + 0xfffff} \<inter>
      {unat base + j * 0x100000 .. unat base + j * 0x100000 + 0xfffff} = {}"
    by (elim disjE) auto
  moreover have "span a (blockSize (slab_pool s k)) \<subseteq>
      {unat base + k * 0x100000 .. unat base + k * 0x100000 + 0xfffff}"
    using bmm_live_area [OF slab_okD(1) [OF assms(1,2)] assms(5)]
    unfolding slab_okD(2,3) [OF assms(1,2)] .
  moreover have "span b (blockSize (slab_pool s j)) \<subseteq>
      {unat base + j * 0x100000 .. unat base + j * 0x100000 + 0xfffff}"
    using bmm_live_area [OF slab_okD(1) [OF assms(1,3)] assms(6)]
    unfolding slab_okD(2,3) [OF assms(1,3)] .
  ultimately show ?thesis
    by blast
qed

lemma slab_allocateBlock_spec:
  assumes ok: "slab_ok base s" and r: "slab_allocateBlock s n h = Inr (a, s', h')"
  shows "slab_ok base s' \<and>
    (if a = nullptr then slab_live s' = slab_live s
     else \<exists>z. 4096 * unat n \<le> unat z \<and> slab_live s' = insert (a, z) (slab_live s) \<and>
       (\<forall>(b, y) \<in> slab_live s. span a z \<inter> span b y = {}))"
proof (cases "slab_class n < 6")
  case False
  then show ?thesis
    using assms by (simp add: slab_allocateBlock_class)
next
  case True
  define k where "k = slab_class n"
  obtain p where p: "bmm_allocateBlock (slab_pool s k) h = Inr (a, p, h')" and s': "s' = slab_upd s k p"
    using r True by (auto simp: slab_allocateBlock_class k_def res_iff)
  have k: "k < 6" and n: "unat n \<le> 2 ^ k"
    using True slab_class_size by (simp_all add: k_def)
  note c = bmm_alloc_cases [OF slab_okD(1) [OF ok k] p]
  have ok': "slab_ok base s'"
    using slab_ok_upd [OF ok k, of p] c s' by simp
  show ?thesis
  proof (cases "a = nullptr")
    case True
    then show ?thesis
      using ok' c slab_live_upd [OF k, of p s] slab_live_split [OF k, of s] s' by simp
  next
    case False
    let ?z = "blockSize (slab_pool s k)"
    have "slab_live s' = insert (a, ?z) (slab_live s)"
      using False c slab_live_upd [OF k, of p s] slab_live_split [OF k, of s] s' by auto
    moreover have "span a ?z \<inter> span b y = {}" if "(b, y) \<in> slab_live s" for b y
    proof -
      from that obtain j where j: "j < 6" "b \<in> bmm_live (slab_pool s j)" "y = blockSize (slab_pool s j)"
        by (auto simp: slab_live_def)
      show ?thesis
      proof (cases "j = k")
        case True
        then show ?thesis
          using c False j by simp
      next
        case other: False
        have "a \<in> bmm_live (slab_pool s' k)"
          using c False s' k by (simp add: slab_pool_upd)
        then show ?thesis
          using slab_pools_apart [OF ok' k j(1) other, of a b] j s' k c other
          by (simp add: slab_pool_upd)
      qed
    qed
    moreover have "4096 * unat n \<le> unat ?z"
      using n slab_okD(4) [OF ok k] by simp
    ultimately show ?thesis
      using ok' False by (auto intro!: exI [of _ ?z])
  qed
qed

lemma slab_freeBlock_class:
  assumes ok: "slab_ok base s" and k: "k < 6"
    and "startAddress (slab_pool s k) \<le> a" and "a \<le> endAddress (slab_pool s k)"
  shows "slab_freeBlock s a = res_bind (bmm_freeBlock (slab_pool s k) a) (\<lambda>p. Inr (True, slab_upd s k p))"
proof -
  have st: "unat (startAddress (slab_pool s j)) = unat base + j * 0x100000"
    and en: "unat (endAddress (slab_pool s j)) = unat base + j * 0x100000 + 0xfffff" if "j < 6" for j
    using slab_okD [OF ok that] by simp_all
  have only: "startAddress (slab_pool s j) \<le> a \<and> a \<le> endAddress (slab_pool s j) \<longleftrightarrow> j = k" if "j < 6" for j
  proof (cases "j = k")
    case False
    from strides_apart [OF this, of "0x100000"] show ?thesis
      using assms(3,4) False unfolding word_le_nat_alt st [OF k] en [OF k] st [OF that] en [OF that]
      by auto
  qed (use assms(3,4) in simp)
  have "\<not> a < startAddress (slab_pool s 0)" and "\<not> endAddress (slab_pool s 5) < a"
    using assms(3,4) st [OF k] en [OF k] st [of 0] en [of 5] k
    by (auto simp: word_le_nat_alt word_less_nat_alt)
  moreover have "(0::nat) < 6" "(1::nat) < 6" "(2::nat) < 6" "(3::nat) < 6" "(4::nat) < 6" "(5::nat) < 6"
    by simp_all
  note this [THEN only]
  moreover have pools: "pool4K s = slab_pool s 0" "pool8K s = slab_pool s 1" "pool16K s = slab_pool s 2"
      "pool32K s = slab_pool s 3" "pool64K s = slab_pool s 4" "pool128K s = slab_pool s 5"
    by (simp_all add: slab_pool_def)
  ultimately have "slab_freeBlock s a = (if 0 = k then res_bind (bmm_freeBlock (slab_pool s 0) a) (\<lambda>p. Inr (True, s\<lparr>pool4K := p\<rparr>))
      else if 1 = k then res_bind (bmm_freeBlock (slab_pool s 1) a) (\<lambda>p. Inr (True, s\<lparr>pool8K := p\<rparr>))
      else if 2 = k then res_bind (bmm_freeBlock (slab_pool s 2) a) (\<lambda>p. Inr (True, s\<lparr>pool16K := p\<rparr>))
      else if 3 = k then res_bind (bmm_freeBlock (slab_pool s 3) a) (\<lambda>p. Inr (True, s\<lparr>pool32K := p\<rparr>))
      else if 4 = k then res_bind (bmm_freeBlock (slab_pool s 4) a) (\<lambda>p. Inr (True, s\<lparr>pool64K := p\<rparr>))
      else if 5 = k then res_bind (bmm_freeBlock (slab_pool s 5) a) (\<lambda>p. Inr (True, s\<lparr>pool128K := p\<rparr>))
      else Inr (False, s))"
    unfolding slab_freeBlock_def pools by (simp only: de_Morgan_disj if_False simp_thms)
  then show ?thesis
    using k unfolding less_6_cases by (elim disjE) (simp_all add: slab_upd_def)
qed

lemma slab_freeBlock_spec:
  assumes ok: "slab_ok base s" and live: "(a, z) \<in> slab_live s"
  shows "\<exists>s'. slab_freeBlock s a = Inr (True, s') \<and> slab_ok base s' \<and> slab_live s' = slab_live s - {(a, z)}"
proof -
  from live obtain k where k: "k < 6" "a \<in> bmm_live (slab_pool s k)" "z = blockSize (slab_pool s k)"
    by (auto simp: slab_live_def)
  note okk = slab_okD(1) [OF ok k(1)]
  have "unat a \<in> span a (blockSize (slab_pool s k))"
    using slab_okD(4) [OF ok k(1)] by (simp add: span_def)
  then have rng: "startAddress (slab_pool s k) \<le> a" "a \<le> endAddress (slab_pool s k)"
    using bmm_live_area [OF okk k(2)] by (auto simp: word_le_nat_alt)
  from bmm_freeBlock_live [OF okk k(2)] obtain p where
    p: "bmm_freeBlock (slab_pool s k) a = Inr p" "bmm_ok p" "bmm_live p = bmm_live (slab_pool s k) - {a}"
      "startAddress p = startAddress (slab_pool s k)" "endAddress p = endAddress (slab_pool s k)"
      "blockSize p = blockSize (slab_pool s k)"
    by blast
  have "a \<notin> bmm_live (slab_pool s j)" if "j < 6" "j \<noteq> k" for j
    using slab_pools_apart [OF ok k(1) that k(2), of a] slab_okD(4) [OF ok k(1)] slab_okD(4) [OF ok that(1)]
    by (auto simp: span_def)
  then have "slab_live (slab_upd s k p) = slab_live s - {(a, z)}"
    using slab_live_upd [OF k(1) p(6)] slab_live_split [OF k(1), of s] p(3) k(3) by auto
  then show ?thesis
    using slab_freeBlock_class [OF ok k(1) rng] p slab_ok_upd [OF ok k(1) p(2,4,5,6)] by simp
qed

subsection \<open>The constructed allocator\<close>

lemma unat_offset: "unat b + c < 2 ^ 32 \<Longrightarrow> unat (b + of_nat c :: u32) = unat b + c"
  by (simp add: unat_word_ariths(1))

lemma slab_pool_new:
  assumes "k < 6"
  shows "slab_pool (SlabAllocator_new base) k =
    BitmapMemoryManager_new (base + of_nat (k * 0x100000)) (base + of_nat (k * 0x100000 + 0xfffff))
      (of_nat (4096 * 2 ^ k)) False"
  using assms unfolding less_6_cases
  by (elim disjE) (simp_all add: slab_pool_def SlabAllocator_new_def add.commute)

lemma slab_new_ok:
  assumes "0 < base" and "unat base + 0x600000 \<le> 2 ^ 32"
  shows "slab_ok base (SlabAllocator_new base)" and "slab_live (SlabAllocator_new base) = {}"
proof -
  have pool: "bmm_ok (slab_pool (SlabAllocator_new base) k) \<and> bmm_live (slab_pool (SlabAllocator_new base) k) = {}
      \<and> unat (startAddress (slab_pool (SlabAllocator_new base) k)) = unat base + k * 0x100000
      \<and> unat (endAddress (slab_pool (SlabAllocator_new base) k)) = unat base + k * 0x100000 + 0xfffff
      \<and> unat (blockSize (slab_pool (SlabAllocator_new base) k)) = 4096 * 2 ^ k" if "k < 6" for k
  proof -
    let ?s = "base + of_nat (k * 0x100000)" and ?e = "base + of_nat (k * 0x100000 + 0xfffff)"
    let ?b = "of_nat (4096 * 2 ^ k) :: u32"
    have "k * 0x100000 + 0xfffff < 0x600000"
      using that by simp
    then have "unat base + (k * 0x100000 + 0xfffff) < 2 ^ 32" and "unat base + k * 0x100000 < 2 ^ 32"
      using assms(2) by linarith+
    then have s: "unat ?s = unat base + k * 0x100000" and e: "unat ?e = unat base + k * 0x100000 + 0xfffff"
      by (simp_all only: unat_offset add.assoc)
    have b: "unat ?b = 4096 * 2 ^ k"
      using that unfolding less_6_cases by (elim disjE) simp_all
    have "4096 \<le> 4096 * (2::nat) ^ k"
      by simp
    then have "1 < ?b" "0 < ?s" "?s \<le> ?e"
      using s e b assms(1) by (simp_all only: word_less_nat_alt word_le_nat_alt unat_0 unat_1)
    from bmm_new_ok [OF this, of False] show ?thesis
      using s e b slab_pool_new [OF that, of base] by (simp add: BitmapMemoryManager_new_def)
  qed
  then show "slab_ok base (SlabAllocator_new base)" and "slab_live (SlabAllocator_new base) = {}"
    by (auto simp: slab_ok_def slab_live_def)
qed

lemma slab_new_allocate_2:
  assumes "0 < base" and "unat base + 0x600000 \<le> 2 ^ 32"
  shows "\<exists>s' h'. slab_allocateBlock (SlabAllocator_new base) 2 h = Inr (base + 0x100000, s', h')"
proof -
  let ?m = "slab_pool (SlabAllocator_new base) 1"
  note ok = slab_okD(1) [OF slab_new_ok(1) [OF assms], of 1]
  have m: "?m = BitmapMemoryManager_new (base + 0x100000) (base + 0x1fffff) 0x2000 False"
    using slab_pool_new [of 1 base] by simp
  have wf: "bm_wf (bmm_bitmap ?m)" "used (bmm_bitmap ?m) = {}" "blocks (bmm_bitmap ?m) = 128"
    unfolding m by (simp_all add: BitmapMemoryManager_new_def)
  obtain r b where f: "findAndSet (bmm_bitmap ?m) = (r, b)"
    by fastforce
  have ne: "{} \<noteq> {..<128::nat}"
    by (auto simp: set_eq_iff intro: exI [of _ 0])
  have addr: "bmm_addr ?m 0 = base + 0x100000"
    unfolding m by (simp add: bmm_addr_def BitmapMemoryManager_new_def)
  have "unat r = 0"
    using findAndSet_spec [OF wf(1) f] wf(2,3) ne by (cases "unat r") auto
  then have "\<exists>m' h'. bmm_allocateBlock ?m h = Inr (base + 0x100000, m', h')"
    using bmm_allocateBlock_free [OF ok, of h] wf(2,3) f addr ne by (simp add: ex_simps) blast
  then show ?thesis
    by (auto simp: slab_allocateBlock_class slab_class_def)
qed

text \<open>
  C5. Slab allocation: a block the slab allocator returns for \<open>frameCount\<close> page frames is at
  least that large and disjoint from every block it has handed out before from any of its six
  pools, and \<open>freeBlock\<close> of it succeeds and restores the set of live blocks.
\<close>

theorem slab_alloc_free:
  assumes "slab_ok base s" and "slab_allocateBlock s frameCount h = Inr (a, s', h')" and "a \<noteq> nullptr"
  shows "\<exists>z. 4096 * unat frameCount \<le> unat z \<and> (a, z) \<in> slab_live s' \<and> slab_ok base s' \<and>
    (\<forall>b y. (b, y) \<in> slab_live s \<longrightarrow> span a z \<inter> span b y = {}) \<and>
    (\<exists>s''. slab_freeBlock s' a = Inr (True, s'') \<and> slab_ok base s'' \<and> slab_live s'' = slab_live s)"
proof -
  from slab_allocateBlock_spec [OF assms(1,2)] assms(3)
  obtain z where z: "slab_ok base s'" "4096 * unat frameCount \<le> unat z" "slab_live s' = insert (a, z) (slab_live s)"
      "\<forall>(b, y) \<in> slab_live s. span a z \<inter> span b y = {}"
    by auto
  obtain s'' where f: "slab_freeBlock s' a = Inr (True, s'')" "slab_ok base s''" "slab_live s'' = slab_live s' - {(a, z)}"
    using slab_freeBlock_spec [OF z(1), of a z] z(3) by auto
  have "0 < unat z"
  proof -
    obtain k where "k < 6" "z = blockSize (slab_pool s' k)"
      using z(3) unfolding slab_live_def by blast
    then show ?thesis
      using slab_okD(4) [OF z(1)] by simp
  qed
  then have "(a, z) \<notin> slab_live s"
    using z(4) by (fastforce simp: span_def)
  then show ?thesis
    using z f by (intro exI [of _ z]) auto
qed

theorem slab_alloc_free_witness:
  "\<exists>s' h' s''. slab_allocateBlock (SlabAllocator_new 0x1000000) 2 (\<lambda>_. 0) = Inr (0x1100000, s', h')
    \<and> slab_freeBlock s' 0x1100000 = Inr (True, s'') \<and> slab_live s'' = {}"
proof -
  obtain s' h' where a: "slab_allocateBlock (SlabAllocator_new 0x1000000) 2 (\<lambda>_. 0) = Inr (0x1100000, s', h')"
    using slab_new_allocate_2 [of "0x1000000" "\<lambda>_. 0"] by auto
  show ?thesis
    using slab_alloc_free [OF slab_new_ok(1) a] slab_new_ok(2) [of "0x1000000"] a by auto
qed

text \<open>
  \<open>MemoryService\<close> reserves \<open>MAX_SLAB_SIZE\<close> bytes of page frames for the slab allocator, but the
  allocator manages six pools of one MiB: the very first two-frame request is answered with
  an address one MiB behind the start of the reservation, outside of it.
\<close>

theorem slab_exceeds_reservation:
  assumes "0 < base" and "unat base + 0x600000 \<le> 2 ^ 32"
  shows "\<exists>s' h'. slab_allocateBlock (SlabAllocator_new base) 2 h = Inr (base + 0x100000, s', h')
    \<and> unat base + unat MAX_SLAB_SIZE \<le> unat (base + 0x100000)"
  using slab_new_allocate_2 [OF assms, of h] unat_offset [of base "0x100000"] assms(2)
  by (auto simp: MAX_SLAB_SIZE_def)

theorem slab_exceeds_reservation_witness:
  "\<exists>s' h'. slab_allocateBlock (SlabAllocator_new 0x1000000) 2 (\<lambda>_. 0) = Inr (0x1100000, s', h')
    \<and> unat (0x1000000 :: u32) + unat MAX_SLAB_SIZE \<le> unat (0x1100000 :: u32)"
  using slab_exceeds_reservation [of "0x1000000" "\<lambda>_. 0"] by simp

end
