(* ===== verification/Arrays.thy ===== *)
theory Arrays
  imports Prelude "HOL-Library.Multiset"
begin

text \<open>
  \<^verbatim>\<open>Util::Array<T>\<close> (collection/Array.h), the bounds-checked array under the collections and the
  object pool. An array is the list of its cells; its capacity is the list's length as a
  \<^verbatim>\<open>uint32_t\<close>. \<open>sort\<close> is the code's exchange sort, with its outer loop as a partial function, and
  is proved to return a sorted permutation.
\<close>

section \<open>Access\<close>

definition arr_length :: "'a list \<Rightarrow> u32" where
  "arr_length xs = of_nat (length xs)"

definition arr_get :: "'a list \<Rightarrow> u32 \<Rightarrow> 'a result" where
  "arr_get xs index = (if arr_length xs \<le> index then Inl OUT_OF_BOUNDS else Inr (xs ! unat index))"

definition arr_set :: "'a list \<Rightarrow> u32 \<Rightarrow> 'a \<Rightarrow> 'a list result" where
  "arr_set xs index v = (if arr_length xs \<le> index then Inl OUT_OF_BOUNDS else Inr (xs[unat index := v]))"

fun arr_contains :: "'a list \<Rightarrow> 'a \<Rightarrow> bool" where
  "arr_contains [] element = False"
| "arr_contains (v # vs) element = (if v = element then True else arr_contains vs element)"

lemma arr_contains_iff [simp]: "arr_contains xs x \<longleftrightarrow> x \<in> set xs"
  by (induction xs) auto

lemma unat_arr_length [simp]: "length xs < 2 ^ 32 \<Longrightarrow> unat (arr_length xs) = length xs"
  by (simp add: arr_length_def)

lemma unat_arr_length_pred: "xs \<noteq> [] \<Longrightarrow> length xs < 2 ^ 32 \<Longrightarrow> unat (arr_length xs - 1) = length xs - 1"
  using unat_arr_length [of xs] by (subst unat_minus_one) (auto simp del: unat_arr_length)

lemma arr_get_ok: "length xs < 2 ^ 32 \<Longrightarrow> unat i < length xs \<Longrightarrow> arr_get xs i = Inr (xs ! unat i)"
  by (simp add: arr_get_def word_le_nat_alt)

lemma arr_get_bad: "length xs < 2 ^ 32 \<Longrightarrow> length xs \<le> unat i \<Longrightarrow> arr_get xs i = Inl OUT_OF_BOUNDS"
  by (simp add: arr_get_def word_le_nat_alt)

lemma arr_set_ok: "length xs < 2 ^ 32 \<Longrightarrow> unat i < length xs \<Longrightarrow> arr_set xs i v = Inr (xs[unat i := v])"
  by (simp add: arr_set_def word_le_nat_alt)

section \<open>Sorting\<close>

text \<open>
  \<open>sort_pass\<close> is the inner \<^verbatim>\<open>for\<close> loop from index \<open>i\<close> with the flag \<open>hasChanged\<close>. The bound
  \<^verbatim>\<open>length - 1\<close> is computed in 32 bits, so on the empty array the loop reads element 0.
\<close>

function sort_pass :: "'a::linorder list \<Rightarrow> u32 \<Rightarrow> bool \<Rightarrow> ('a list \<times> bool) result" where
  "sort_pass xs i hasChanged =
     (if i < arr_length xs - 1
      then res_bind (arr_get xs i) (\<lambda>a.
           res_bind (arr_get xs (i + 1)) (\<lambda>b.
             if b < a
             then res_bind (arr_set xs i b) (\<lambda>xs'.
                  res_bind (arr_set xs' (i + 1) a) (\<lambda>xs''. sort_pass xs'' (i + 1) True))
             else sort_pass xs (i + 1) hasChanged))
      else Inr (xs, hasChanged))"
  by pat_completeness auto
termination
proof (relation "measure (\<lambda>(xs, i, h). unat (arr_length xs - 1) - unat i)", goal_cases)
  case (2 xs i h a b ys zs)
  then have "arr_length zs = arr_length xs"
    by (auto simp: arr_set_def arr_length_def split: if_splits)
  with 2 show ?case
    by (simp add: word_less_nat_alt word_nat)
next
  case (3 xs i h a b)
  then show ?case
    by (simp add: word_less_nat_alt word_nat)
qed simp

declare sort_pass.simps [simp del]

partial_function (option) arr_sort :: "'a::linorder list \<Rightarrow> 'a list result option" where
  [code]: "arr_sort xs =
     (case sort_pass xs 0 False of
        Inl e \<Rightarrow> Some (Inl e)
      | Inr p \<Rightarrow> if snd p then arr_sort (fst p) else Some (Inr (fst p)))"

text \<open>The reference for one pass: carry the larger of two neighbours to the right.\<close>

fun bubble :: "'a::linorder list \<Rightarrow> 'a list" where
  "bubble (x # y # zs) = (if y < x then y # bubble (x # zs) else x # bubble (y # zs))"
| "bubble xs = xs"

lemma mset_bubble [simp]: "mset (bubble xs) = mset xs"
  by (induction xs rule: bubble.induct) auto

lemma length_bubble [simp]: "length (bubble xs) = length xs"
  by (induction xs rule: bubble.induct) auto

lemma sorted_if_bubble_id: "bubble xs = xs \<Longrightarrow> sorted xs"
  by (induction xs rule: bubble.induct) (auto split: if_splits)

lemma bubble_less:
  "bubble xs \<noteq> xs \<Longrightarrow> set xs \<subseteq> A \<Longrightarrow> (bubble xs, xs) \<in> lex {(x, y). x \<in> A \<and> y \<in> A \<and> x < y}"
  by (induction xs rule: bubble.induct) (auto split: if_splits)

lemma sort_pass_bubble:
  assumes "length (ps @ zs) < 2 ^ 32" and "zs \<noteq> []"
  shows "sort_pass (ps @ zs) (of_nat (length ps)) h = Inr (ps @ bubble zs, h \<or> bubble zs \<noteq> zs)"
  using assms
proof (induction zs arbitrary: ps h rule: bubble.induct)
  case (1 x y zs)
  let ?xs = "ps @ x # y # zs" and ?i = "of_nat (length ps) :: u32"
  have i: "unat ?i = length ps" and i1: "unat (?i + 1) = Suc (length ps)"
    using 1(3) by (simp_all add: unat_inc)
  have lt: "?i < arr_length ?xs - 1"
    using 1(3) i by (simp add: word_less_nat_alt unat_arr_length_pred)
  have s: "of_nat (length (ps @ [z])) = ?i + 1" for z :: 'a
    by (simp add: add.commute)
  show ?case
  proof (cases "y < x")
    case True
    have "sort_pass ?xs ?i h = sort_pass ((ps @ [y]) @ x # zs) (?i + 1) True"
      using lt i i1 1(3) True
      by (simp add: sort_pass.simps [of ?xs] arr_get_ok arr_set_ok nth_append list_update_append)
    then show ?thesis
      using 1(1) [of "ps @ [y]" True] True 1(3) by (simp only: s) auto
  next
    case False
    have "sort_pass ?xs ?i h = sort_pass ((ps @ [x]) @ y # zs) (?i + 1) h"
      using lt i i1 1(3) False
      by (simp add: sort_pass.simps [of ?xs] arr_get_ok nth_append)
    then show ?thesis
      using 1(2) [of "ps @ [x]" h] False 1(3) by (simp only: s) simp
  qed
qed (simp_all add: sort_pass.simps arr_length_def)

lemma arr_sort_unfold:
  assumes "xs \<noteq> []" and "length xs < 2 ^ 32"
  shows "arr_sort xs = (if bubble xs = xs then Some (Inr xs) else arr_sort (bubble xs))"
  using sort_pass_bubble [of "[]" xs False] assms by (simp add: arr_sort.simps)

lemma arr_sort_terminates:
  fixes xs :: "'a::linorder list"
  assumes "xs \<noteq> []" and "length xs < 2 ^ 32"
  shows "\<exists>ys. arr_sort xs = Some (Inr ys) \<and> sorted ys \<and> mset ys = mset xs"
proof -
  define r where "r = {(x, y). x \<in> set xs \<and> y \<in> set xs \<and> x < (y::'a)}"
  have "wf r"
  proof (rule finite_acyclic_wf)
    show "finite r"
      by (rule finite_subset [of _ "set xs \<times> set xs"]) (auto simp: r_def)
    have "(x, y) \<in> r\<^sup>+ \<Longrightarrow> x < y" for x y
      by (induction rule: trancl_induct) (auto simp: r_def)
    then show "acyclic r"
      by (force simp: acyclic_def)
  qed
  then have "wf (lex r)"
    by (rule wf_lex)
  moreover have "mset ys = mset xs \<Longrightarrow> \<exists>zs. arr_sort ys = Some (Inr zs) \<and> sorted zs \<and> mset zs = mset ys" for ys
    using \<open>wf (lex r)\<close>
  proof (induction ys rule: wf_induct_rule)
    case (less ys)
    then have ys: "set ys = set xs" "ys \<noteq> []" "length ys < 2 ^ 32"
      using assms by (auto dest: mset_eq_setD mset_eq_length)
    show ?case
    proof (cases "bubble ys = ys")
      case True
      then show ?thesis
        using arr_sort_unfold [OF ys(2,3)] sorted_if_bubble_id by auto
    next
      case False
      then have "(bubble ys, ys) \<in> lex r"
        using bubble_less [OF False, of "set xs"] ys by (simp add: r_def)
      then show ?thesis
        using less False arr_sort_unfold [OF ys(2,3)] by simp
    qed
  qed
  ultimately show ?thesis
    by blast
qed

text \<open>
  C9. \<open>Array::sort\<close> terminates on every non-empty array and leaves a sorted permutation of the
  elements; on an empty array it fails with \<open>OUT_OF_BOUNDS\<close>, because \<^verbatim>\<open>length - 1\<close> wraps.
\<close>

theorem arr_sort_correct:
  assumes "length xs < 2 ^ 32"
  shows "if xs = [] then arr_sort xs = Some (Inl OUT_OF_BOUNDS)
    else \<exists>ys. arr_sort xs = Some (Inr ys) \<and> sorted ys \<and> mset ys = mset xs"
proof (cases "xs = []")
  case True
  then show ?thesis
    by (simp add: arr_sort.simps sort_pass.simps arr_length_def arr_get_def word_less_nat_alt
        unsigned_minus_1_eq_mask mask_eq_exp_minus_1)
qed (use arr_sort_terminates assms in auto)

theorem arr_sort_correct_witness:
  "\<exists>ys. arr_sort [3, 1, 2::u8] = Some (Inr ys) \<and> sorted ys \<and> mset ys = mset [3, 1, 2]"
  using arr_sort_correct [of "[3, 1, 2::u8]"] by simp

end
