(* ===== verification/Pools.thy ===== *)
theory Pools
  imports Arrays Block_Managers
begin

text \<open>
  \<^verbatim>\<open>Util::Pool<T>\<close> (collection/Pool.h), the lock-free pool of pointers, and
  \<^verbatim>\<open>Kernel::PagingAreaManager\<close>, which serves page-table blocks from such a pool. The pool is
  refined to a multiset of elements, first for calls that do not overlap, then for arbitrary
  interleavings of the atomic steps of \<open>push\<close> and \<open>pop\<close> by any number of threads.
\<close>

section \<open>Pool\<close>

record Pool =
  parray :: "u32 list"
  allocatedMap :: AtomicBitmap
  writtenMap :: AtomicBitmap

text \<open>The cells of \<^verbatim>\<open>new T[size]\<close> are not initialized: \<open>cells\<close> is what they happen to hold.\<close>

definition Pool_new :: "u32 list \<Rightarrow> Pool" where
  "Pool_new cells = \<lparr>parray = cells, allocatedMap = AtomicBitmap_new (arr_length cells),
     writtenMap = AtomicBitmap_new (arr_length cells)\<rparr>"

definition pool_push :: "Pool \<Rightarrow> u32 \<Rightarrow> (bool \<times> Pool) result" where
  "pool_push p element =
     (let (index, a) = findAndSet (allocatedMap p); p = p\<lparr>allocatedMap := a\<rparr>
      in if index = INVALID_INDEX then Inr (False, p)
         else res_bind (arr_set (parray p) index element) (\<lambda>xs.
                Inr (True, p\<lparr>parray := xs, writtenMap := bm_set (writtenMap p) index\<rparr>)))"

definition pool_pop :: "Pool \<Rightarrow> (u32 \<times> Pool) result" where
  "pool_pop p =
     (let (index, w) = findAndUnset (writtenMap p); p = p\<lparr>writtenMap := w\<rparr>
      in if index = INVALID_INDEX then Inl ILLEGAL_STATE
         else res_bind (arr_get (parray p) index) (\<lambda>element.
                Inr (element, p\<lparr>allocatedMap := bm_unset (allocatedMap p) index\<rparr>)))"

definition pool_getCapacity :: "Pool \<Rightarrow> u32" where
  "pool_getCapacity p = blocks (allocatedMap p)"

function fillingDegree_from :: "AtomicBitmap \<Rightarrow> u32 \<Rightarrow> u32 \<Rightarrow> u32" where
  "fillingDegree_from b i degree =
     (if i < blocks b
      then fillingDegree_from b (i + 1) (if bm_check b i True then degree + 1 else degree)
      else degree)"
  by pat_completeness auto
termination
  by (relation "measure (\<lambda>(b, i, d). unat (blocks b) - unat i)") (auto simp: word_nat word_less_nat_alt)

declare fillingDegree_from.simps [simp del]

definition pool_getFillingDegree :: "Pool \<Rightarrow> u32" where
  "pool_getFillingDegree p = fillingDegree_from (allocatedMap p) 0 0"

definition pool_isFull :: "Pool \<Rightarrow> bool" where
  "pool_isFull p \<longleftrightarrow> pool_getFillingDegree p = blocks (allocatedMap p)"

subsection \<open>Refinement to a multiset\<close>

definition pool_shape :: "Pool \<Rightarrow> bool" where
  "pool_shape p \<longleftrightarrow> bm_wf (allocatedMap p) \<and> bm_wf (writtenMap p) \<and> length (parray p) < 2 ^ 32 \<and>
     unat (blocks (allocatedMap p)) = length (parray p) \<and> unat (blocks (writtenMap p)) = length (parray p)"

definition pool_ok :: "Pool \<Rightarrow> bool" where
  "pool_ok p \<longleftrightarrow> pool_shape p \<and> used (allocatedMap p) = used (writtenMap p)"

definition bag_of :: "u32 list \<Rightarrow> nat set \<Rightarrow> u32 multiset" where
  "bag_of xs W = image_mset (nth xs) (mset_set W)"

definition pool_bag :: "Pool \<Rightarrow> u32 multiset" where
  "pool_bag p = bag_of (parray p) (used (writtenMap p))"

lemma bag_of_insert: "finite W \<Longrightarrow> i \<notin> W \<Longrightarrow> bag_of xs (insert i W) = add_mset (xs ! i) (bag_of xs W)"
  by (simp add: bag_of_def)

lemma bag_of_remove: "finite W \<Longrightarrow> i \<in> W \<Longrightarrow> bag_of xs W = add_mset (xs ! i) (bag_of xs (W - {i}))"
  by (simp add: bag_of_def mset_set.remove)

lemma bag_of_update: "finite W \<Longrightarrow> i \<notin> W \<Longrightarrow> bag_of (xs[i := v]) W = bag_of xs W"
  unfolding bag_of_def by (rule image_mset_cong) (metis elem_mset_set nth_list_update_neq)

lemma size_pool_bag: "size (pool_bag p) = card (used (writtenMap p))"
  by (simp add: pool_bag_def bag_of_def)

lemma used_full_card: "bm_wf b \<Longrightarrow> card (used b) = unat (blocks b) \<Longrightarrow> used b = {..<unat (blocks b)}"
  by (intro card_subset_eq used_bound) simp_all

lemma pool_new_ok: "length cells < 2 ^ 32 \<Longrightarrow> pool_ok (Pool_new cells) \<and> pool_bag (Pool_new cells) = {#}"
  by (simp add: pool_ok_def pool_shape_def Pool_new_def pool_bag_def bag_of_def)

lemma pool_push_spec:
  assumes ok: "pool_ok p"
  shows "\<exists>b p'. pool_push p e = Inr (b, p') \<and> pool_ok p' \<and> length (parray p') = length (parray p)
    \<and> (b \<longleftrightarrow> size (pool_bag p) < length (parray p))
    \<and> pool_bag p' = (if b then add_mset e (pool_bag p) else pool_bag p)"
proof -
  obtain i a where f: "findAndSet (allocatedMap p) = (i, a)"
    by fastforce
  have sh: "pool_shape p" and wf: "bm_wf (allocatedMap p)" "bm_wf (writtenMap p)"
    and eq: "used (allocatedMap p) = used (writtenMap p)"
    using ok by (simp_all add: pool_ok_def pool_shape_def)
  note spec = findAndSet_spec [OF wf(1) f]
  show ?thesis
  proof (cases "used (allocatedMap p) = {..<unat (blocks (allocatedMap p))}")
    case True
    with spec have "i = INVALID_INDEX" "bm_wf a" "blocks a = blocks (allocatedMap p)" "used a = used (allocatedMap p)"
      by simp_all
    moreover have "size (pool_bag p) = length (parray p)"
      using True sh eq by (simp add: size_pool_bag pool_shape_def)
    ultimately show ?thesis
      using ok by (intro exI [of _ False]) (simp add: pool_push_def f pool_ok_def pool_shape_def pool_bag_def)
  next
    case False
    with spec have i: "bm_wf a" "blocks a = blocks (allocatedMap p)" "i < blocks (allocatedMap p)"
        "unat i \<notin> used (writtenMap p)" "used a = insert (unat i) (used (writtenMap p))" "i \<noteq> INVALID_INDEX"
      by (auto simp: eq)
    have lt: "unat i < length (parray p)" "i < blocks (writtenMap p)"
      using i(3) sh by (simp_all add: pool_shape_def word_less_nat_alt)
    have "card (used (writtenMap p)) \<noteq> unat (blocks (writtenMap p))"
      using used_full_card [OF wf(2)] False sh eq by (auto simp: pool_shape_def)
    then have "size (pool_bag p) < length (parray p)"
      using card_mono [OF _ used_bound [of "writtenMap p"]] sh by (simp add: size_pool_bag pool_shape_def)
    moreover have "pool_push p e = Inr (True, p\<lparr>allocatedMap := a, parray := (parray p)[unat i := e],
        writtenMap := bm_set (writtenMap p) i\<rparr>)"
      using i(6) lt(1) sh by (simp add: pool_push_def f arr_set_ok pool_shape_def)
    ultimately show ?thesis
      using i lt sh bm_set_used [OF wf(2), of i]
      by (intro exI [of _ True]) (simp add: pool_ok_def pool_shape_def pool_bag_def bag_of_insert bag_of_update)
  qed
qed

lemma pool_pop_spec:
  assumes ok: "pool_ok p"
  shows "if pool_bag p = {#} then pool_pop p = Inl ILLEGAL_STATE
    else \<exists>e p'. pool_pop p = Inr (e, p') \<and> pool_ok p' \<and> length (parray p') = length (parray p)
      \<and> pool_bag p = add_mset e (pool_bag p')"
proof -
  obtain i w where f: "findAndUnset (writtenMap p) = (i, w)"
    by fastforce
  have sh: "pool_shape p" and wf: "bm_wf (allocatedMap p)" "bm_wf (writtenMap p)"
    and eq: "used (allocatedMap p) = used (writtenMap p)"
    using ok by (simp_all add: pool_ok_def pool_shape_def)
  note spec = findAndUnset_spec [OF wf(2) f]
  show ?thesis
  proof (cases "used (writtenMap p) = {}")
    case True
    then show ?thesis
      using spec by (simp add: pool_pop_def f pool_bag_def bag_of_def)
  next
    case False
    with spec have i: "bm_wf w" "blocks w = blocks (writtenMap p)" "i < blocks (writtenMap p)"
        "unat i \<in> used (writtenMap p)" "used w = used (writtenMap p) - {unat i}" "i \<noteq> INVALID_INDEX"
      by auto
    have lt: "unat i < length (parray p)" "i < blocks (allocatedMap p)"
      using i(3) sh by (simp_all add: pool_shape_def word_less_nat_alt)
    have "pool_pop p = Inr (parray p ! unat i,
        p\<lparr>writtenMap := w, allocatedMap := bm_unset (allocatedMap p) i\<rparr>)"
      using i(6) lt(1) sh by (simp add: pool_pop_def f arr_get_ok pool_shape_def)
    moreover have "pool_bag p \<noteq> {#}"
      using False by (simp add: pool_bag_def bag_of_def mset_set_empty_iff)
    ultimately show ?thesis
      using i lt sh eq bm_unset_used [OF wf(1), of i]
      by (simp add: pool_ok_def pool_shape_def pool_bag_def bag_of_remove [of "used (writtenMap p)" "unat i"])
  qed
qed

lemma fillingDegree_from_eq:
  assumes "i \<le> blocks b" and "unat d = card (used b \<inter> {..<unat i})"
  shows "unat (fillingDegree_from b i d) = card (used b)"
  using assms
proof (induction b i d rule: fillingDegree_from.induct)
  case (1 b i d)
  show ?case
  proof (cases "i < blocks b")
    case True
    have i1: "unat (i + 1) = Suc (unat i)" "i + 1 \<le> blocks b"
      using True by (auto intro: unat_less_suc) (simp add: inc_le)
    have "card (used b \<inter> {..<unat i}) \<le> unat i"
      using card_mono [of "{..<unat i}" "used b \<inter> {..<unat i}"] by simp
    then have d1: "unat (d + 1) = Suc (unat d)"
      using 1(3) True i1(1) unat_lt_2_32 [of "i + 1"] by (intro unat_inc) linarith
    have "used b \<inter> {..<unat (i + 1)} =
        (if unat i \<in> used b then insert (unat i) (used b \<inter> {..<unat i}) else used b \<inter> {..<unat i})"
      using i1(1) by (auto simp: less_Suc_eq)
    then have "unat (if bm_check b i True then d + 1 else d) = card (used b \<inter> {..<unat (i + 1)})"
      using 1(3) d1 True by (simp add: bm_check_used)
    then show ?thesis
      using 1(1) [OF True i1(2)] True by (simp add: fillingDegree_from.simps [of b i])
  next
    case False
    then have "i = blocks b"
      using 1(2) by simp
    moreover have "used b \<inter> {..<unat (blocks b)} = used b"
      using used_bound by blast
    ultimately show ?thesis
      using 1(3) by (simp add: fillingDegree_from.simps [of b "blocks b"])
  qed
qed

lemma pool_isFull_iff: "pool_ok p \<Longrightarrow> pool_isFull p \<longleftrightarrow> size (pool_bag p) = length (parray p)"
  using fillingDegree_from_eq [of 0 "allocatedMap p" 0]
  by (auto simp: pool_isFull_def pool_getFillingDegree_def size_pool_bag pool_ok_def pool_shape_def
      word_unat_eq_iff)

section \<open>Concurrent use of a pool\<close>

text \<open>
  A thread inside \<open>push\<close> or \<open>pop\<close>, by the atomic step it takes next. The scans are the loops of
  \<open>findAndSet\<close> and \<open>findAndUnset\<close>; the accesses to \<open>array\<close> and the second bitmap follow as
  separate steps, so other threads run between them.
\<close>

datatype pool_phase =
    PoolIdle
  | PushScan u32 u32
  | PushWrite u32 u32
  | PushMark u32 u32
  | PopScan u32
  | PopRead u32
  | PopUnset u32 u32

text \<open>
  The ghost multisets \<open>ins\<close> and \<open>outs\<close> collect the elements of the completed calls of \<open>push\<close>
  that returned true and of \<open>pop\<close>. Threads are numbered below \<open>N\<close>.
\<close>

type_synonym pool_run = "Pool \<times> (nat \<Rightarrow> pool_phase) \<times> u32 multiset \<times> u32 multiset"

inductive pool_step :: "nat \<Rightarrow> pool_run \<Rightarrow> pool_run \<Rightarrow> bool" for N where
  push_begin: "t < N \<Longrightarrow> p t = PoolIdle \<Longrightarrow> pool_step N (q, p, ins, outs) (q, p(t := PushScan e 0), ins, outs)"
| push_miss: "t < N \<Longrightarrow> p t = PushScan e i \<Longrightarrow> i < blocks (allocatedMap q) \<Longrightarrow>
    probe_set (allocatedMap q) i = (True, a) \<Longrightarrow>
    pool_step N (q, p, ins, outs) (q\<lparr>allocatedMap := a\<rparr>, p(t := PushScan e (i + 1)), ins, outs)"
| push_hit: "t < N \<Longrightarrow> p t = PushScan e i \<Longrightarrow> i < blocks (allocatedMap q) \<Longrightarrow>
    probe_set (allocatedMap q) i = (False, a) \<Longrightarrow>
    pool_step N (q, p, ins, outs) (q\<lparr>allocatedMap := a\<rparr>, p(t := PushWrite e i), ins, outs)"
| push_full: "t < N \<Longrightarrow> p t = PushScan e i \<Longrightarrow> i = blocks (allocatedMap q) \<Longrightarrow>
    pool_step N (q, p, ins, outs) (q, p(t := PoolIdle), ins, outs)"
| push_write: "t < N \<Longrightarrow> p t = PushWrite e i \<Longrightarrow> arr_set (parray q) i e = Inr xs \<Longrightarrow>
    pool_step N (q, p, ins, outs) (q\<lparr>parray := xs\<rparr>, p(t := PushMark e i), ins, outs)"
| push_mark: "t < N \<Longrightarrow> p t = PushMark e i \<Longrightarrow>
    pool_step N (q, p, ins, outs)
      (q\<lparr>writtenMap := bm_set (writtenMap q) i\<rparr>, p(t := PoolIdle), add_mset e ins, outs)"
| pop_begin: "t < N \<Longrightarrow> p t = PoolIdle \<Longrightarrow> pool_step N (q, p, ins, outs) (q, p(t := PopScan 0), ins, outs)"
| pop_miss: "t < N \<Longrightarrow> p t = PopScan i \<Longrightarrow> i < blocks (writtenMap q) \<Longrightarrow>
    probe_unset (writtenMap q) i = (False, w) \<Longrightarrow>
    pool_step N (q, p, ins, outs) (q\<lparr>writtenMap := w\<rparr>, p(t := PopScan (i + 1)), ins, outs)"
| pop_hit: "t < N \<Longrightarrow> p t = PopScan i \<Longrightarrow> i < blocks (writtenMap q) \<Longrightarrow>
    probe_unset (writtenMap q) i = (True, w) \<Longrightarrow>
    pool_step N (q, p, ins, outs) (q\<lparr>writtenMap := w\<rparr>, p(t := PopRead i), ins, outs)"
| pop_empty: "t < N \<Longrightarrow> p t = PopScan i \<Longrightarrow> i = blocks (writtenMap q) \<Longrightarrow>
    pool_step N (q, p, ins, outs) (q, p(t := PoolIdle), ins, outs)"
| pop_read: "t < N \<Longrightarrow> p t = PopRead i \<Longrightarrow> arr_get (parray q) i = Inr e \<Longrightarrow>
    pool_step N (q, p, ins, outs) (q, p(t := PopUnset e i), ins, outs)"
| pop_unset: "t < N \<Longrightarrow> p t = PopUnset e i \<Longrightarrow>
    pool_step N (q, p, ins, outs)
      (q\<lparr>allocatedMap := bm_unset (allocatedMap q) i\<rparr>, p(t := PoolIdle), ins, add_mset e outs)"

fun slot_of :: "pool_phase \<Rightarrow> nat option" where
  "slot_of (PushWrite e i) = Some (unat i)"
| "slot_of (PushMark e i) = Some (unat i)"
| "slot_of (PopRead i) = Some (unat i)"
| "slot_of (PopUnset e i) = Some (unat i)"
| "slot_of _ = None"

fun in_flight :: "u32 list \<Rightarrow> pool_phase \<Rightarrow> u32 multiset" where
  "in_flight xs (PopRead i) = {#xs ! unat i#}"
| "in_flight xs (PopUnset e i) = {#e#}"
| "in_flight xs _ = {#}"

text \<open>
  The invariant: a slot a thread works on is claimed, not published, and no other thread's;
  a published slot is claimed; a written slot holds its element; and every element that went
  in has come out, is in the pool, or is on its way out.
\<close>

definition slots_ok :: "Pool \<Rightarrow> (nat \<Rightarrow> pool_phase) \<Rightarrow> bool" where
  "slots_ok q p \<longleftrightarrow> pool_shape q \<and> used (writtenMap q) \<subseteq> used (allocatedMap q) \<and>
     (\<forall>t k. slot_of (p t) = Some k \<longrightarrow> k \<in> used (allocatedMap q) - used (writtenMap q)) \<and>
     (\<forall>t u k. slot_of (p t) = Some k \<longrightarrow> slot_of (p u) = Some k \<longrightarrow> t = u) \<and>
     (\<forall>t e i. p t = PushMark e i \<longrightarrow> parray q ! unat i = e)"

definition conserved :: "nat \<Rightarrow> pool_run \<Rightarrow> bool" where
  "conserved N s = (case s of (q, p, ins, outs) \<Rightarrow>
     ins = outs + pool_bag q + (\<Sum>t<N. in_flight (parray q) (p t)))"

lemma sum_fun_upd_mset:
  fixes f :: "'b \<Rightarrow> 'c multiset" and N :: nat
  assumes "t < N"
  shows "(\<Sum>u<N. f ((p(t := x)) u)) + f (p t) = (\<Sum>u<N. f (p u)) + f x"
proof -
  have "(\<Sum>u<N. f ((p(t := x)) u)) = f x + (\<Sum>u\<in>{..<N} - {t}. f ((p(t := x)) u))"
    using assms by (subst sum.remove [of "{..<N}" t]) auto
  also have "(\<Sum>u\<in>{..<N} - {t}. f ((p(t := x)) u)) = (\<Sum>u\<in>{..<N} - {t}. f (p u))"
    by (rule sum.cong) auto
  finally show ?thesis
    using assms by (subst (2) sum.remove [of "{..<N}" t]) (auto simp: ac_simps)
qed

lemma slot_bound: "pool_shape q \<Longrightarrow> k \<in> used (allocatedMap q) \<Longrightarrow> k < length (parray q)"
  using used_bound [of "allocatedMap q"] by (auto simp: pool_shape_def)

lemma slots_ok_upd:
  assumes "slots_ok q p" and "pool_shape q'" and "used (writtenMap q') \<subseteq> used (allocatedMap q')"
    and "\<And>u k. u \<noteq> t \<Longrightarrow> slot_of (p u) = Some k \<Longrightarrow> k \<in> used (allocatedMap q') - used (writtenMap q')"
    and "\<And>k. slot_of x = Some k \<Longrightarrow> k \<in> used (allocatedMap q') - used (writtenMap q')"
    and "\<And>k u. slot_of x = Some k \<Longrightarrow> slot_of (p u) = Some k \<Longrightarrow> u = t"
    and "\<And>u e i. u \<noteq> t \<Longrightarrow> p u = PushMark e i \<Longrightarrow> parray q' ! unat i = e"
    and "\<And>e i. x = PushMark e i \<Longrightarrow> parray q' ! unat i = e"
  shows "slots_ok q' (p(t := x))"
  using assms unfolding slots_ok_def by (auto split: if_splits)

lemma slots_okD:
  assumes "slots_ok q p"
  shows "pool_shape q" and "used (writtenMap q) \<subseteq> used (allocatedMap q)"
    and "slot_of (p t) = Some k \<Longrightarrow> k \<in> used (allocatedMap q)"
    and "slot_of (p t) = Some k \<Longrightarrow> k \<notin> used (writtenMap q)"
    and "slot_of (p t) = Some k \<Longrightarrow> slot_of (p u) = Some k \<Longrightarrow> t = u"
    and "p t = PushMark e i \<Longrightarrow> parray q ! unat i = e"
  using assms by (auto simp: slots_ok_def)

lemma slots_ok_phase:
  "slots_ok q p \<Longrightarrow> slot_of x = None \<Longrightarrow> slots_ok q (p(t := x))"
  by (rule slots_ok_upd) (auto dest: slots_okD)

lemma pool_shape_maps:
  assumes "pool_shape q" and "bm_wf b" and "blocks b = blocks (allocatedMap q) \<or> blocks b = blocks (writtenMap q)"
  shows "pool_shape (q\<lparr>allocatedMap := b\<rparr>)" and "pool_shape (q\<lparr>writtenMap := b\<rparr>)"
  using assms by (auto simp: pool_shape_def)

lemma probe_set_D:
  assumes "bm_wf b" and "i < blocks b" and "probe_set b i = (r, c)"
  shows "bm_wf c" "blocks c = blocks b" "used c = insert (unat i) (used b)" "r \<longleftrightarrow> unat i \<in> used b"
  using probe_set_used [OF assms(1,2)] blocks_probe(1) [of b i] assms(3) by auto

lemma probe_unset_D:
  assumes "bm_wf b" and "i < blocks b" and "probe_unset b i = (r, c)"
  shows "bm_wf c" "blocks c = blocks b" "used c = used b - {unat i}" "r \<longleftrightarrow> unat i \<in> used b"
  using probe_unset_used [OF assms(1,2)] blocks_probe(2) [of b i] assms(3) by auto

lemma pool_shape_wf: "pool_shape q \<Longrightarrow> bm_wf (allocatedMap q)" "pool_shape q \<Longrightarrow> bm_wf (writtenMap q)"
  by (simp_all add: pool_shape_def)

lemma arr_set_D:
  "arr_set xs i e = Inr ys \<Longrightarrow> ys = xs[unat i := e]"
  by (simp add: arr_set_def split: if_splits)

lemma slots_ok_step:
  "pool_step N s s' \<Longrightarrow> slots_ok (fst s) (fst (snd s)) \<Longrightarrow> slots_ok (fst s') (fst (snd s'))"
proof (induction rule: pool_step.induct)
  case (push_miss t p e i q a ins outs)
  then have ok: "slots_ok q p"
    by simp
  note a = probe_set_D [OF pool_shape_wf(1) [OF slots_okD(1) [OF ok]] push_miss(3,4)]
  show ?case
    unfolding fst_conv snd_conv
    by (rule slots_ok_upd [OF ok]) (use a slots_okD [OF ok] in \<open>auto intro!: pool_shape_maps\<close>)
next
  case (push_hit t p e i q a ins outs)
  then have ok: "slots_ok q p"
    by simp
  note a = probe_set_D [OF pool_shape_wf(1) [OF slots_okD(1) [OF ok]] push_hit(3,4)]
  show ?case
    unfolding fst_conv snd_conv
    by (rule slots_ok_upd [OF ok]) (use a slots_okD [OF ok] in \<open>auto intro!: pool_shape_maps\<close>)
next
  case (push_write t p e i q xs ins outs)
  then have ok: "slots_ok q p" and t: "slot_of (p t) = Some (unat i)"
    by simp_all
  have xs: "xs = (parray q)[unat i := e]"
    by (rule arr_set_D [OF push_write(3)])
  have len: "unat i < length (parray q)"
    using slot_bound [OF slots_okD(1) [OF ok] slots_okD(3) [OF ok t]] .
  have other: "parray q ! unat j = e'" "j \<noteq> i" if "u \<noteq> t" "p u = PushMark e' j" for u e' j
    using slots_okD(6) [OF ok that(2)] slots_okD(5) [OF ok t, of u] that by auto
  show ?case
    unfolding fst_conv snd_conv
    by (rule slots_ok_upd [OF ok])
      (use slots_okD [OF ok] t len other xs in \<open>auto simp: pool_shape_def nth_list_update dest: unsigned_word_eqI\<close>)
next
  case (push_mark t p e i q ins outs)
  then have ok: "slots_ok q p" and t: "slot_of (p t) = Some (unat i)"
    by simp_all
  note w = bm_set_used [OF pool_shape_wf(2) [OF slots_okD(1) [OF ok]], of i]
  show ?case
    unfolding fst_conv snd_conv
    by (rule slots_ok_upd [OF ok]) (use w slots_okD [OF ok] t in \<open>auto intro!: pool_shape_maps split: if_splits\<close>)
next
  case (pop_miss t p i q w ins outs)
  then have ok: "slots_ok q p"
    by simp
  note w = probe_unset_D [OF pool_shape_wf(2) [OF slots_okD(1) [OF ok]] pop_miss(3,4)]
  show ?case
    unfolding fst_conv snd_conv
    by (rule slots_ok_upd [OF ok]) (use w slots_okD [OF ok] in \<open>auto intro!: pool_shape_maps\<close>)
next
  case (pop_hit t p i q w ins outs)
  then have ok: "slots_ok q p"
    by simp
  note w = probe_unset_D [OF pool_shape_wf(2) [OF slots_okD(1) [OF ok]] pop_hit(3,4)]
  show ?case
    unfolding fst_conv snd_conv
    by (rule slots_ok_upd [OF ok]) (use w slots_okD [OF ok] in \<open>auto intro!: pool_shape_maps\<close>)
next
  case (pop_read t p i q e ins outs)
  then have ok: "slots_ok q p" and t: "slot_of (p t) = Some (unat i)"
    by simp_all
  show ?case
    unfolding fst_conv snd_conv
    by (rule slots_ok_upd [OF ok]) (use slots_okD [OF ok] t in auto)
next
  case (pop_unset t p e i q ins outs)
  then have ok: "slots_ok q p" and t: "slot_of (p t) = Some (unat i)"
    by simp_all
  note a = bm_unset_used [OF pool_shape_wf(1) [OF slots_okD(1) [OF ok]], of i]
  show ?case
    unfolding fst_conv snd_conv
    by (rule slots_ok_upd [OF ok]) (use a slots_okD [OF ok] t in \<open>auto intro!: pool_shape_maps split: if_splits\<close>)
qed (auto intro: slots_ok_phase)

lemma conserved_phase:
  assumes "t < N" and "conserved N (q, p, ins, outs)" and "parray q' = parray q"
    and "ins' + outs + pool_bag q + in_flight (parray q) (p t) =
      ins + outs' + pool_bag q' + in_flight (parray q) x"
  shows "conserved N (q', p(t := x), ins', outs')"
proof -
  let ?f = "in_flight (parray q)"
  have s: "(\<Sum>u<N. ?f ((p(t := x)) u)) + ?f (p t) = (\<Sum>u<N. ?f (p u)) + ?f x"
    by (rule sum_fun_upd_mset [OF assms(1)])
  have "ins' + (outs + pool_bag q + (\<Sum>u<N. ?f (p u))) + ?f x =
      (ins' + outs + pool_bag q + ?f (p t)) + (\<Sum>u<N. ?f ((p(t := x)) u))"
    using s by (simp add: ac_simps)
  also have "\<dots> = ins + outs' + pool_bag q' + ?f x + (\<Sum>u<N. ?f ((p(t := x)) u))"
    by (simp only: assms(4))
  finally have "ins' = outs' + pool_bag q' + (\<Sum>u<N. ?f ((p(t := x)) u))"
    using assms(2) by (simp add: conserved_def ac_simps)
  then show ?thesis
    unfolding conserved_def using assms(3) by simp
qed

lemma conserved_step:
  "pool_step N s s' \<Longrightarrow> slots_ok (fst s) (fst (snd s)) \<Longrightarrow> conserved N s \<Longrightarrow> conserved N s'"
proof (induction rule: pool_step.induct)
  case (push_write t p e i q xs ins outs)
  then have ok: "slots_ok q p" and t: "slot_of (p t) = Some (unat i)"
    by simp_all
  have xs: "xs = (parray q)[unat i := e]"
    by (rule arr_set_D [OF push_write(3)])
  have "in_flight xs ((p(t := PushMark e i)) u) = in_flight (parray q) (p u)" for u
  proof (cases "u = t")
    case False
    then have "unat i \<noteq> unat j" if "p u = PopRead j" for j
      using slots_okD(5) [OF ok t, of u] that by auto
    then show ?thesis
      using False xs by (cases "p u") auto
  qed (simp add: push_write(2))
  then have "(\<Sum>u<N. in_flight xs ((p(t := PushMark e i)) u)) = (\<Sum>u<N. in_flight (parray q) (p u))"
    by simp
  moreover have "pool_bag (q\<lparr>parray := xs\<rparr>) = pool_bag q"
    using slots_okD(4) [OF ok t] by (simp add: pool_bag_def xs bag_of_update)
  ultimately show ?case
    using push_write(5) unfolding conserved_def by simp
next
  case (push_mark t p e i q ins outs)
  then have ok: "slots_ok q p" and t: "slot_of (p t) = Some (unat i)"
    by simp_all
  have "unat i < unat (blocks (writtenMap q))"
    using slot_bound [OF slots_okD(1) [OF ok] slots_okD(3) [OF ok t]] slots_okD(1) [OF ok]
    by (simp add: pool_shape_def)
  then have "pool_bag (q\<lparr>writtenMap := bm_set (writtenMap q) i\<rparr>) = add_mset e (pool_bag q)"
    using bm_set_used(3) [OF pool_shape_wf(2) [OF slots_okD(1) [OF ok]], of i] slots_okD(4) [OF ok t]
      slots_okD(6) [OF ok push_mark(2)]
    by (simp add: pool_bag_def bag_of_insert word_less_nat_alt)
  then show ?case
    using push_mark by (intro conserved_phase) auto
next
  case (pop_miss t p i q w ins outs)
  then have ok: "slots_ok q p"
    by simp
  note w = probe_unset_D [OF pool_shape_wf(2) [OF slots_okD(1) [OF ok]] pop_miss(3,4)]
  show ?case
    using pop_miss w by (intro conserved_phase) (auto simp: pool_bag_def)
next
  case (pop_hit t p i q w ins outs)
  then have ok: "slots_ok q p"
    by simp
  note w = probe_unset_D [OF pool_shape_wf(2) [OF slots_okD(1) [OF ok]] pop_hit(3,4)]
  then have "pool_bag q = add_mset (parray q ! unat i) (pool_bag (q\<lparr>writtenMap := w\<rparr>))"
    by (simp add: pool_bag_def bag_of_remove [of "used (writtenMap q)" "unat i"])
  then show ?case
    using pop_hit by (intro conserved_phase) auto
next
  case (pop_read t p i q e ins outs)
  then show ?case
    by (intro conserved_phase) (auto simp: arr_get_def split: if_splits)
qed (auto intro!: conserved_phase simp: pool_bag_def)

lemma pool_run_invariant:
  assumes "length cells < 2 ^ 32"
    and "(pool_step N)\<^sup>*\<^sup>* (Pool_new cells, \<lambda>_. PoolIdle, {#}, {#}) s"
  shows "slots_ok (fst s) (fst (snd s)) \<and> conserved N s"
  using assms(2)
proof (induction rule: rtranclp_induct)
  case base
  then show ?case
    using pool_new_ok [OF assms(1)] by (simp add: slots_ok_def conserved_def pool_ok_def)
next
  case (step s s')
  then show ?case
    using slots_ok_step conserved_step by blast
qed

text \<open>
  C1. The lock-free pool: in every interleaving of any number of threads that push and pop,
  whenever no call is in progress, the elements of the successful pushes are exactly the popped
  elements together with the elements in the pool; none is lost or handed out twice.
\<close>

theorem pool_conserves_elements:
  assumes "length cells < 2 ^ 32"
    and "(pool_step N)\<^sup>*\<^sup>* (Pool_new cells, \<lambda>_. PoolIdle, {#}, {#}) (q, p, pushed, popped)"
    and "\<forall>t. p t = PoolIdle"
  shows "pushed = popped + pool_bag q"
  using pool_run_invariant [OF assms(1,2)] assms(3) by (simp add: conserved_def)

lemma pool_push_run:
  "\<exists>q. (pool_step 1)\<^sup>*\<^sup>* (Pool_new [0], \<lambda>_. PoolIdle, {#}, {#}) (q, \<lambda>_. PoolIdle, {#5#}, {#})"
proof -
  let ?q = "Pool_new [0]" and ?p = "\<lambda>_::nat. PoolIdle"
  let ?a = "snd (probe_set (allocatedMap ?q) 0)"
  let ?q1 = "?q\<lparr>allocatedMap := ?a\<rparr>" and ?q2 = "?q\<lparr>allocatedMap := ?a, parray := [5]\<rparr>"
  let ?q3 = "?q2\<lparr>writtenMap := bm_set (writtenMap ?q2) 0\<rparr>"
  have 1: "pool_step 1 (?q, ?p, {#}, {#}) (?q, ?p(0 := PushScan 5 0), {#}, {#})"
    by (rule push_begin) simp_all
  have hit: "probe_set (allocatedMap ?q) 0 = (False, ?a)" and lt: "0 < blocks (allocatedMap ?q)"
    by (simp_all add: Pool_new_def arr_length_def prod_eq_iff probe_set_used)
  have 2: "pool_step 1 (?q, ?p(0 := PushScan 5 0), {#}, {#}) (?q1, ?p(0 := PushWrite 5 0), {#}, {#})"
    using push_hit [of 0 1 "?p(0 := PushScan 5 0)", OF _ _ lt hit] unfolding fun_upd_upd by simp
  have set: "arr_set (parray ?q1) 0 5 = Inr [5]"
    by (simp add: arr_set_def arr_length_def Pool_new_def)
  have 3: "pool_step 1 (?q1, ?p(0 := PushWrite 5 0), {#}, {#}) (?q2, ?p(0 := PushMark 5 0), {#}, {#})"
    using push_write [of 0 1 "?p(0 := PushWrite 5 0)", OF _ _ set] unfolding fun_upd_upd by simp
  have 4: "pool_step 1 (?q2, ?p(0 := PushMark 5 0), {#}, {#}) (?q3, ?p, {#5#}, {#})"
    using push_mark [of 0 1 "?p(0 := PushMark 5 0)" 5 0 ?q2 "{#}" "{#}"] unfolding fun_upd_upd
    by (simp add: fun_upd_idem)
  note runs = 1 2 3 4
  note runs [THEN r_into_rtranclp [of "pool_step 1"]]
  from rtranclp_trans [OF rtranclp_trans [OF this(1,2)] rtranclp_trans [OF this(3,4)]] show ?thesis ..
qed

theorem pool_conserves_elements_witness:
  "\<exists>q. (pool_step 1)\<^sup>*\<^sup>* (Pool_new [0], \<lambda>_. PoolIdle, {#}, {#}) (q, \<lambda>_. PoolIdle, {#5#}, {#})
     \<and> pool_bag q = {#5#}"
proof -
  obtain q where q: "(pool_step 1)\<^sup>*\<^sup>* (Pool_new [0], \<lambda>_. PoolIdle, {#}, {#}) (q, \<lambda>_. PoolIdle, {#5#}, {#})"
    using pool_push_run by blast
  show ?thesis
    using q pool_conserves_elements [OF _ q] by (intro exI [of _ q]) simp
qed

section \<open>Paging area manager\<close>

record PagingAreaManager =
  pam_manager :: BitmapMemoryManager
  blockPool :: Pool

abbreviation BLOCK_POOL_SIZE :: nat where "BLOCK_POOL_SIZE \<equiv> 128"

definition PAGING_AREA_SIZE :: u32 where "PAGING_AREA_SIZE = 16 * 1024 * 1024"

definition pam_allocateBlock :: "PagingAreaManager \<Rightarrow> mem \<Rightarrow> (u32 \<times> PagingAreaManager \<times> mem) result" where
  "pam_allocateBlock m h = res_bind (pool_pop (blockPool m)) (\<lambda>(a, p). Inr (a, m\<lparr>blockPool := p\<rparr>, h))"

definition pam_freeBlock :: "PagingAreaManager \<Rightarrow> u32 \<Rightarrow> PagingAreaManager result" where
  "pam_freeBlock m pointer = res_bind (bmm_freeBlock (pam_manager m) pointer) (\<lambda>b. Inr (m\<lparr>pam_manager := b\<rparr>))"

text \<open>The loop of \<open>refillPool\<close>, with \<open>n\<close> rounds to go.\<close>

primrec refill_loop :: "nat \<Rightarrow> PagingAreaManager \<Rightarrow> mem \<Rightarrow> (PagingAreaManager \<times> mem) result" where
  "refill_loop 0 m h = Inr (m, h)"
| "refill_loop (Suc n) m h =
     res_bind (bmm_allocateBlock (pam_manager m) h) (\<lambda>(block, b, h).
       let m = m\<lparr>pam_manager := b\<rparr>
       in if block = nullptr then Inl OUT_OF_PAGING_MEMORY
          else res_bind (pool_push (blockPool m) block) (\<lambda>(ok, p).
                 let m = m\<lparr>blockPool := p\<rparr>
                 in if \<not> ok
                    then res_bind (bmm_freeBlock (pam_manager m) block) (\<lambda>b. Inr (m\<lparr>pam_manager := b\<rparr>, h))
                    else refill_loop n m h))"

definition pam_refillPool :: "PagingAreaManager \<Rightarrow> mem \<Rightarrow> (PagingAreaManager \<times> mem) result" where
  "pam_refillPool m h =
     (if pool_isFull (blockPool m) then Inr (m, h)
      else refill_loop (unat (pool_getCapacity (blockPool m))) m h)"

text \<open>The constructor's loop; it ignores the result of \<open>push\<close>.\<close>

primrec prefill_loop :: "nat \<Rightarrow> PagingAreaManager \<Rightarrow> mem \<Rightarrow> (PagingAreaManager \<times> mem) result" where
  "prefill_loop 0 m h = Inr (m, h)"
| "prefill_loop (Suc n) m h =
     res_bind (bmm_allocateBlock (pam_manager m) h) (\<lambda>(block, b, h).
     res_bind (pool_push (blockPool m) block) (\<lambda>(_, p).
       prefill_loop n (m\<lparr>pam_manager := b, blockPool := p\<rparr>) h))"

definition PagingAreaManager_new :: "u32 list \<Rightarrow> u32 \<Rightarrow> u32 \<Rightarrow> u32 \<Rightarrow> mem \<Rightarrow> (PagingAreaManager \<times> mem) result" where
  "PagingAreaManager_new cells start mappedPages bootstrapPageCount h =
     (let b = BitmapMemoryManager_new start (start + PAGING_AREA_SIZE - 1) PAGESIZE True;
          b = bmm_setRange b 0 bootstrapPageCount
      in prefill_loop (unat (mappedPages - bootstrapPageCount)) \<lparr>pam_manager = b, blockPool = Pool_new cells\<rparr> h)"

subsection \<open>Invariant\<close>

text \<open>
  The pool holds distinct live blocks of the manager. The blocks a client holds are the live
  blocks that are not in the pool.
\<close>

definition pam_ok :: "PagingAreaManager \<Rightarrow> bool" where
  "pam_ok m \<longleftrightarrow> bmm_ok (pam_manager m) \<and> pool_ok (blockPool m) \<and>
     (\<forall>a. count (pool_bag (blockPool m)) a \<le> 1) \<and> set_mset (pool_bag (blockPool m)) \<subseteq> bmm_live (pam_manager m)"

definition pam_live :: "PagingAreaManager \<Rightarrow> u32 set" where
  "pam_live m = bmm_live (pam_manager m) - set_mset (pool_bag (blockPool m))"

lemma bmm_live_nonnull: "bmm_ok m \<Longrightarrow> nullptr \<notin> bmm_live m"
  using bmm_addr_nonnull [of m] used_bound [of "bmm_bitmap m"] by (auto simp: bmm_live_def bmm_ok_def)

lemma bmm_live_disjoint:
  assumes "bmm_ok m" and "a \<in> bmm_live m" and "b \<in> bmm_live m" and "a \<noteq> b"
  shows "span a (blockSize m) \<inter> span b (blockSize m) = {}"
proof -
  obtain i j where "i \<in> used (bmm_bitmap m)" "a = bmm_addr m i" "j \<in> used (bmm_bitmap m)" "b = bmm_addr m j"
    using assms(2,3) by (auto simp: bmm_live_def)
  then show ?thesis
    using assms(1,4) bmm_addr_span [of m i j] used_bound [of "bmm_bitmap m"] by (auto simp: bmm_ok_def)
qed

lemma pam_allocateBlock_spec:
  assumes ok: "pam_ok m" and r: "pam_allocateBlock m h = Inr (a, m', h')"
  shows "pam_ok m' \<and> pam_manager m' = pam_manager m \<and> a \<noteq> nullptr \<and> a \<notin> pam_live m \<and> h' = h
    \<and> a \<in> bmm_live (pam_manager m) \<and> pam_live m' = insert a (pam_live m)
    \<and> pool_bag (blockPool m) = add_mset a (pool_bag (blockPool m'))"
proof -
  obtain p where p: "pool_pop (blockPool m) = Inr (a, p)" and m': "m' = m\<lparr>blockPool := p\<rparr>" "h' = h"
    using r by (auto simp: pam_allocateBlock_def res_iff)
  have okp: "pool_ok (blockPool m)" and okm: "bmm_ok (pam_manager m)"
    using ok by (simp_all add: pam_ok_def)
  have bag: "pool_bag (blockPool m) = add_mset a (pool_bag p)" and okp': "pool_ok p"
    using pool_pop_spec [OF okp] p by (auto split: if_splits)
  have c: "count (add_mset a (pool_bag p)) x \<le> 1" for x
    using ok unfolding pam_ok_def bag by blast
  have "count (pool_bag p) x \<le> count (add_mset a (pool_bag p)) x" for x
    by simp
  then have cnt: "\<forall>x. count (pool_bag p) x \<le> 1"
    using c le_trans by blast
  have na: "a \<notin># pool_bag p" and al: "a \<in> bmm_live (pam_manager m)"
    using c [of a] ok bag by (simp_all add: pam_ok_def not_in_iff)
  have "pam_ok m'"
    using ok okp' cnt bag by (auto simp: pam_ok_def m')
  then show ?thesis
    using na al bag bmm_live_nonnull [OF okm] by (auto simp: pam_live_def m')
qed

lemma pam_freeBlock_spec:
  assumes ok: "pam_ok m" and live: "a \<in> pam_live m"
  shows "\<exists>m'. pam_freeBlock m a = Inr m' \<and> pam_ok m' \<and> pam_live m' = pam_live m - {a}
    \<and> blockSize (pam_manager m') = blockSize (pam_manager m)"
proof -
  have "bmm_ok (pam_manager m)" "a \<in> bmm_live (pam_manager m)" "a \<notin># pool_bag (blockPool m)"
    using assms by (auto simp: pam_ok_def pam_live_def)
  then show ?thesis
    using bmm_freeBlock_live [of "pam_manager m" a] ok
    by (auto simp: pam_freeBlock_def pam_ok_def pam_live_def)
qed

interpretation pam: block_manager pam_allocateBlock pam_freeBlock pam_live "\<lambda>m. blockSize (pam_manager m)" pam_ok
proof
  show "pam_ok s' \<and> blockSize (pam_manager s') = blockSize (pam_manager s) \<and>
      (if a = nullptr then pam_live s' = pam_live s
       else a \<notin> pam_live s \<and> pam_live s' = insert a (pam_live s) \<and>
         (\<forall>b \<in> pam_live s. span a (blockSize (pam_manager s)) \<inter> span b (blockSize (pam_manager s)) = {}))"
    if "pam_ok s" and "pam_allocateBlock s h = Inr (a, s', h')" for s h a s' h'
  proof -
    note r = pam_allocateBlock_spec [OF that]
    have "span a (blockSize (pam_manager s)) \<inter> span b (blockSize (pam_manager s)) = {}" if "b \<in> pam_live s" for b
      using r that \<open>pam_ok s\<close> by (intro bmm_live_disjoint) (auto simp: pam_ok_def pam_live_def)
    then show ?thesis
      using r by auto
  qed
  show "\<exists>s'. pam_freeBlock s a = Inr s' \<and> pam_ok s' \<and>
      blockSize (pam_manager s') = blockSize (pam_manager s) \<and> pam_live s' = pam_live s - {a}"
    if "pam_ok s" and "a \<in> pam_live s" for s a
    using pam_freeBlock_spec [OF that] by blast
qed

lemma pam_push_fresh:
  assumes ok: "pam_ok m" and b: "bmm_allocateBlock (pam_manager m) h = Inr (a, b, h')" and "a \<noteq> nullptr"
  shows "\<exists>r p. pool_push (blockPool m) a = Inr (r, p) \<and>
    (if r then pam_ok (m\<lparr>pam_manager := b, blockPool := p\<rparr>)
        \<and> pam_live (m\<lparr>pam_manager := b, blockPool := p\<rparr>) = pam_live m
        \<and> pool_bag p = add_mset a (pool_bag (blockPool m))
     else size (pool_bag (blockPool m)) = length (parray (blockPool m)) \<and>
       (\<exists>c. bmm_freeBlock b a = Inr c \<and> pam_ok (m\<lparr>blockPool := p, pam_manager := c\<rparr>)
        \<and> pam_live (m\<lparr>blockPool := p, pam_manager := c\<rparr>) = pam_live m
        \<and> pool_bag p = pool_bag (blockPool m)))
    \<and> length (parray p) = length (parray (blockPool m))"
proof -
  have okm: "bmm_ok (pam_manager m)" and okp: "pool_ok (blockPool m)"
    and sub: "set_mset (pool_bag (blockPool m)) \<subseteq> bmm_live (pam_manager m)"
    using ok by (simp_all add: pam_ok_def)
  from bmm_alloc_cases [OF okm b] assms(3)
  have al: "bmm_ok b" "a \<notin> bmm_live (pam_manager m)" "bmm_live b = insert a (bmm_live (pam_manager m))"
    by auto
  obtain r p where p: "pool_push (blockPool m) a = Inr (r, p)" "pool_ok p"
      "length (parray p) = length (parray (blockPool m))"
      "r \<longleftrightarrow> size (pool_bag (blockPool m)) < length (parray (blockPool m))"
      "pool_bag p = (if r then add_mset a (pool_bag (blockPool m)) else pool_bag (blockPool m))"
    using pool_push_spec [OF okp, of a] by blast
  have notin: "a \<notin># pool_bag (blockPool m)"
    using sub al(2) by blast
  show ?thesis
  proof (cases r)
    case True
    then show ?thesis
      using p al notin ok sub by (auto simp: pam_ok_def pam_live_def not_in_iff)
  next
    case False
    obtain c where c: "bmm_freeBlock b a = Inr c" "bmm_ok c" "bmm_live c = bmm_live b - {a}"
      using bmm_freeBlock_live [OF al(1), of a] al(3) by auto
    have "size (pool_bag (blockPool m)) \<le> length (parray (blockPool m))"
      using okp card_mono [OF _ used_bound [of "writtenMap (blockPool m)"]]
      by (simp add: size_pool_bag pool_ok_def pool_shape_def)
    then show ?thesis
      using p al c notin ok sub False by (auto simp: pam_ok_def pam_live_def)
  qed
qed

lemma refill_loop_spec:
  assumes "pam_ok m" and "refill_loop n m h = Inr (m', h')"
    and "length (parray (blockPool m)) \<le> n + size (pool_bag (blockPool m))"
  shows "pam_ok m' \<and> pam_live m' = pam_live m \<and> pool_bag (blockPool m) \<subseteq># pool_bag (blockPool m')
    \<and> pool_isFull (blockPool m')"
  using assms
proof (induction n arbitrary: m h)
  case 0
  have "size (pool_bag (blockPool m)) \<le> length (parray (blockPool m))"
    using 0(1) card_mono [OF _ used_bound [of "writtenMap (blockPool m)"]]
    by (simp add: size_pool_bag pam_ok_def pool_ok_def pool_shape_def)
  then show ?case
    using 0 by (auto simp: pool_isFull_iff pam_ok_def)
next
  case (Suc n)
  from Suc.prems(2) obtain a b g where a: "bmm_allocateBlock (pam_manager m) h = Inr (a, b, g)" "a \<noteq> nullptr"
    by (auto simp: res_iff Let_def split: if_splits)
  obtain r p where p: "pool_push (blockPool m) a = Inr (r, p)"
    and len: "length (parray p) = length (parray (blockPool m))"
    and t: "r \<Longrightarrow> pam_ok (m\<lparr>pam_manager := b, blockPool := p\<rparr>)
        \<and> pam_live (m\<lparr>pam_manager := b, blockPool := p\<rparr>) = pam_live m
        \<and> pool_bag p = add_mset a (pool_bag (blockPool m))"
    and f: "\<not> r \<Longrightarrow> size (pool_bag (blockPool m)) = length (parray (blockPool m)) \<and>
       (\<exists>c. bmm_freeBlock b a = Inr c \<and> pam_ok (m\<lparr>blockPool := p, pam_manager := c\<rparr>)
        \<and> pam_live (m\<lparr>blockPool := p, pam_manager := c\<rparr>) = pam_live m
        \<and> pool_bag p = pool_bag (blockPool m))"
    using pam_push_fresh [OF Suc.prems(1) a] by (metis (full_types))
  show ?case
  proof (cases r)
    case True
    let ?m = "m\<lparr>pam_manager := b, blockPool := p\<rparr>"
    note t = t [OF True]
    have "refill_loop n ?m g = Inr (m', h')"
      using Suc.prems(2) a p True by simp
    moreover have "length (parray (blockPool ?m)) \<le> n + size (pool_bag (blockPool ?m))"
      using Suc.prems(3) len t by simp
    ultimately have "pam_ok m' \<and> pam_live m' = pam_live ?m \<and> pool_bag (blockPool ?m) \<subseteq># pool_bag (blockPool m')
        \<and> pool_isFull (blockPool m')"
      using Suc.IH [of ?m g] t by blast
    moreover have "pool_bag (blockPool m) \<subseteq># pool_bag (blockPool ?m)"
      using t by simp
    ultimately show ?thesis
      using t subset_mset.order_trans by metis
  next
    case False
    obtain c where c: "bmm_freeBlock b a = Inr c" "pam_ok (m\<lparr>blockPool := p, pam_manager := c\<rparr>)"
        "pam_live (m\<lparr>blockPool := p, pam_manager := c\<rparr>) = pam_live m" "pool_bag p = pool_bag (blockPool m)"
      and full: "size (pool_bag (blockPool m)) = length (parray (blockPool m))"
      using f [OF False] by blast
    have "pool_ok p"
      using c(2) by (simp add: pam_ok_def)
    then have isfull: "pool_isFull p"
      using c(4) full len by (simp add: pool_isFull_iff)
    have "m' = m\<lparr>blockPool := p, pam_manager := c\<rparr>"
      using Suc.prems(2) a p False c(1) by simp
    then show ?thesis
      using c isfull by simp
  qed
qed

lemma refill_loop_total:
  assumes "pam_ok m" and "card (bmm_live (pam_manager m)) + n \<le> unat (blocks (bmm_bitmap (pam_manager m)))"
  shows "\<exists>r. refill_loop n m h = Inr r"
  using assms
proof (induction n arbitrary: m h)
  case (Suc n)
  let ?b = "bmm_bitmap (pam_manager m)"
  have okm: "bmm_ok (pam_manager m)"
    using Suc.prems(1) by (simp add: pam_ok_def)
  have "card (used ?b) < unat (blocks ?b)"
    using Suc.prems(2) bmm_live_card [OF okm] by simp
  then have space: "used ?b \<noteq> {..<unat (blocks ?b)}"
    by (metis card_lessThan less_irrefl)
  obtain a b g where a: "bmm_allocateBlock (pam_manager m) h = Inr (a, b, g)" "a \<noteq> nullptr"
    and l: "bmm_live b = insert a (bmm_live (pam_manager m))" "a \<notin> bmm_live (pam_manager m)"
    and bl: "blocks (bmm_bitmap b) = blocks ?b"
    using bmm_allocate_space [OF okm space, of h] by blast
  have c: "card (bmm_live b) = Suc (card (bmm_live (pam_manager m)))"
    using l by (simp add: bmm_live_def)
  obtain r p where p: "pool_push (blockPool m) a = Inr (r, p)"
    and t: "r \<Longrightarrow> pam_ok (m\<lparr>pam_manager := b, blockPool := p\<rparr>)"
    and f: "\<not> r \<Longrightarrow> \<exists>c. bmm_freeBlock b a = Inr c"
    using pam_push_fresh [OF Suc.prems(1) a] by (metis (full_types))
  show ?case
  proof (cases r)
    case True
    then show ?thesis
      using Suc.IH [OF t, of g] a p Suc.prems(2) c bl by auto
  next
    case False
    then show ?thesis
      using f a p by auto
  qed
qed simp

text \<open>
  C6. Allocation from the paging area: as long as its pool is not empty, \<open>allocateBlock\<close> returns a
  block that no client holds and whose bytes are disjoint from those of every held block; the
  pool loses exactly that block. With an empty pool it fails with \<open>ILLEGAL_STATE\<close>.
\<close>

theorem paging_area_allocate:
  assumes "pam_ok m"
  shows "if pool_bag (blockPool m) = {#} then pam_allocateBlock m h = Inl ILLEGAL_STATE
    else \<exists>a m'. pam_allocateBlock m h = Inr (a, m', h) \<and> pam_ok m' \<and> a \<notin> pam_live m
      \<and> pam_live m' = insert a (pam_live m)
      \<and> pool_bag (blockPool m) = add_mset a (pool_bag (blockPool m'))
      \<and> (\<forall>b \<in> pam_live m. span a (blockSize (pam_manager m)) \<inter> span b (blockSize (pam_manager m)) = {})"
proof (cases "pool_bag (blockPool m) = {#}")
  case True
  then show ?thesis
    using pool_pop_spec [of "blockPool m"] assms by (simp add: pam_ok_def pam_allocateBlock_def)
next
  case False
  then obtain a p where "pool_pop (blockPool m) = Inr (a, p)"
    using pool_pop_spec [of "blockPool m"] assms by (auto simp: pam_ok_def)
  then have r: "pam_allocateBlock m h = Inr (a, m\<lparr>blockPool := p\<rparr>, h)"
    by (simp add: pam_allocateBlock_def)
  show ?thesis
    using False pam_allocateBlock_spec [OF assms r] pam.alloc_step [OF assms r] r by auto
qed

text \<open>
  C7. Refilling the paging area: while the manager has as many free blocks as the pool has
  places, \<open>refillPool\<close> succeeds, leaves the pool full, keeps the blocks that were in it and does
  not touch what clients hold.
\<close>

theorem paging_area_refill:
  assumes "pam_ok m"
    and "card (bmm_live (pam_manager m)) + length (parray (blockPool m)) \<le> unat (blocks (bmm_bitmap (pam_manager m)))"
  shows "\<exists>m' h'. pam_refillPool m h = Inr (m', h') \<and> pam_ok m' \<and> pam_live m' = pam_live m
    \<and> pool_isFull (blockPool m') \<and> pool_bag (blockPool m) \<subseteq># pool_bag (blockPool m')"
proof (cases "pool_isFull (blockPool m)")
  case True
  then show ?thesis
    using assms(1) by (simp add: pam_refillPool_def)
next
  case False
  let ?n = "unat (pool_getCapacity (blockPool m))"
  have n: "?n = length (parray (blockPool m))"
    using assms(1) by (simp add: pam_ok_def pool_ok_def pool_shape_def pool_getCapacity_def)
  obtain m' h' where r: "refill_loop ?n m h = Inr (m', h')"
    using refill_loop_total [OF assms(1), of ?n h] assms(2) n by auto
  show ?thesis
    using refill_loop_spec [OF assms(1) r] False r n by (simp add: pam_refillPool_def)
qed

lemma pam_example_ok:
  "pam_ok \<lparr>pam_manager = BitmapMemoryManager_new 0x100000 0x1fffff 0x1000 True, blockPool = Pool_new [0, 0]\<rparr>"
  using bmm_new_ok(1) [of "0x1000" "0x100000" "0x1fffff" True] pool_new_ok [of "[0, 0]"]
  by (simp add: pam_ok_def)

theorem paging_area_allocate_witness:
  "pam_allocateBlock \<lparr>pam_manager = BitmapMemoryManager_new 0x100000 0x1fffff 0x1000 True,
     blockPool = Pool_new [0, 0]\<rparr> (\<lambda>_. 0) = Inl ILLEGAL_STATE"
  using paging_area_allocate [OF pam_example_ok, of "\<lambda>_. 0"] pool_new_ok [of "[0, 0]"] by simp

theorem paging_area_refill_witness:
  "\<exists>m' h'. pam_refillPool \<lparr>pam_manager = BitmapMemoryManager_new 0x100000 0x1fffff 0x1000 True,
     blockPool = Pool_new [0, 0]\<rparr> (\<lambda>_. 0) = Inr (m', h') \<and> pool_isFull (blockPool m')"
  using paging_area_refill [OF pam_example_ok, of "\<lambda>_. 0"]
    bmm_new_ok(2) [of "0x1000" "0x100000" "0x1fffff" True]
  by (auto simp: Pool_new_def BitmapMemoryManager_new_def)

end
