(* ===== verification/Memory_Services.thy ===== *)
theory Memory_Services
  imports Address_Spaces Table_Managers Slab Pools
begin

text \<open>
  \<^verbatim>\<open>Kernel::MemoryService\<close>: the physical and virtual memory of the kernel, composed of the page frame
  allocator, the paging area manager, the slab allocator and the address spaces.

  The page frame allocator takes its allocation tables from the paging area manager, which is also
  where the page tables come from. So the state has one chain: the source of the page tables is the
  page frame allocator record, whose own source is the paging area manager.
\<close>

section \<open>The paging area as source of tables\<close>

definition pam_take :: "PagingAreaManager \<Rightarrow> (u32 \<times> PagingAreaManager) result" where
  "pam_take m = res_bind (pam_allocateBlock m (\<lambda>_. 0)) (\<lambda>(a, m, h). Inr (a, m))"

type_synonym frames = "PagingAreaManager TableMemoryManager"

definition frames_take :: "frames \<Rightarrow> (u32 \<times> frames) result" where
  "frames_take t = res_bind (pam_take (t_source t)) (\<lambda>(a, m). Inr (a, t\<lparr>t_source := m\<rparr>))"

definition frames_give :: "frames \<Rightarrow> u32 \<Rightarrow> frames result" where
  "frames_give t a = res_bind (pam_freeBlock (t_source t) a) (\<lambda>m. Inr (t\<lparr>t_source := m\<rparr>))"

section \<open>The service\<close>

record MemoryService =
  ms_paging :: "frames PagingState"
  pageFrameSlabAllocator :: SlabAllocator
  slabAllocatorEnabled :: bool

definition put_frames :: "MemoryService \<Rightarrow> frames \<Rightarrow> MemoryService" where
  "put_frames ms t = ms\<lparr>ms_paging := (ms_paging ms)\<lparr>pg_source := t\<rparr>\<rparr>"

definition ms_getPhysicalAddress :: "MemoryService \<Rightarrow> u32 \<Rightarrow> u32" where
  "ms_getPhysicalAddress ms virtualAddress =
     vas_getPhysicalAddress (ms_paging ms) (pg_current (ms_paging ms)) virtualAddress"

definition map_current :: "MemoryService \<Rightarrow> u32 \<Rightarrow> u32 \<Rightarrow> u16 \<Rightarrow> MemoryService result" where
  "map_current ms physicalAddress virtualAddress flags =
     res_bind (vas_map frames_take (ms_paging ms) (pg_current (ms_paging ms)) physicalAddress virtualAddress flags)
       (\<lambda>p. Inr (ms\<lparr>ms_paging := p\<rparr>))"

function free_frames :: "frames \<Rightarrow> u32 \<Rightarrow> u32 \<Rightarrow> u32 \<Rightarrow> frames outcome" where
  "free_frames t pointer frameCount i =
     (if i < frameCount
      then out_bind (tmm_freeBlock t (pointer + i * PAGESIZE)) (\<lambda>t. free_frames t pointer frameCount (i + 1))
      else Some (Inr t))"
  by pat_completeness auto
termination
  by (relation "measure (\<lambda>(t, p, n, i). unat n - unat i)") (auto simp: word_nat word_less_nat_alt)

declare free_frames.simps [simp del]

definition ms_freePhysicalMemory :: "MemoryService \<Rightarrow> u32 \<Rightarrow> u32 \<Rightarrow> MemoryService outcome" where
  "ms_freePhysicalMemory ms pointer frameCount =
     out_bind (Some (if slabAllocatorEnabled ms then slab_freeBlock (pageFrameSlabAllocator ms) pointer
                     else Inr (False, pageFrameSlabAllocator ms))) (\<lambda>(done, slab).
       let ms = ms\<lparr>pageFrameSlabAllocator := slab\<rparr>
       in if done then Some (Inr ms)
          else out_bind (free_frames (pg_source (ms_paging ms)) pointer frameCount 0) (\<lambda>t. Some (Inr (put_frames ms t))))"

text \<open>
  The two nested loops that look for contiguous frames, with \<open>i\<close> frames claimed from \<open>start\<close> on;
  \<open>None\<close> when they never end, or free a frame without an allocation table.
\<close>

partial_function (option) contiguous_frames ::
    "MemoryService \<Rightarrow> u32 \<Rightarrow> u32 \<Rightarrow> u32 \<Rightarrow> u32 \<Rightarrow> (u32 \<times> MemoryService) outcome" where
  "contiguous_frames ms frameCount start current i =
     (if i < frameCount
      then case tmm_allocateBlockAfterAddress pam_take (pg_source (ms_paging ms)) start of
             Inl err \<Rightarrow> Some (Inl err)
           | Inr (a, t) \<Rightarrow>
               if a - current \<noteq> PAGESIZE
               then case ms_freePhysicalMemory (put_frames ms t) start i of
                      None \<Rightarrow> None
                    | Some (Inl err) \<Rightarrow> Some (Inl err)
                    | Some (Inr ms') \<Rightarrow> contiguous_frames ms' frameCount a a 1
               else contiguous_frames (put_frames ms t) frameCount start a (i + 1)
      else Some (Inr (start, ms)))"

definition ms_allocatePhysicalMemory ::
    "MemoryService \<Rightarrow> u32 \<Rightarrow> u32 \<Rightarrow> (u32 \<times> MemoryService) outcome" where
  "ms_allocatePhysicalMemory ms frameCount firstAddress =
     (case (if slabAllocatorEnabled ms then slab_allocateBlock (pageFrameSlabAllocator ms) frameCount (\<lambda>_. 0)
            else Inr (nullptr, pageFrameSlabAllocator ms, \<lambda>_. 0)) of
        Inl err \<Rightarrow> Some (Inl err)
      | Inr (physicalStartAddress, slab, _) \<Rightarrow>
          let ms = ms\<lparr>pageFrameSlabAllocator := slab\<rparr>
          in if physicalStartAddress \<noteq> nullptr then Some (Inr (physicalStartAddress, ms))
             else case tmm_allocateBlockAfterAddress pam_take (pg_source (ms_paging ms)) firstAddress of
                    Inl err \<Rightarrow> Some (Inl err)
                  | Inr (a, t) \<Rightarrow> contiguous_frames (put_frames ms t) frameCount a a 1)"

text \<open>\<open>map\<close>: \<open>maxDma\<close> and \<open>kernelEnd\<close> are the addresses of \<open>pfa_allocateBlock\<close>.\<close>

function map_pages :: "u32 \<Rightarrow> u32 \<Rightarrow> MemoryService \<Rightarrow> u32 \<Rightarrow> u32 \<Rightarrow> u16 \<Rightarrow> u32 \<Rightarrow> MemoryService result" where
  "map_pages maxDma kernelEnd ms virtualAddress pageCount flags i =
     (if i < pageCount
      then res_bind (pfa_allocateBlock pam_take maxDma kernelEnd (pg_source (ms_paging ms))) (\<lambda>(physicalAddress, t).
           res_bind (map_current (put_frames ms t) physicalAddress (virtualAddress + i * PAGESIZE) flags) (\<lambda>ms.
             map_pages maxDma kernelEnd ms virtualAddress pageCount flags (i + 1)))
      else Inr ms)"
  by pat_completeness auto
termination
  by (relation "measure (\<lambda>(m, k, ms, v, n, f, i). unat n - unat i)") (auto simp: word_nat word_less_nat_alt)

declare map_pages.simps [simp del]

definition ms_map :: "u32 \<Rightarrow> u32 \<Rightarrow> MemoryService \<Rightarrow> u32 \<Rightarrow> u32 \<Rightarrow> u16 \<Rightarrow> MemoryService result" where
  "ms_map maxDma kernelEnd ms virtualAddress pageCount flags =
     map_pages maxDma kernelEnd ms virtualAddress pageCount flags 0"

text \<open>The loop of \<open>unmap\<close>; the counter of pages that were not mapped has eight bits.\<close>

function unmap_pages ::
    "MemoryService \<Rightarrow> u32 \<Rightarrow> u32 \<Rightarrow> u32 \<Rightarrow> u8 \<Rightarrow> u32 \<Rightarrow> u32 \<Rightarrow> (u32 \<times> MemoryService) outcome" where
  "unmap_pages ms virtualAddress pageCount breakCount nonMappedCount physicalAddress i =
     (if i < pageCount
      then out_bind (Some (vas_unmap frames_give (ms_paging ms) (pg_current (ms_paging ms)) (virtualAddress + i * PAGESIZE)))
             (\<lambda>(physicalAddress, p).
                let ms = ms\<lparr>ms_paging := p\<rparr>;
                    nonMappedCount = (if physicalAddress = nullptr then nonMappedCount + 1 else 0)
                in out_bind (if physicalAddress = nullptr then Some (Inr ms) else ms_freePhysicalMemory ms physicalAddress 1) (\<lambda>ms.
                     if 0 < breakCount \<and> ucast nonMappedCount = breakCount then Some (Inr (physicalAddress, ms))
                     else unmap_pages ms virtualAddress pageCount breakCount nonMappedCount physicalAddress (i + 1)))
      else Some (Inr (physicalAddress, ms)))"
  by pat_completeness auto
termination
  by (relation "measure (\<lambda>(ms, v, n, b, c, p, i). unat n - unat i)") (auto simp: word_nat word_less_nat_alt)

declare unmap_pages.simps [simp del]

definition ms_unmap :: "MemoryService \<Rightarrow> u32 \<Rightarrow> u32 \<Rightarrow> u32 \<Rightarrow> (u32 \<times> MemoryService) outcome" where
  "ms_unmap ms virtualAddress pageCount breakCount =
     (if virtualAddress mod PAGESIZE \<noteq> 0
      then unmap_pages ms (alignUp virtualAddress PAGESIZE) (pageCount - 1) breakCount 0 nullptr 0
      else unmap_pages ms virtualAddress pageCount breakCount 0 nullptr 0)"

text \<open>
  The loops that map a range of physical memory, page by page: what is mapped at the virtual
  address is unmapped first. \<open>claim\<close> marks the frame as used (\<^verbatim>\<open>mapPhysical\<close>) or does nothing.
\<close>

function map_range ::
    "(frames \<Rightarrow> u32 \<Rightarrow> (u32 \<times> frames) result) \<Rightarrow> MemoryService \<Rightarrow> u32 \<Rightarrow> u32 \<Rightarrow> u32 \<Rightarrow> u16 \<Rightarrow> u32 \<Rightarrow> MemoryService outcome" where
  "map_range claim ms physicalAddress virtualAddress pageCount flags i =
     (if i < pageCount
      then let currentVirtualAddress = virtualAddress + i * PAGESIZE
           in out_bind (ms_unmap ms currentVirtualAddress 1 0) (\<lambda>(_, ms).
              out_bind (Some (claim (pg_source (ms_paging ms)) (physicalAddress + i * PAGESIZE))) (\<lambda>(currentPhysicalAddress, t).
              out_bind (Some (map_current (put_frames ms t) currentPhysicalAddress currentVirtualAddress flags)) (\<lambda>ms.
                map_range claim ms physicalAddress virtualAddress pageCount flags (i + 1))))
      else Some (Inr ms))"
  by pat_completeness auto
termination
  by (relation "measure (\<lambda>(c, ms, p, v, n, f, i). unat n - unat i)") (auto simp: word_nat word_less_nat_alt)

declare map_range.simps [simp del]

abbreviation no_claim :: "frames \<Rightarrow> u32 \<Rightarrow> (u32 \<times> frames) result" where
  "no_claim t a \<equiv> Inr (a, t)"

definition ms_mapPhysical :: "MemoryService \<Rightarrow> u32 \<Rightarrow> u32 \<Rightarrow> u32 \<Rightarrow> u16 \<Rightarrow> MemoryService outcome" where
  "ms_mapPhysical ms physicalAddress virtualAddress pageCount flags =
     map_range (tmm_allocateBlockAtAddress pam_take) ms physicalAddress virtualAddress pageCount flags 0"

text \<open>\<open>heap\<close> is \<^verbatim>\<open>allocateMemory\<close> of the heap that is chosen, with its size and alignment.\<close>

definition ms_mapIO :: "(u32 \<Rightarrow> u32 \<Rightarrow> u32 result) \<Rightarrow> MemoryService \<Rightarrow> u32 \<Rightarrow> u32 \<Rightarrow> (u32 \<times> MemoryService) outcome" where
  "ms_mapIO heap ms physicalAddress pageCount =
     out_bind (Some (heap (pageCount * PAGESIZE) PAGESIZE)) (\<lambda>virtualAddress.
       let flags = PRESENT OR WRITABLE OR CACHE_DISABLE OR (if KERNEL_END \<le> virtualAddress then USER_ACCESSIBLE else 0)
       in out_bind (map_range no_claim ms physicalAddress virtualAddress pageCount flags 0) (\<lambda>ms. Some (Inr (virtualAddress, ms))))"

definition ms_mapIO_new ::
    "u32 \<Rightarrow> (u32 \<Rightarrow> u32 \<Rightarrow> u32 result) \<Rightarrow> MemoryService \<Rightarrow> u32 \<Rightarrow> (u32 \<times> MemoryService) outcome" where
  "ms_mapIO_new maxDma heap ms pageCount =
     out_bind (ms_allocatePhysicalMemory ms pageCount maxDma) (\<lambda>(physicalAddress, ms). ms_mapIO heap ms physicalAddress pageCount)"

definition ms_allocateLow ::
    "u32 \<Rightarrow> u16 \<Rightarrow> (u32 \<Rightarrow> u32 \<Rightarrow> u32 result) \<Rightarrow> MemoryService \<Rightarrow> u32 \<Rightarrow> (u32 \<times> MemoryService) outcome" where
  "ms_allocateLow limit flags heap ms pageCount =
     out_bind (ms_allocatePhysicalMemory ms pageCount nullptr) (\<lambda>(physicalAddress, ms).
       if limit \<le> physicalAddress
       then out_bind (ms_freePhysicalMemory ms physicalAddress pageCount) (\<lambda>ms. Some (Inr (nullptr, ms)))
       else out_bind (Some (heap (pageCount * PAGESIZE) PAGESIZE)) (\<lambda>virtualAddress.
              out_bind (map_range no_claim ms physicalAddress virtualAddress pageCount flags 0)
                (\<lambda>ms. Some (Inr (virtualAddress, ms)))))"

definition ms_allocateBiosMemory ::
    "u32 \<Rightarrow> (u32 \<Rightarrow> u32 \<Rightarrow> u32 result) \<Rightarrow> MemoryService \<Rightarrow> u32 \<Rightarrow> (u32 \<times> MemoryService) outcome" where
  "ms_allocateBiosMemory maxUsable = ms_allocateLow maxUsable (PRESENT OR WRITABLE)"

definition ms_allocateIsaMemory ::
    "u32 \<Rightarrow> (u32 \<Rightarrow> u32 \<Rightarrow> u32 result) \<Rightarrow> MemoryService \<Rightarrow> u32 \<Rightarrow> (u32 \<times> MemoryService) outcome" where
  "ms_allocateIsaMemory maxDma = ms_allocateLow maxDma (PRESENT OR WRITABLE OR CACHE_DISABLE)"

definition ms_handlePageFault :: "u32 \<Rightarrow> u32 \<Rightarrow> MemoryService \<Rightarrow> u32 \<Rightarrow> u32 \<Rightarrow> MemoryService result" where
  "ms_handlePageFault maxDma kernelEnd ms faultAddress errorCode =
     (if faultAddress = 0 then Inl NULL_POINTER
      else if 0 < errorCode AND 0x00000001 then Inl ILLEGAL_PAGE_ACCESS
      else ms_map maxDma kernelEnd ms faultAddress 1
             (PRESENT OR WRITABLE OR (if KERNEL_END \<le> faultAddress then USER_ACCESSIBLE else 0)))"

text \<open>The system calls \<^verbatim>\<open>UNMAP\<close> and \<^verbatim>\<open>MAP_IO\<close>, with the arguments they read from the stack.\<close>

definition syscall_unmap :: "MemoryService \<Rightarrow> u32 \<Rightarrow> u32 \<Rightarrow> u32 \<Rightarrow> u32 \<Rightarrow> (bool \<times> MemoryService) outcome" where
  "syscall_unmap ms paramCount virtualAddress pageCount breakCount =
     (if paramCount < 2 then Some (Inr (False, ms))
      else if virtualAddress < KERNEL_END then Some (Inr (False, ms))
      else out_bind (ms_unmap ms virtualAddress pageCount breakCount) (\<lambda>(p, ms). Some (Inr (p \<noteq> nullptr, ms))))"

definition syscall_mapIO ::
    "(u32 \<Rightarrow> u32 \<Rightarrow> u32 result) \<Rightarrow> MemoryService \<Rightarrow> u32 \<Rightarrow> u32 \<Rightarrow> u32 \<Rightarrow> (bool \<times> u32 option \<times> MemoryService) outcome" where
  "syscall_mapIO heap ms paramCount physicalAddress pageCount =
     (if paramCount < 3 then Some (Inr (False, None, ms))
      else out_bind (ms_mapIO heap ms physicalAddress pageCount) (\<lambda>(a, ms). Some (Inr (True, Some a, ms))))"

section \<open>The contracts of the paging area\<close>

definition pam_avail :: "PagingAreaManager \<Rightarrow> u32 set" where
  "pam_avail m = set_mset (pool_bag (blockPool m))"

definition pam_room :: "PagingAreaManager \<Rightarrow> nat" where
  "pam_room m = size (pool_bag (blockPool m))"

definition pam_paging :: "PagingAreaManager \<Rightarrow> bool" where
  "pam_paging m \<longleftrightarrow> pam_ok m \<and> zeroMemory (pam_manager m) \<and> blockSize (pam_manager m) = PAGESIZE \<and> is_page (startAddress (pam_manager m)) \<and>
     endAddress (pam_manager m) < KERNEL_END"

lemma pam_region:
  assumes "pam_paging m" and "a \<in> pam_live m \<union> pam_avail m"
  shows "is_page a \<and> a < KERNEL_END \<and> a \<noteq> 0"
proof -
  have ok: "bmm_ok (pam_manager m)" and a: "a \<in> bmm_live (pam_manager m)"
    using assms by (auto simp: pam_paging_def pam_ok_def pam_live_def pam_avail_def)
  obtain i where i: "i < unat (blocks (bmm_bitmap (pam_manager m)))" "a = bmm_addr (pam_manager m) i"
    using a used_bound by (fastforce simp: bmm_live_def)
  have shape: "bmm_shape (pam_manager m)"
    using ok by (simp add: bmm_ok_def)
  have size: "unat (blockSize (pam_manager m)) = 4096"
    using assms(1) by (simp add: pam_paging_def PAGESIZE_def)
  have "unat a = unat (startAddress (pam_manager m)) + i * 4096"
    "unat a + 4096 \<le> Suc (unat (endAddress (pam_manager m)))"
    using bmm_addr_unat [OF shape i(1)] i(2) size by simp_all
  moreover have "unat (endAddress (pam_manager m)) < unat KERNEL_END"
    using assms(1) by (simp add: pam_paging_def word_less_nat_alt)
  ultimately have "is_page a" "a < KERNEL_END"
    using assms(1) by (simp_all add: is_page_def pam_paging_def word_less_nat_alt)
  then show ?thesis
    using a bmm_live_nonnull [OF ok] by auto
qed

lemma pam_separate: "pam_live m \<inter> pam_avail m = {}"
  by (auto simp: pam_live_def pam_avail_def)

lemma pam_take_spec:
  assumes "pam_paging m" and "0 < pam_room m"
  shows "\<exists>a m'. pam_take m = Inr (a, m') \<and> pam_paging m' \<and> a \<in> pam_avail m \<and> pam_avail m' = pam_avail m - {a} \<and>
    pam_live m' = insert a (pam_live m) \<and> Suc (pam_room m') = pam_room m"
proof -
  have ok: "pam_ok m"
    using assms(1) by (simp add: pam_paging_def)
  then have "pool_ok (blockPool m)" "pool_bag (blockPool m) \<noteq> {#}"
    using assms(2) by (auto simp: pam_ok_def pam_room_def)
  then obtain a p where "pool_pop (blockPool m) = Inr (a, p)"
    using pool_pop_spec by fastforce
  then have r: "pam_allocateBlock m (\<lambda>_. 0) = Inr (a, m\<lparr>blockPool := p\<rparr>, \<lambda>_. 0)"
    by (simp add: pam_allocateBlock_def)
  note S = pam_allocateBlock_spec [OF ok r]
  have bag: "pool_bag (blockPool m) = add_mset a (pool_bag p)"
    using S by simp
  have "count (pool_bag (blockPool m)) a \<le> 1"
    using ok by (simp add: pam_ok_def)
  then have "a \<notin># pool_bag p"
    by (simp add: bag not_in_iff)
  then show ?thesis
    using S r assms(1) by (auto simp: pam_take_def pam_avail_def pam_room_def pam_paging_def bag)
qed

lemma pam_give_spec:
  assumes "pam_paging m" and "a \<in> pam_live m"
  shows "\<exists>m'. pam_freeBlock m a = Inr m' \<and> pam_paging m' \<and> pam_live m' = pam_live m - {a} \<and> pam_avail m' = pam_avail m"
proof -
  have ok: "pam_ok m"
    using assms(1) by (simp add: pam_paging_def)
  obtain m' where m': "pam_freeBlock m a = Inr m'" "pam_ok m'" "pam_live m' = pam_live m - {a}"
    using pam_freeBlock_spec [OF ok assms(2)] by blast
  moreover have "blockPool m' = blockPool m" "startAddress (pam_manager m') = startAddress (pam_manager m)"
    "endAddress (pam_manager m') = endAddress (pam_manager m)" "blockSize (pam_manager m') = blockSize (pam_manager m)"
    "zeroMemory (pam_manager m') = zeroMemory (pam_manager m)"
    using m'(1) by (auto simp: pam_freeBlock_def bmm_freeBlock_def Let_def res_iff split: if_splits)
  ultimately show ?thesis
    using assms(1) by (simp add: pam_paging_def pam_avail_def)
qed

text \<open>
  The tables of the frames come from the paging area. The parameters keep track of what the frame
  allocator may not touch: the blocks \<open>R\<close> others hold, and what is not available in \<open>A\<close>.
\<close>

interpretation ptb: table_blocks pam_take "\<lambda>m. pam_live m - R" pam_room
    "\<lambda>m. pam_paging m \<and> R \<subseteq> pam_live m \<and> pam_avail m \<subseteq> A" for R A
proof
  fix m assume ok: "pam_paging m \<and> R \<subseteq> pam_live m \<and> pam_avail m \<subseteq> A" and room: "0 < pam_room m"
  obtain a m' where a: "pam_take m = Inr (a, m')" "pam_paging m'" "a \<in> pam_avail m" "pam_avail m' = pam_avail m - {a}"
      "pam_live m' = insert a (pam_live m)" "Suc (pam_room m') = pam_room m"
    using pam_take_spec [of m] ok room by blast
  have "a \<notin> pam_live m"
    using pam_separate a(3) by blast
  moreover have "is_page a" "a \<noteq> 0"
    using pam_region [of m a] ok a(3) by blast+
  moreover have "(2 :: nat) ^ 4 dvd unat a"
    using \<open>is_page a\<close> by (intro dvd_trans [of "2 ^ 4" "2 ^ 12" "unat a"]) (simp_all add: is_page_def dvd_eq_mod_eq_0)
  ultimately show "\<exists>a b'. pam_take m = Inr (a, b') \<and> (pam_paging b' \<and> R \<subseteq> pam_live b' \<and> pam_avail b' \<subseteq> A) \<and> a \<noteq> 0 \<and>
      a AND 0xf = 0 \<and> a \<notin> pam_live m - R \<and> pam_live b' - R = insert a (pam_live m - R) \<and> Suc (pam_room b') = pam_room m"
    using a ok aligned_low [of a] by (intro exI [of _ a] exI [of _ m']) auto
qed

definition frames_live :: "frames \<Rightarrow> u32 set" where
  "frames_live t = {a \<in> pam_live (t_source t). \<forall>i j. address_of t i j \<noteq> a}"

definition frames_avail :: "frames \<Rightarrow> u32 set" where
  "frames_avail t = pam_avail (t_source t)"

definition frames_paging :: "frames \<Rightarrow> bool" where
  "frames_paging t \<longleftrightarrow> tables_ok pam_live pam_paging t"

lemma address_of_source [simp]: "address_of (t\<lparr>t_source := m\<rparr>) = address_of t"
  by (simp add: address_of_def fun_eq_iff)

interpretation pts: page_table_source frames_take frames_give frames_live frames_avail frames_paging
proof
  fix t :: frames
  assume ok: "frames_paging t"
  then have p: "pam_paging (t_source t)" and tab: "\<And>i j. address_of t i j \<noteq> 0 \<Longrightarrow> address_of t i j \<in> pam_live (t_source t)"
    by (auto simp: frames_paging_def tables_ok_def)
  show "frames_live t \<inter> frames_avail t = {}"
    using pam_separate by (auto simp: frames_live_def frames_avail_def)
  show "is_page a \<and> a < KERNEL_END \<and> a \<noteq> 0" if "a \<in> frames_live t \<union> frames_avail t" for a
    using pam_region [OF p, of a] that by (auto simp: frames_live_def frames_avail_def)
  show "\<exists>b'. frames_give t a = Inr b' \<and> frames_paging b' \<and> frames_avail b' = frames_avail t \<and>
      frames_live b' = frames_live t - {a}" if a: "a \<in> frames_live t" for a
  proof -
    obtain m' where m': "pam_freeBlock (t_source t) a = Inr m'" "pam_paging m'"
        "pam_live m' = pam_live (t_source t) - {a}" "pam_avail m' = pam_avail (t_source t)"
      using pam_give_spec [OF p, of a] a by (auto simp: frames_live_def)
    have "frames_paging (t\<lparr>t_source := m'\<rparr>)"
      using ok m'(2,3) a by (auto simp: frames_paging_def tables_ok_def frames_live_def)
    then show ?thesis
      using m' by (auto simp: frames_give_def frames_avail_def frames_live_def)
  qed
  show "\<exists>a b'. frames_take t = Inr (a, b') \<and> frames_paging b' \<and> a \<in> frames_avail t \<and>
      frames_avail b' = frames_avail t - {a} \<and> frames_live b' = insert a (frames_live t)" if "frames_avail t \<noteq> {}"
  proof -
    have "0 < pam_room (t_source t)"
      using that by (auto simp: frames_avail_def pam_avail_def pam_room_def nonempty_has_size)
    then obtain a m' where a: "pam_take (t_source t) = Inr (a, m')" "pam_paging m'" "a \<in> pam_avail (t_source t)"
        "pam_avail m' = pam_avail (t_source t) - {a}" "pam_live m' = insert a (pam_live (t_source t))"
      using pam_take_spec [OF p] by blast
    have "a \<notin> pam_live (t_source t)" "a \<noteq> 0"
      using a(3) pam_separate pam_region [OF p, of a] by blast+
    then have "address_of t i j \<noteq> a" for i j
      using tab [of i j] by metis
    then show ?thesis
      using a ok by (intro exI [of _ a] exI [of _ "t\<lparr>t_source := m'\<rparr>"])
        (auto simp: frames_take_def frames_paging_def tables_ok_def frames_avail_def frames_live_def)
  qed
qed

abbreviation spaces_ok :: "frames PagingState \<Rightarrow> bool" where
  "spaces_ok \<equiv> paging_ok frames_live frames_avail frames_paging"

section \<open>Properties of the address spaces\<close>

lemma idx_eq_iff: "idx v = idx w \<longleftrightarrow> v div PAGESIZE = w div PAGESIZE"
proof -
  have p: "unat (x div PAGESIZE) = unat x div 2 ^ 12" for x
    by (simp add: PAGESIZE_def unat_div_distrib)
  have d: "unat x div 2 ^ 22 = unat x div 2 ^ 12 div 2 ^ 10" for x :: u32
    by (simp add: div_mult2_eq [symmetric])
  have "idx v = idx w \<longleftrightarrow> unat v div 2 ^ 12 = unat w div 2 ^ 12"
    unfolding idx_def prod.inject word_unat_eq_iff unat_DIRECTORY_INDEX unat_TABLE_INDEX d by (metis div_mult_mod_eq)
  then show ?thesis
    by (simp add: word_unat_eq_iff p)
qed

lemma no_structure:
  assumes "spaces_ok st"
    and "\<forall>a \<in> frames_live (pg_source st) \<union> frames_avail (pg_source st). a div PAGESIZE \<noteq> v div PAGESIZE"
  shows "idx v \<notin> idx ` (refs st \<union> frames_avail (pg_source st))"
proof -
  have "refs st \<subseteq> frames_live (pg_source st)"
    using assms(1) by (simp add: paging_ok_def layout_ok_def)
  then show ?thesis
    using assms(2) by (auto simp: idx_eq_iff)
qed

lemma present_used:
  assumes "bit flags 0"
  shows "entry_set a flags \<noteq> entry_clear"
proof
  assume "entry_set a flags = entry_clear"
  then have "(ucast flags :: 12 word) = 0"
    by (simp add: entry_set_def entry_clear_def)
  then have "\<not> bit (ucast flags :: 12 word) 0"
    by simp
  then show False
    using assms by (simp add: bit_simps)
qed

lemma concerned_iff: "s \<in> set (pg_spaces st) \<Longrightarrow> s \<in> concerned st space (DIRECTORY_INDEX v) \<longleftrightarrow> s = space \<or> v < KERNEL_END"
  by (auto simp: concerned_def kernel_index)

text \<open>
  C23. Mapping a page is isolated: if the page is mapped already, \<^verbatim>\<open>map\<close> throws PAGING_ERROR; otherwise
  it succeeds, keeps the invariant of the address spaces, and changes the translation of exactly
  that page, in its own address space only when it is a user page and in all address spaces when it
  lies in the kernel area. This is so for every address but the very first one of user space
  (\<open>KERNEL_END\<close>), with a free block in the paging area and for flags that include PRESENT.
\<close>

theorem map_isolated:
  assumes "spaces_ok st" and "space \<in> set (pg_spaces st)" and "frames_avail (pg_source st) \<noteq> {}"
    and "v \<noteq> KERNEL_END" and "bit flags 0"
  shows "if page st space (idx v) \<noteq> entry_clear then vas_map frames_take st space phys v flags = Inl PAGING_ERROR
    else \<exists>st'. vas_map frames_take st space phys v flags = Inr st' \<and> spaces_ok st' \<and> pg_spaces st' = pg_spaces st \<and>
      (\<forall>s \<in> set (pg_spaces st). \<forall>w. vas_getPhysicalAddress st' s w =
        (if w div PAGESIZE = v div PAGESIZE \<and> (s = space \<or> v < KERNEL_END)
         then (phys AND NOT (mask 12)) OR (w AND 0xfff) else vas_getPhysicalAddress st s w))"
proof (cases "page st space (idx v) = entry_clear")
  case True
  obtain st' where st': "vas_map frames_take st space phys v flags = Inr st'" "spaces_ok st'" "pg_spaces st' = pg_spaces st"
      "\<forall>s \<in> set (pg_spaces st). page st' s =
        (if s \<in> concerned st space (DIRECTORY_INDEX v) then (page st s)(idx v := entry_set phys flags) else page st s)"
    using pts.vas_map_spec [OF assms(1-4), of phys flags] True by auto
  have "vas_getPhysicalAddress st' s w = (if w div PAGESIZE = v div PAGESIZE \<and> (s = space \<or> v < KERNEL_END)
      then (phys AND NOT (mask 12)) OR (w AND 0xfff) else vas_getPhysicalAddress st s w)" if s: "s \<in> set (pg_spaces st)" for s w
    using st'(4) s concerned_iff [OF s, of space v] present_used [OF assms(5), of phys]
    by (auto simp: getPhysicalAddress_page idx_eq_iff entry_getAddress_set)
  then show ?thesis
    using True st'(1-3) by auto
next
  case False
  then show ?thesis
    using pts.vas_map_spec [OF assms(1-4), of phys flags] by simp
qed

text \<open>
  C24. Unmapping terminates and is isolated: for an address other than the very first one of user
  space (\<open>KERNEL_END\<close>), in a page that is not a block of the paging area, \<^verbatim>\<open>unmap\<close> returns the frame of the
  page (the null pointer when it is not mapped), although freeing an empty page table unmaps the page
  of that table and may so free further tables; the invariant is kept, and the translation of every
  other page outside of the paging structures is unchanged in all address spaces.
\<close>

theorem unmap_isolated:
  assumes "spaces_ok st" and "space \<in> set (pg_spaces st)" and "v \<noteq> KERNEL_END"
    and "\<forall>a \<in> frames_live (pg_source st) \<union> frames_avail (pg_source st). a div PAGESIZE \<noteq> v div PAGESIZE"
  shows "\<exists>st'. vas_unmap frames_give st space v =
      Inr (if page st space (idx v) = entry_clear then nullptr else entry_getAddress (page st space (idx v)), st') \<and>
    spaces_ok st' \<and> pg_spaces st' = pg_spaces st \<and>
    (\<forall>s \<in> set (pg_spaces st). \<forall>w. (\<forall>a \<in> frames_live (pg_source st). a div PAGESIZE \<noteq> w div PAGESIZE) \<longrightarrow>
      vas_getPhysicalAddress st' s w =
        (if w div PAGESIZE = v div PAGESIZE \<and> (s = space \<or> v < KERNEL_END) then nullptr else vas_getPhysicalAddress st s w))"
proof -
  obtain st' where st': "vas_unmap frames_give st space v =
        Inr (if page st space (idx v) = entry_clear then nullptr else entry_getAddress (page st space (idx v)), st')"
      "pts.unmapped st st' (refs st)"
      "\<forall>s \<in> set (pg_spaces st). \<forall>q. q \<notin> idx ` frames_live (pg_source st) \<longrightarrow>
        page st' s q = (if q = idx v \<and> s \<in> concerned st space (DIRECTORY_INDEX v) then entry_clear else page st s q)"
    using pts.unmap_spec(1) [OF refl assms(1-3)] no_structure [OF assms(1,4)] by blast
  have "vas_getPhysicalAddress st' s w =
      (if w div PAGESIZE = v div PAGESIZE \<and> (s = space \<or> v < KERNEL_END) then nullptr else vas_getPhysicalAddress st s w)"
    if s: "s \<in> set (pg_spaces st)" and w: "\<forall>a \<in> frames_live (pg_source st). a div PAGESIZE \<noteq> w div PAGESIZE" for s w
  proof -
    have "idx w \<notin> idx ` frames_live (pg_source st)"
      using w by (auto simp: idx_eq_iff)
    then have "page st' s (idx w) =
        (if idx w = idx v \<and> s \<in> concerned st space (DIRECTORY_INDEX v) then entry_clear else page st s (idx w))"
      using st'(3) s by blast
    then show ?thesis
      using concerned_iff [OF s, of space v] by (auto simp: getPhysicalAddress_page idx_eq_iff)
  qed
  then show ?thesis
    using st'(1,2) unfolding pts.unmapped_def by blast
qed

text \<open>
  The operations on the address spaces as steps. The guards are what the callers have to keep: a
  free block in the paging area, a virtual directory that is a new object of the kernel heap, no
  request for the first address of user space and no unmapping of the paging structures.
\<close>

inductive space_step :: "frames PagingState \<Rightarrow> frames PagingState \<Rightarrow> bool" where
  step_map: "space \<in> set (pg_spaces st) \<Longrightarrow> frames_avail (pg_source st) \<noteq> {} \<Longrightarrow> v \<noteq> KERNEL_END \<Longrightarrow>
    vas_map frames_take st space phys v flags = Inr st' \<Longrightarrow> space_step st st'"
| step_unmap: "space \<in> set (pg_spaces st) \<Longrightarrow> v \<noteq> KERNEL_END \<Longrightarrow>
    \<forall>a \<in> frames_live (pg_source st) \<union> frames_avail (pg_source st). a div PAGESIZE \<noteq> v div PAGESIZE \<Longrightarrow>
    vas_unmap frames_give st space v = Inr (p, st') \<Longrightarrow> space_step st st'"
| step_create: "kernelSpace \<in> set (pg_spaces st) \<Longrightarrow> frames_avail (pg_source st) \<noteq> {} \<Longrightarrow>
    vd \<notin> frames_live (pg_source st) \<union> frames_avail (pg_source st) \<Longrightarrow>
    \<forall>s \<in> set (pg_spaces st). vd \<noteq> virtualPageDirectory s \<and> vd \<noteq> physicalPageDirectory s \<Longrightarrow>
    createAddressSpace frames_take vd kernelSpace st = Inr (s', st') \<Longrightarrow> space_step st st'"
| step_remove: "space \<in> set (pg_spaces st) \<Longrightarrow> distinct (pg_spaces st) \<Longrightarrow> \<not> kernelAddressSpace space \<Longrightarrow>
    physicalPageDirectory space \<in> frames_live (pg_source st) \<Longrightarrow>
    removeAddressSpace frames_give space st = Inr st' \<Longrightarrow> space_step st st'"
| step_switch: "space \<in> set (pg_spaces st) \<Longrightarrow> space_step st (switchAddressSpace space st)"

lemma switch_ok:
  assumes "spaces_ok st" and "space \<in> set (pg_spaces st)"
  shows "spaces_ok (st\<lparr>pg_current := space\<rparr>)"
proof -
  have v: "dir (st\<lparr>pg_current := space\<rparr>) = dir st" "page (st\<lparr>pg_current := space\<rparr>) = page st"
    "refs (st\<lparr>pg_current := space\<rparr>) = refs st"
    by (simp_all add: page_def dir_def refs_def fun_eq_iff)
  have f: "pg_spaces (st\<lparr>pg_current := space\<rparr>) = pg_spaces st" "pg_tables (st\<lparr>pg_current := space\<rparr>) = pg_tables st"
    "pg_source (st\<lparr>pg_current := space\<rparr>) = pg_source st" "pg_current (st\<lparr>pg_current := space\<rparr>) = space"
    by simp_all
  show ?thesis
    using assms unfolding paging_ok_def layout_ok_def sharing_ok_def mmu_ok_def v f by blast
qed

lemma space_step_ok:
  assumes "space_step st st'" and "spaces_ok st"
  shows "spaces_ok st'"
  using assms
proof (induction rule: space_step.induct)
  case (step_map space st v phys flags st')
  then show ?case
    using pts.vas_map_spec [OF step_map.prems step_map.hyps(1-3), of phys flags] by (auto split: if_splits)
next
  case (step_unmap space st v p st')
  then show ?case
    using pts.unmap_spec(1) [OF refl step_unmap.prems step_unmap.hyps(1,2)] no_structure [OF step_unmap.prems step_unmap.hyps(3)]
    unfolding pts.unmapped_def by fastforce
next
  case (step_create kernelSpace st vd s' st')
  then show ?case
    using pts.createAddressSpace_spec [OF step_create.prems step_create.hyps(1-4)] by auto
next
  case (step_remove space st st')
  moreover have "pg_current st \<noteq> space"
    using step_remove.hyps(5) by (auto simp: removeAddressSpace_def)
  ultimately show ?case
    using pts.removeAddressSpace_spec [of st space] by auto
next
  case (step_switch space st)
  then show ?case
    using switch_ok by (simp add: switchAddressSpace_def)
qed

text \<open>
  C25. The address spaces stay well-formed: from a well-formed state, any sequence of mapping,
  unmapping, creating, removing and switching address spaces in which no call names the very first
  address of user space (\<open>KERNEL_END\<close>), unmaps a page of the paging area, maps or creates with an empty
  pool, uses a directory that is not new, or removes the kernel's address space, ends in a state in
  which two different address spaces have the same translation in the kernel area and share no page
  table of user space, and every physical directory, the one the processor reads, has the flags of
  the virtual one and the frame that the page table is mapped to.
\<close>

theorem spaces_well_formed:
  assumes "spaces_ok st" and "space_step\<^sup>*\<^sup>* st st'" and "s \<in> set (pg_spaces st')" and "s' \<in> set (pg_spaces st')"
  shows "(w < KERNEL_END \<longrightarrow> vas_getPhysicalAddress st' s w = vas_getPhysicalAddress st' s' w) \<and>
    (s \<noteq> s' \<longrightarrow> KERNEL_END \<le> w \<longrightarrow> dir st' s (DIRECTORY_INDEX w) \<noteq> entry_clear \<longrightarrow> dir st' s' (DIRECTORY_INDEX w) \<noteq> entry_clear \<longrightarrow>
       entry_getAddress (dir st' s (DIRECTORY_INDEX w)) \<noteq> entry_getAddress (dir st' s' (DIRECTORY_INDEX w))) \<and>
    (dir st' s d \<noteq> entry_clear \<longrightarrow>
       entry_getFlags (pg_tables st' (physicalPageDirectory s) d) = entry_getFlags (dir st' s d) \<and>
       entry_getAddress (pg_tables st' (physicalPageDirectory s) d) = vas_getPhysicalAddress st' s (entry_getAddress (dir st' s d)))"
proof -
  have ok: "spaces_ok st'"
    using assms(2,1) by (induction rule: rtranclp_induct) (auto intro: space_step_ok)
  have "vas_getPhysicalAddress st' s w = vas_getPhysicalAddress st' s' w" if "w < KERNEL_END"
    using pts.kernel_page_same [OF ok assms(3,4) that] by (simp add: getPhysicalAddress_page)
  moreover have "entry_getAddress (dir st' s (DIRECTORY_INDEX w)) \<noteq> entry_getAddress (dir st' s' (DIRECTORY_INDEX w))"
    if "s \<noteq> s'" "KERNEL_END \<le> w" "dir st' s (DIRECTORY_INDEX w) \<noteq> entry_clear" "dir st' s' (DIRECTORY_INDEX w) \<noteq> entry_clear"
    using pts.inv_sharing [OF ok] that assms(3,4) kernel_index [of w] unfolding sharing_ok_def by (metis leD)
  moreover have "entry_getFlags (pg_tables st' (physicalPageDirectory s) d) = entry_getFlags (dir st' s d) \<and>
      entry_getAddress (pg_tables st' (physicalPageDirectory s) d) = vas_getPhysicalAddress st' s (entry_getAddress (dir st' s d))"
    if "dir st' s d \<noteq> entry_clear"
  proof -
    let ?t = "entry_getAddress (dir st' s d)"
    have r: "?t \<in> refs st'"
      by (rule refs_I [OF assms(3) that])
    have p: "pg_tables st' (physicalPageDirectory s) d = \<lparr>e_flags = e_flags (dir st' s d), e_address = e_address (page st' s (idx ?t))\<rparr>"
      and m: "page st' s (idx ?t) \<noteq> entry_clear"
      using pts.inv_mmu [OF ok] assms(3) that r by (simp_all add: mmu_ok_def)
    have "?t AND 0xfff = 0"
      using page_offset pts.refs_region(1) [OF ok] r by blast
    then show ?thesis
      using m unfolding p by (simp add: entry_getFlags_def entry_getAddress_def getPhysicalAddress_page)
  qed
  ultimately show ?thesis
    by blast
qed

text \<open>
  C26. The first address of user space breaks the isolation: when a page table for \<open>KERNEL_END\<close> is
  created on behalf of one address space, every address space gets it, and whatever the others had
  mapped in the first four MiB of user space is gone.
\<close>

theorem first_user_page_shared:
  assumes "spaces_ok st" and "space \<in> set (pg_spaces st)" and "frames_avail (pg_source st) \<noteq> {}"
    and "dir st space (DIRECTORY_INDEX KERNEL_END) = entry_clear" and "bit flags 0"
  shows "\<exists>st'. vas_map frames_take st space phys KERNEL_END flags = Inr st' \<and>
    (\<forall>s \<in> set (pg_spaces st). \<forall>w. DIRECTORY_INDEX w = DIRECTORY_INDEX KERNEL_END \<longrightarrow>
      vas_getPhysicalAddress st' s w =
        (if w div PAGESIZE = KERNEL_END div PAGESIZE then (phys AND NOT (mask 12)) OR (w AND 0xfff) else nullptr))"
proof -
  obtain st' where st': "vas_map frames_take st space phys KERNEL_END flags = Inr st'"
      "\<forall>s \<in> set (pg_spaces st). \<forall>i. page st' s (DIRECTORY_INDEX KERNEL_END, i) =
        (if i = TABLE_INDEX KERNEL_END then entry_set phys flags else entry_clear)"
    using pts.map_boundary [OF assms(1-4)] by blast
  have "vas_getPhysicalAddress st' s w =
      (if w div PAGESIZE = KERNEL_END div PAGESIZE then (phys AND NOT (mask 12)) OR (w AND 0xfff) else nullptr)"
    if "s \<in> set (pg_spaces st)" "DIRECTORY_INDEX w = DIRECTORY_INDEX KERNEL_END" for s w
  proof -
    have "page st' s (idx w) = (if idx w = idx KERNEL_END then entry_set phys flags else entry_clear)"
      using st'(2) that by (simp add: idx_def)
    then show ?thesis
      using present_used [OF assms(5), of phys] by (auto simp: getPhysicalAddress_page idx_eq_iff entry_getAddress_set)
  qed
  then show ?thesis
    using st'(1) by blast
qed

section \<open>Page faults\<close>

text \<open>
  What an allocation of one frame does: it takes a frame that was neither used nor reserved nor
  behind a lock, which is used once now, and returns its address; or it returns the null pointer,
  changes no frame, and every frame from the start address on is busy. (The address of frame zero is
  the null pointer as well.)
\<close>

definition frame_taken :: "frames \<Rightarrow> u32 \<Rightarrow> frames \<Rightarrow> bool" where
  "frame_taken t ret t' \<longleftrightarrow>
     ret = nullptr \<and> entry t' = entry t \<and>
       (\<forall>n. frame_number t (t_startAddress t) \<le> n \<and> n \<le> frame_number t (t_endAddress t) \<longrightarrow> busy t n) \<or>
     (\<exists>n \<le> frame_number t (t_endAddress t). \<not> busy t n \<and> entry t' = (entry t)(frame_at t n := 2) \<and>
        unat ret = n * unat (t_blockSize t))"

definition taken_from :: "frames \<Rightarrow> u32 \<Rightarrow> u32 \<Rightarrow> frames \<Rightarrow> bool" where
  "taken_from t a ret t' \<longleftrightarrow>
     ret = nullptr \<and> entry t' = entry t \<and>
       (\<forall>n. frame_number t a \<le> n \<and> n \<le> frame_number t (t_endAddress t) \<longrightarrow> busy t n) \<or>
     (\<exists>n. frame_number t a \<le> n \<and> n \<le> frame_number t (t_endAddress t) \<and> \<not> busy t n \<and>
        entry t' = (entry t)(frame_at t n := 2) \<and> unat ret = n * unat (t_blockSize t))"

lemma taken_from_found: "taken_from t a ret t' \<Longrightarrow> ret \<noteq> nullptr \<Longrightarrow> frame_taken t ret t'"
  by (auto simp: taken_from_def frame_taken_def)

lemma taken_from_null:
  assumes "taken_from t a nullptr t'" and "t_blockSize t \<le> a" and "geometry_ok t"
  shows "entry t' = entry t"
proof -
  have "0 < unat (t_blockSize t)" "0 < frame_number t a"
    using assms(2,3) by (simp_all add: geometry_ok_def frame_number_def word_le_nat_alt div_greater_zero_iff)
  then show ?thesis
    using assms(1) unfolding taken_from_def by auto
qed

lemma same_shape_frames:
  assumes "same_shape t t'"
  shows "geometry_ok t' = geometry_ok t" "single_block t' = single_block t" "frame_number t' = frame_number t"
    "frame_at t' = frame_at t" "t_startAddress t' = t_startAddress t" "t_endAddress t' = t_endAddress t" "t_blockSize t' = t_blockSize t"
  using assms by (simp_all add: same_shape_def geometry_ok_def single_block_def frame_number_def frame_at_def fun_eq_iff)

lemma taken_from_start:
  assumes "taken_from t a ret t2" and "a = t_startAddress t" and "same_shape t0 t" and "entry t = entry t0" and "locked t = locked t0"
  shows "frame_taken t0 ret t2"
proof -
  have "busy t = busy t0"
    by (simp add: fun_eq_iff busy_def same_shape_frames [OF assms(3)] assms(4,5))
  then show ?thesis
    using assms(1,2,4) by (auto simp: taken_from_def frame_taken_def same_shape_frames [OF assms(3)])
qed

lemma taken_from_same:
  assumes "taken_from t a ret t2" and "same_shape t0 t" and "entry t = entry t0" and "locked t = locked t0"
  shows "taken_from t0 a ret t2"
proof -
  have "busy t = busy t0"
    by (simp add: fun_eq_iff busy_def same_shape_frames [OF assms(2)] assms(3,4))
  then show ?thesis
    using assms(1,3) by (simp add: taken_from_def same_shape_frames [OF assms(2)])
qed

lemma same_shape_needed:
  assumes "same_shape t t'"
  shows "tables_needed t' a = tables_needed t a" and "scanned t' a = scanned t a"
proof -
  have e: "calculateIndex t' b = calculateIndex t b" "t_endAddress t' = t_endAddress t" for b
    using assms by (simp_all add: same_shape_def calculateIndex_def)
  show "tables_needed t' a = tables_needed t a" "scanned t' a = scanned t a"
    by (simp_all only: tables_needed_def scanned_def j_range_same [OF assms] frames_same [OF assms] Let_def e)
qed

text \<open>What else an allocation keeps: the blocks of the paging area that others hold.\<close>

definition frames_kept :: "frames \<Rightarrow> frames \<Rightarrow> nat \<Rightarrow> bool" where
  "frames_kept t t' n \<longleftrightarrow> frames_paging t' \<and> frames_live t \<subseteq> frames_live t' \<and> frames_avail t' \<subseteq> frames_avail t \<and>
     same_shape t t' \<and> locked t' = locked t \<and> pam_room (t_source t) \<le> pam_room (t_source t') + n"

lemma frames_kept_trans: "frames_kept t t1 m \<Longrightarrow> frames_kept t1 t2 n \<Longrightarrow> frames_kept t t2 (m + n)"
  using same_shape_trans [of t t1 t2] by (auto simp: frames_kept_def)

lemma frames_after:
  assumes ok: "frames_paging t" and room: "tables_needed t a \<le> pam_room (t_source t)"
  shows "\<exists>ret t'. tmm_allocateBlockAfterAddress pam_take t a = Inr (ret, t') \<and> frames_kept t t' (tables_needed t a) \<and>
    (geometry_ok t \<and> single_block t \<longrightarrow> taken_from t a ret t') \<and> ((\<forall>f \<in> scanned t a. entry t f \<noteq> 0) \<longrightarrow> ret = nullptr \<and> entry t' = entry t)"
proof -
  let ?R = "frames_live t" and ?A = "frames_avail t"
  have tab: "tables_ok (\<lambda>m. pam_live m - ?R) (\<lambda>m. pam_paging m \<and> ?R \<subseteq> pam_live m \<and> pam_avail m \<subseteq> ?A) t"
    using ok by (auto simp: frames_paging_def tables_ok_def frames_live_def frames_avail_def)
  from ptb.after_spec [OF tab room] obtain ret t' where
    r: "tmm_allocateBlockAfterAddress pam_take t a = Inr (ret, t')"
      "tables_ok (\<lambda>m. pam_live m - ?R) (\<lambda>m. pam_paging m \<and> ?R \<subseteq> pam_live m \<and> pam_avail m \<subseteq> ?A) t'"
      "same_shape t t'" "locked t' = locked t" "pam_room (t_source t) \<le> pam_room (t_source t') + tables_needed t a"
      "ret = nullptr \<and> entry t' = entry t \<or> (\<exists>f. f \<in> scanned t a \<and> entry t f = 0)"
    by blast
  have T: "pam_paging (t_source t')" "?R \<subseteq> pam_live (t_source t')" "pam_avail (t_source t') \<subseteq> ?A"
    "\<And>i j. address_of t' i j \<noteq> 0 \<Longrightarrow> address_of t' i j \<in> pam_live (t_source t') - ?R"
    using r(2) by (simp_all add: tables_ok_def)
  have "frames_paging t'"
    using r(2) unfolding frames_paging_def tables_ok_def by blast
  moreover have "?R \<subseteq> frames_live t'"
  proof
    fix b assume b: "b \<in> ?R"
    then have "b \<noteq> 0"
      using pam_region [OF T(1), of b] T(2) by blast
    then have "address_of t' i j \<noteq> b" for i j
      using T(4) [of i j] b by auto
    then show "b \<in> frames_live t'"
      using T(2) b by (auto simp: frames_live_def)
  qed
  moreover have "frames_avail t' \<subseteq> ?A"
    using T(3) by (simp add: frames_avail_def)
  ultimately have "frames_kept t t' (tables_needed t a)"
    using r(3-5) by (simp add: frames_kept_def)
  moreover have "taken_from t a ret t'" if "geometry_ok t \<and> single_block t"
    using ptb.after_frames [OF tab room] that r(1) unfolding taken_from_def by fastforce
  ultimately show ?thesis
    using r(1,6) by auto
qed

definition pfa_needed :: "u32 \<Rightarrow> u32 \<Rightarrow> frames \<Rightarrow> nat" where
  "pfa_needed maxDma kernelEnd t =
     tables_needed t maxDma + tables_needed t kernelEnd + tables_needed t (t_startAddress t)"

lemma pfa_spec:
  assumes ok: "frames_paging t" and room: "pfa_needed maxDma kernelEnd t \<le> pam_room (t_source t)"
  shows "\<exists>ret t'. pfa_allocateBlock pam_take maxDma kernelEnd t = Inr (ret, t') \<and>
    frames_kept t t' (pfa_needed maxDma kernelEnd t) \<and>
    (geometry_ok t \<and> single_block t \<and> t_blockSize t \<le> maxDma \<and> t_blockSize t \<le> kernelEnd \<longrightarrow> frame_taken t ret t') \<and>
    ((\<forall>f \<in> scanned t maxDma \<union> scanned t kernelEnd \<union> scanned t (t_startAddress t). entry t f \<noteq> 0) \<longrightarrow> ret = nullptr)"
proof -
  obtain r1 t1 where 1: "tmm_allocateBlockAfterAddress pam_take t maxDma = Inr (r1, t1)"
      "frames_kept t t1 (tables_needed t maxDma)" "geometry_ok t \<and> single_block t \<longrightarrow> taken_from t maxDma r1 t1"
      "(\<forall>f \<in> scanned t maxDma. entry t f \<noteq> 0) \<longrightarrow> r1 = nullptr \<and> entry t1 = entry t"
    using frames_after [OF ok, of maxDma] room by (auto simp: pfa_needed_def)
  have s1: "same_shape t t1" and p1: "frames_paging t1" and m1: "pam_room (t_source t) \<le> pam_room (t_source t1) + tables_needed t maxDma"
    using 1(2) by (simp_all add: frames_kept_def)
  have "tables_needed t1 kernelEnd \<le> pam_room (t_source t1)"
    using room m1 by (simp add: same_shape_needed [OF s1] pfa_needed_def)
  then obtain r2 t2 where 2: "tmm_allocateBlockAfterAddress pam_take t1 kernelEnd = Inr (r2, t2)"
      "frames_kept t1 t2 (tables_needed t kernelEnd)" "geometry_ok t \<and> single_block t \<longrightarrow> taken_from t1 kernelEnd r2 t2"
      "(\<forall>f \<in> scanned t kernelEnd. entry t1 f \<noteq> 0) \<longrightarrow> r2 = nullptr \<and> entry t2 = entry t1"
    using frames_after [OF p1, of kernelEnd] by (auto simp: same_shape_needed [OF s1] same_shape_frames [OF s1])
  note k2 = frames_kept_trans [OF 1(2) 2(2)]
  have s2: "same_shape t t2" and p2: "frames_paging t2" and start: "t_startAddress t2 = t_startAddress t"
    and m2: "pam_room (t_source t) \<le> pam_room (t_source t2) + (tables_needed t maxDma + tables_needed t kernelEnd)"
    using k2 by (simp_all add: frames_kept_def same_shape_def)
  have "tables_needed t2 (t_startAddress t) \<le> pam_room (t_source t2)"
    using room m2 by (simp add: same_shape_needed [OF s2] pfa_needed_def)
  then obtain r3 t3 where 3: "tmm_allocateBlockAfterAddress pam_take t2 (t_startAddress t) = Inr (r3, t3)"
      "frames_kept t2 t3 (tables_needed t (t_startAddress t))" "geometry_ok t \<and> single_block t \<longrightarrow> taken_from t2 (t_startAddress t) r3 t3"
      "(\<forall>f \<in> scanned t (t_startAddress t). entry t2 f \<noteq> 0) \<longrightarrow> r3 = nullptr \<and> entry t3 = entry t2"
    using frames_after [OF p2, of "t_startAddress t"] by (auto simp: same_shape_needed [OF s2] same_shape_frames [OF s2])
  have k: "frames_kept t t1 (pfa_needed maxDma kernelEnd t)" "frames_kept t t2 (pfa_needed maxDma kernelEnd t)"
    "frames_kept t t3 (pfa_needed maxDma kernelEnd t)"
    using 1(2) k2 frames_kept_trans [OF k2 3(2)] by (auto simp: frames_kept_def pfa_needed_def)
  have l1: "locked t1 = locked t" and l2: "locked t2 = locked t"
    using 1(2) k2 by (simp_all add: frames_kept_def)
  let ?regular = "geometry_ok t \<and> single_block t \<and> t_blockSize t \<le> maxDma \<and> t_blockSize t \<le> kernelEnd"
  show ?thesis
  proof (cases "r1 = nullptr")
    case r1: True
    have e1: "entry t1 = entry t" if ?regular
      using taken_from_null [of t maxDma t1] 1(3) r1 that by simp
    have f2: "taken_from t kernelEnd r2 t2" if ?regular
      using taken_from_same [OF _ s1 e1 [OF that] l1] 2(3) that by simp
    show ?thesis
    proof (cases "r2 = nullptr")
      case r2: True
      have e2: "entry t2 = entry t" if ?regular
        using taken_from_null [of t kernelEnd t2] f2 [OF that] r2 that by blast
      have "frame_taken t r3 t3" if ?regular
        by (rule taken_from_start [OF _ start [symmetric] s2 e2 [OF that] l2]) (use 3(3) that in blast)
      then show ?thesis
        using 1(1,4) 2(1,4) 3(1,4) r1 r2 k(3) start by (auto simp: pfa_allocateBlock_def tmm_allocateBlock_def)
    next
      case False
      have "?regular \<longrightarrow> frame_taken t r2 t2"
        using taken_from_found [OF _ False] f2 by blast
      then show ?thesis
        using 1(1,4) 2(1,4) r1 k(2) False by (auto simp: pfa_allocateBlock_def)
    qed
  next
    case False
    have "?regular \<longrightarrow> frame_taken t r1 t1"
      using taken_from_found [OF _ False] 1(3) by blast
    then show ?thesis
      using 1(1,4) k(1) False by (auto simp: pfa_allocateBlock_def)
  qed
qed

lemma entry_source [simp]: "entry (t\<lparr>t_source := m\<rparr>) = entry t"
  by (simp add: entry_def fun_eq_iff)

lemma vas_map_entry:
  assumes "vas_map frames_take st space phys v flags = Inr st'"
  shows "entry (pg_source st') = entry (pg_source st)"
proof -
  have "entry (pg_source st1) = entry (pg_source st)" if "ensure_table frames_take st space v = Inr st1" for st1
    using that by (auto simp: ensure_table_def allocatePageTable_def frames_take_def Let_def res_iff put_entry_def
        split: if_splits)
  then show ?thesis
    using assms by (auto simp: vas_map_def Let_def res_iff put_entry_def split: if_splits)
qed

lemma page_fault_spec:
  assumes ok: "spaces_ok (ms_paging ms)" and v: "v \<noteq> 0" "v \<noteq> KERNEL_END" and err: "errorCode AND 1 = 0"
    and unmapped: "page (ms_paging ms) (pg_current (ms_paging ms)) (idx v) = entry_clear"
    and room: "pfa_needed maxDma kernelEnd (pg_source (ms_paging ms)) < pam_room (t_source (pg_source (ms_paging ms)))"
  shows "\<exists>frame ms'. ms_handlePageFault maxDma kernelEnd ms v errorCode = Inr ms' \<and> spaces_ok (ms_paging ms') \<and>
    (geometry_ok (pg_source (ms_paging ms)) \<and> single_block (pg_source (ms_paging ms)) \<and>
       t_blockSize (pg_source (ms_paging ms)) \<le> maxDma \<and> t_blockSize (pg_source (ms_paging ms)) \<le> kernelEnd \<longrightarrow>
     frame_taken (pg_source (ms_paging ms)) frame (pg_source (ms_paging ms'))) \<and>
    (\<forall>s \<in> set (pg_spaces (ms_paging ms)). \<forall>w. vas_getPhysicalAddress (ms_paging ms') s w =
       (if w div PAGESIZE = v div PAGESIZE \<and> (s = pg_current (ms_paging ms) \<or> v < KERNEL_END)
        then (frame AND NOT (mask 12)) OR (w AND 0xfff) else vas_getPhysicalAddress (ms_paging ms) s w)) \<and>
    ((\<forall>f \<in> scanned (pg_source (ms_paging ms)) maxDma \<union> scanned (pg_source (ms_paging ms)) kernelEnd \<union>
        scanned (pg_source (ms_paging ms)) (t_startAddress (pg_source (ms_paging ms))).
        entry (pg_source (ms_paging ms)) f \<noteq> 0) \<longrightarrow> frame = nullptr)"
proof -
  define st where "st = ms_paging ms"
  define t where "t = pg_source st"
  define flags where "flags = PRESENT OR WRITABLE OR (if KERNEL_END \<le> v then USER_ACCESSIBLE else 0)"
  have p: "frames_paging t"
    using ok by (simp add: paging_ok_def t_def st_def)
  obtain frame t1 where f: "pfa_allocateBlock pam_take maxDma kernelEnd t = Inr (frame, t1)"
      "frames_kept t t1 (pfa_needed maxDma kernelEnd t)" "geometry_ok t \<and> single_block t \<and> t_blockSize t \<le> maxDma \<and> t_blockSize t \<le> kernelEnd \<longrightarrow> frame_taken t frame t1"
      "(\<forall>f \<in> scanned t maxDma \<union> scanned t kernelEnd \<union> scanned t (t_startAddress t). entry t f \<noteq> 0) \<longrightarrow> frame = nullptr"
    using pfa_spec [OF p, of maxDma kernelEnd] room by (auto simp: t_def st_def)
  define st1 where "st1 = st\<lparr>pg_source := t1\<rparr>"
  have ok1: "spaces_ok st1"
    unfolding st1_def using pts.pinv_source [of st t1] ok f(2) by (simp add: frames_kept_def st_def t_def)
  have "0 < pam_room (t_source t1)"
    using f(2) room by (simp add: frames_kept_def t_def st_def)
  then have av: "frames_avail (pg_source st1) \<noteq> {}"
    by (simp add: st1_def frames_avail_def pam_avail_def pam_room_def) auto
  have same: "pg_spaces st1 = pg_spaces st" "pg_current st1 = pg_current st" "page st1 = page st"
    by (simp_all add: st1_def)
  have cur: "pg_current st \<in> set (pg_spaces st1)"
    using ok by (simp add: paging_ok_def layout_ok_def st_def same [unfolded st_def])
  have bit: "bit flags 0"
    by (simp add: flags_def PRESENT_def bit_simps)
  obtain st2 where m: "vas_map frames_take st1 (pg_current st) frame v flags = Inr st2" "spaces_ok st2"
      "\<forall>s \<in> set (pg_spaces st1). page st2 s = (if s \<in> concerned st1 (pg_current st) (DIRECTORY_INDEX v)
        then (page st1 s)(idx v := entry_set frame flags) else page st1 s)"
    using pts.vas_map_spec [OF ok1 cur av v(2), of frame flags] unmapped same by (auto simp: st_def)
  define ms' where "ms' = (put_frames ms t1)\<lparr>ms_paging := st2\<rparr>"
  have put: "ms_paging (put_frames ms t1) = st1"
    by (simp add: put_frames_def st1_def st_def)
  have "map_pages maxDma kernelEnd ms v 1 flags 0 = Inr ms'"
    using f(1) m(1) unfolding t_def st_def
    by (subst map_pages.simps, simp add: map_current_def put ms'_def same [unfolded st_def])
      (subst map_pages.simps, simp)
  then have "ms_handlePageFault maxDma kernelEnd ms v errorCode = Inr ms'"
    using v(1) err by (simp add: ms_handlePageFault_def ms_map_def flags_def)
  moreover have "entry (pg_source st2) = entry t1"
    using vas_map_entry [OF m(1)] by (simp add: st1_def)
  then have "geometry_ok t \<and> single_block t \<and> t_blockSize t \<le> maxDma \<and> t_blockSize t \<le> kernelEnd \<longrightarrow>
      frame_taken t frame (pg_source st2)"
    using f(3) by (simp only: frame_taken_def)
  moreover have "vas_getPhysicalAddress st2 s w = (if w div PAGESIZE = v div PAGESIZE \<and> (s = pg_current st \<or> v < KERNEL_END)
      then (frame AND NOT (mask 12)) OR (w AND 0xfff) else vas_getPhysicalAddress st s w)" if "s \<in> set (pg_spaces st)" for s w
    using m(3) that concerned_iff [of s st1 "pg_current st" v] present_used [OF bit, of frame]
    by (auto simp: getPhysicalAddress_page idx_eq_iff entry_getAddress_set same)
  ultimately show ?thesis
    using m(2) f(4) by (intro exI [of _ frame] exI [of _ ms']) (auto simp: ms'_def st_def t_def)
qed

text \<open>
  C27. A page fault is served with a fresh frame. The address is not zero, not mapped, and not the very
  first one of user space (\<open>KERNEL_END\<close>); the paging area has room for the tables; the frames fit into
  one block of references; and the 16 MiB limit and the end of the kernel lie beyond frame zero. Then
  the handler succeeds, and it maps the page to a frame that was free before and whose use count is
  one now, or, only if every frame of the machine is in use, reserved or locked, to the null pointer.
  It changes the use count of no other frame, keeps the invariant of the address spaces, and changes no
  translation but that of the faulting page.
\<close>

theorem page_fault_fresh_frame:
  assumes "spaces_ok (ms_paging ms)" and "v \<noteq> 0" and "v \<noteq> KERNEL_END" and "errorCode AND 1 = 0"
    and "page (ms_paging ms) (pg_current (ms_paging ms)) (idx v) = entry_clear"
    and "pfa_needed maxDma kernelEnd (pg_source (ms_paging ms)) < pam_room (t_source (pg_source (ms_paging ms)))"
    and "geometry_ok (pg_source (ms_paging ms))" and "single_block (pg_source (ms_paging ms))"
    and "t_blockSize (pg_source (ms_paging ms)) \<le> maxDma" and "t_blockSize (pg_source (ms_paging ms)) \<le> kernelEnd"
  shows "\<exists>frame ms'. ms_handlePageFault maxDma kernelEnd ms v errorCode = Inr ms' \<and> spaces_ok (ms_paging ms') \<and>
    frame_taken (pg_source (ms_paging ms)) frame (pg_source (ms_paging ms')) \<and>
    (\<forall>s \<in> set (pg_spaces (ms_paging ms)). \<forall>w. vas_getPhysicalAddress (ms_paging ms') s w =
       (if w div PAGESIZE = v div PAGESIZE \<and> (s = pg_current (ms_paging ms) \<or> v < KERNEL_END)
        then (frame AND NOT (mask 12)) OR (w AND 0xfff) else vas_getPhysicalAddress (ms_paging ms) s w))"
  using page_fault_spec [OF assms(1-6)] assms(7-10) by blast

text \<open>
  C28. Running out of frames is not noticed: when every frame the allocator looks at is used or
  reserved, the page fault handler does not fail but maps the faulting page, writable, to physical
  address zero.
\<close>

theorem page_fault_without_memory:
  assumes "spaces_ok (ms_paging ms)" and "v \<noteq> 0" and "v \<noteq> KERNEL_END" and "errorCode AND 1 = 0"
    and "page (ms_paging ms) (pg_current (ms_paging ms)) (idx v) = entry_clear"
    and "pfa_needed maxDma kernelEnd (pg_source (ms_paging ms)) < pam_room (t_source (pg_source (ms_paging ms)))"
    and "\<forall>f \<in> scanned (pg_source (ms_paging ms)) maxDma \<union> scanned (pg_source (ms_paging ms)) kernelEnd \<union>
        scanned (pg_source (ms_paging ms)) (t_startAddress (pg_source (ms_paging ms))). entry (pg_source (ms_paging ms)) f \<noteq> 0"
  shows "\<exists>ms'. ms_handlePageFault maxDma kernelEnd ms v errorCode = Inr ms' \<and>
    vas_getPhysicalAddress (ms_paging ms') (pg_current (ms_paging ms)) v = v AND 0xfff"
proof -
  have "pg_current (ms_paging ms) \<in> set (pg_spaces (ms_paging ms))"
    using assms(1) by (simp add: paging_ok_def layout_ok_def)
  then show ?thesis
    using page_fault_spec [OF assms(1-6)] assms(7) by fastforce
qed

section \<open>An example\<close>

text \<open>
  Seven blocks of the paging area from 0x100000 on: the first one is the page table of the first
  four MiB, which maps the blocks and which a kernel and a user address space share, the second one
  is a page table of the user space with a single page, the next four are in the pool, and the last
  one is the allocation table of the eight page frames, each of which has the entry \<open>e\<close>.
\<close>

definition sample_pam :: PagingAreaManager where
  "sample_pam = \<lparr>pam_manager = \<lparr>startAddress = 0x100000, endAddress = 0x106fff, freeMemory = 0, blockSize = 0x1000,
       zeroMemory = True, bmm_bitmap = \<lparr>blocks = 7, arraySize = 1, bitmap = [0xfe000000]\<rparr>\<rparr>,
     blockPool = \<lparr>parray = [0, 0, 0x102000, 0x103000, 0x104000, 0x105000, 0],
       allocatedMap = \<lparr>blocks = 7, arraySize = 1, bitmap = [0x3c000000]\<rparr>,
       writtenMap = \<lparr>blocks = 7, arraySize = 1, bitmap = [0x3c000000]\<rparr>\<rparr>\<rparr>"

definition sample_frames :: "u16 \<Rightarrow> frames" where
  "sample_frames e = \<lparr>t_source = sample_pam, t_startAddress = 0, t_endAddress = 0x7fff, t_blockSize = 0x1000,
     t_referenceTableSizeInBlocks = 1, t_allocationTableEntriesPerBlock = 8, t_managedMemoryPerAllocationTable = 0x8000,
     t_referenceTableEntriesPerBlock = 4, t_allocationTableCount = 1,
     t_referenceTable = (\<lambda>i j. if i = 0 \<and> j = 0 then 0x106000 else 0), t_tables = (\<lambda>_ _. e)\<rparr>"

definition sample_kernel :: VirtualAddressSpace where
  "sample_kernel = \<lparr>kernelAddressSpace = True, physicalPageDirectory = 0x300000, virtualPageDirectory = 0x200000\<rparr>"

definition sample_user :: VirtualAddressSpace where
  "sample_user = \<lparr>kernelAddressSpace = False, physicalPageDirectory = 0x310000, virtualPageDirectory = 0x210000\<rparr>"

definition sample_spaces :: "u16 \<Rightarrow> frames PagingState" where
  "sample_spaces e = \<lparr>pg_tables = (\<lambda>_ _. entry_clear)
       (0x200000 := (\<lambda>_. entry_clear)(0 := entry_set 0x100000 3),
        0x300000 := (\<lambda>_. entry_clear)(0 := entry_set 0x500000 3),
        0x210000 := (\<lambda>_. entry_clear)(0 := entry_set 0x100000 3, 36 := entry_set 0x101000 7),
        0x310000 := (\<lambda>_. entry_clear)(0 := entry_set 0x500000 3, 36 := entry_set 0x501000 7),
        0x100000 := (\<lambda>_. entry_clear)(0x100 := entry_set 0x500000 3, 0x101 := entry_set 0x501000 3,
                                          0x102 := entry_set 0x502000 3, 0x103 := entry_set 0x503000 3,
                                          0x104 := entry_set 0x504000 3, 0x105 := entry_set 0x505000 3),
        0x101000 := (\<lambda>_. entry_clear)(0 := entry_set 0x700000 7)),
     pg_source = sample_frames e, pg_spaces = [sample_kernel, sample_user], pg_current = sample_user\<rparr>"

lemma sample_bits:
  "used \<lparr>blocks = 7, arraySize = 1, bitmap = [0xfe000000]\<rparr> = {0, 1, 2, 3, 4, 5, 6}"
  "used \<lparr>blocks = 7, arraySize = 1, bitmap = [0x3c000000]\<rparr> = {2, 3, 4, 5}"
proof -
  have u: "used \<lparr>blocks = 7, arraySize = 1, bitmap = [x]\<rparr> = {i \<in> {0, 1, 2, 3, 4, 5, 6}. bit x (31 - i)}" for x
    by (auto simp: used_def)
  show "used \<lparr>blocks = 7, arraySize = 1, bitmap = [0xfe000000]\<rparr> = {0, 1, 2, 3, 4, 5, 6}"
    "used \<lparr>blocks = 7, arraySize = 1, bitmap = [0x3c000000]\<rparr> = {2, 3, 4, 5}"
    unfolding u by auto
qed

lemma sample_pam_facts:
  "pam_paging sample_pam" "pam_live sample_pam = {0x100000, 0x101000, 0x106000}" "pam_avail sample_pam = {0x102000, 0x103000, 0x104000, 0x105000}"
  "pam_room sample_pam = 4"
proof -
  have bag: "pool_bag (blockPool sample_pam) = {#0x102000, 0x103000, 0x104000, 0x105000#}"
    by (simp add: sample_pam_def pool_bag_def sample_bits bag_of_def)
  have live: "bmm_live (pam_manager sample_pam) = {0x100000, 0x101000, 0x102000, 0x103000, 0x104000, 0x105000, 0x106000}"
    by (simp add: sample_pam_def bmm_live_def sample_bits bmm_addr_def)
  show "pam_live sample_pam = {0x100000, 0x101000, 0x106000}" "pam_avail sample_pam = {0x102000, 0x103000, 0x104000, 0x105000}" "pam_room sample_pam = 4"
    by (auto simp: pam_live_def pam_avail_def pam_room_def bag live)
  have "bmm_ok (pam_manager sample_pam)"
    by (simp add: sample_pam_def bmm_ok_def bmm_shape_def bmm_total_def bm_wf_def sample_bits)
  moreover have "pool_ok (blockPool sample_pam)"
    by (simp add: sample_pam_def pool_ok_def pool_shape_def bm_wf_def)
  ultimately have "pam_ok sample_pam"
    by (simp add: pam_ok_def bag live)
  then show "pam_paging sample_pam"
    by (simp add: pam_paging_def sample_pam_def is_page_def PAGESIZE_def KERNEL_END_def)
qed

lemma sample_frames_facts:
  "frames_paging (sample_frames e)" "frames_live (sample_frames e) = {0x100000, 0x101000}"
  "frames_avail (sample_frames e) = {0x102000, 0x103000, 0x104000, 0x105000}"
proof -
  have a: "address_of (sample_frames e) i j = (if i = 0 \<and> j = 0 then 0x106000 else 0)" for i j
    by (simp add: sample_frames_def address_of_def re_getAddress_def)
  have "t_source (sample_frames e) = sample_pam"
    by (simp add: sample_frames_def)
  then show "frames_paging (sample_frames e)" "frames_live (sample_frames e) = {0x100000, 0x101000}"
    "frames_avail (sample_frames e) = {0x102000, 0x103000, 0x104000, 0x105000}"
    using sample_pam_facts by (auto simp: frames_paging_def tables_ok_def a frames_live_def frames_avail_def)
qed

lemma sample_dir:
  "dir (sample_spaces e) sample_kernel d = (if d = 0 then entry_set 0x100000 3 else entry_clear)"
  "dir (sample_spaces e) sample_user d =
     (if d = 0 then entry_set 0x100000 3 else if d = 36 then entry_set 0x101000 7 else entry_clear)"
  by (simp_all add: dir_def sample_spaces_def sample_kernel_def sample_user_def)

lemma sample_used:
  "entry_set a 3 \<noteq> entry_clear" "entry_set a 7 \<noteq> entry_clear"
  "entry_getAddress (entry_set 0x100000 f) = 0x100000" "entry_getAddress (entry_set 0x101000 f) = 0x101000"
  using present_used [of 3 a] present_used [of 7 a] by (simp_all add: entry_getAddress_page is_page_def)

lemma sample_fields:
  "set (pg_spaces (sample_spaces e)) = {sample_kernel, sample_user}" "pg_source (sample_spaces e) = (sample_frames e)"
  "pg_current (sample_spaces e) = sample_user"
  by (simp_all add: sample_spaces_def)

lemma sample_page:
  "page (sample_spaces e) sample_kernel (0, i) = pg_tables (sample_spaces e) 0x100000 i"
  "page (sample_spaces e) sample_user (0, i) = pg_tables (sample_spaces e) 0x100000 i"
  "page (sample_spaces e) sample_user (36, i) = pg_tables (sample_spaces e) 0x101000 i"
  by (simp_all add: page_def sample_dir sample_used)

lemma sample_refs: "refs (sample_spaces e) = {0x100000, 0x101000}"
proof
  show "refs (sample_spaces e) \<subseteq> {0x100000, 0x101000}"
    unfolding refs_def sample_fields by (auto simp: sample_dir sample_used split: if_splits)
  show "{0x100000, 0x101000} \<subseteq> refs (sample_spaces e)"
    using refs_I [of sample_user "sample_spaces e" 0] refs_I [of sample_user "sample_spaces e" 36]
    by (simp add: sample_fields sample_dir sample_used)
qed

lemma sample_spaces_ok: "spaces_ok (sample_spaces e)"
proof -
  have "layout_ok {0x100000, 0x101000} {0x102000, 0x103000, 0x104000, 0x105000} (sample_spaces e)"
    unfolding layout_ok_def sample_fields sample_refs by (simp add: sample_kernel_def sample_user_def)
  moreover have "sharing_ok (sample_spaces e)"
    unfolding sharing_ok_def sample_fields by (auto simp: sample_dir sample_used split: if_splits)
  moreover have "mmu_ok {0x102000, 0x103000, 0x104000, 0x105000} (sample_spaces e)"
  proof -
    have i: "idx 0x100000 = (0, 0x100)" "idx 0x101000 = (0, 0x101)" "idx 0x102000 = (0, 0x102)" "idx 0x103000 = (0, 0x103)"
      "idx 0x104000 = (0, 0x104)" "idx 0x105000 = (0, 0x105)"
      by (simp_all add: idx_def DIRECTORY_INDEX_def TABLE_INDEX_def)
    have t: "pg_tables (sample_spaces e) 0x100000 0x100 = entry_set 0x500000 3"
      "pg_tables (sample_spaces e) 0x100000 0x101 = entry_set 0x501000 3"
      "pg_tables (sample_spaces e) 0x100000 0x102 = entry_set 0x502000 3"
      "pg_tables (sample_spaces e) 0x100000 0x103 = entry_set 0x503000 3"
      "pg_tables (sample_spaces e) 0x100000 0x104 = entry_set 0x504000 3"
      "pg_tables (sample_spaces e) 0x100000 0x105 = entry_set 0x505000 3"
      by (simp_all add: sample_spaces_def)
    have p: "pg_tables (sample_spaces e) (physicalPageDirectory sample_kernel) d = (if d = 0 then entry_set 0x500000 3 else entry_clear)"
      "pg_tables (sample_spaces e) (physicalPageDirectory sample_user) d =
        (if d = 0 then entry_set 0x500000 3 else if d = 36 then entry_set 0x501000 7 else entry_clear)" for d
      by (simp_all add: sample_spaces_def sample_kernel_def sample_user_def)
    show ?thesis
      unfolding mmu_ok_def sample_fields sample_refs
      by (auto simp: sample_dir i sample_page t p sample_used) (simp_all add: entry_set_def)
  qed
  ultimately show ?thesis
    by (simp add: paging_ok_def sample_fields sample_frames_facts)
qed

lemma sample_members:
  "sample_user \<in> set (pg_spaces (sample_spaces e))" "frames_avail (pg_source (sample_spaces e)) \<noteq> {}"
  by (simp_all add: sample_fields sample_frames_facts)

lemma sample_user_page: "page (sample_spaces e) sample_user (idx 0x9000000) = entry_set 0x700000 7"
  "page (sample_spaces e) sample_user (idx 0x9001000) = entry_clear"
proof -
  have "idx 0x9000000 = (36, 0)" "idx 0x9001000 = (36, 1)"
    by (simp_all add: idx_def DIRECTORY_INDEX_def TABLE_INDEX_def)
  then show "page (sample_spaces e) sample_user (idx 0x9000000) = entry_set 0x700000 7"
    "page (sample_spaces e) sample_user (idx 0x9001000) = entry_clear"
    by (simp_all add: sample_page) (simp_all add: sample_spaces_def)
qed

theorem map_isolated_witness:
  "\<exists>st'. vas_map frames_take (sample_spaces 0) sample_user 0x600000 0x9001000 7 = Inr st' \<and>
    vas_getPhysicalAddress st' sample_user 0x9001123 = 0x600123 \<and>
    vas_getPhysicalAddress st' sample_kernel 0x9001123 = vas_getPhysicalAddress (sample_spaces 0) sample_kernel 0x9001123"
proof -
  have k: "sample_kernel \<noteq> sample_user" "(0x600000 :: u32) AND NOT (mask 12) = 0x600000"
    by (simp_all add: sample_kernel_def sample_user_def mask_eq_exp_minus_1)
  obtain st' where "vas_map frames_take (sample_spaces 0) sample_user 0x600000 0x9001000 7 = Inr st'"
      "\<forall>s \<in> set (pg_spaces (sample_spaces 0)). \<forall>w. vas_getPhysicalAddress st' s w =
        (if w div PAGESIZE = 0x9001000 div PAGESIZE \<and> (s = sample_user \<or> 0x9001000 < KERNEL_END)
         then (0x600000 AND NOT (mask 12)) OR (w AND 0xfff) else vas_getPhysicalAddress (sample_spaces 0) s w)"
    using map_isolated [OF sample_spaces_ok [of 0] sample_members [of 0], of "0x9001000" 7 "0x600000"] sample_user_page(2) [of 0]
    by (auto simp: KERNEL_END_def)
  then show ?thesis
    using k by (auto simp: sample_fields PAGESIZE_def KERNEL_END_def)
qed

theorem unmap_isolated_witness:
  "\<exists>st'. vas_unmap frames_give (sample_spaces 0) sample_user 0x9000000 = Inr (0x700000, st') \<and> spaces_ok st' \<and>
    vas_getPhysicalAddress st' sample_user 0x9000000 = nullptr"
proof -
  have "entry_getAddress (entry_set 0x700000 7) = 0x700000"
    by (simp add: entry_getAddress_page is_page_def)
  then show ?thesis
    using unmap_isolated [OF sample_spaces_ok [of 0] sample_members(1) [of 0], of "0x9000000"] sample_user_page(1) sample_used(2)
    by (auto simp: KERNEL_END_def PAGESIZE_def sample_fields sample_frames_facts)
qed

theorem spaces_well_formed_witness:
  "\<exists>st1 st2 p. vas_map frames_take (sample_spaces 0) sample_user 0x600000 0x9001000 7 = Inr st1 \<and>
    vas_unmap frames_give st1 sample_user 0x9001000 = Inr (p, st2) \<and>
    space_step\<^sup>*\<^sup>* (sample_spaces 0) (switchAddressSpace sample_kernel st2) \<and>
    vas_getPhysicalAddress (switchAddressSpace sample_kernel st2) sample_user 0x101000 =
      vas_getPhysicalAddress (switchAddressSpace sample_kernel st2) sample_kernel 0x101000"
proof -
  have K: "(0x9001000 :: u32) \<noteq> KERNEL_END"
    by (simp add: KERNEL_END_def)
  obtain st1 where 1: "vas_map frames_take (sample_spaces 0) sample_user 0x600000 0x9001000 7 = Inr st1" "spaces_ok st1"
      "pg_spaces st1 = pg_spaces (sample_spaces 0)"
    using pts.vas_map_spec [OF sample_spaces_ok [of 0] sample_members [of 0] K, of "0x600000" 7] sample_user_page(2) [of 0] by auto
  have u1: "sample_user \<in> set (pg_spaces st1)"
    using 1(3) sample_members(1) by simp
  have apart: "a div PAGESIZE \<noteq> 0x9001000 div PAGESIZE" if "a \<in> frames_live (pg_source st1) \<union> frames_avail (pg_source st1)" for a
  proof -
    have "a < KERNEL_END"
      using pts.region [of "pg_source st1" a] 1(2) that by (simp add: paging_ok_def)
    then have "unat a div 4096 < unat (0x9001000 :: u32) div 4096"
      by (simp add: KERNEL_END_def word_less_nat_alt)
    then show ?thesis
      by (auto simp: PAGESIZE_def word_unat_eq_iff unat_div_distrib)
  qed
  have "idx 0x9001000 \<notin> idx ` (refs st1 \<union> frames_avail (pg_source st1))"
    by (rule no_structure [OF 1(2)]) (use apart in blast)
  then obtain p st2 where 2: "vas_unmap frames_give st1 sample_user 0x9001000 = Inr (p, st2)" "pg_spaces st2 = pg_spaces st1"
    using pts.unmap_spec(1) [OF refl 1(2) u1 K] unfolding pts.unmapped_def by blast
  let ?st = "switchAddressSpace sample_kernel st2"
  have "space_step (sample_spaces 0) st1" "space_step st1 st2" "space_step st2 ?st"
    using step_map [OF sample_members [of 0] K 1(1)] step_unmap [OF u1 K _ 2(1)] apart step_switch [of sample_kernel st2] 1(3) 2(2)
    by (auto simp: sample_fields)
  then have steps: "space_step\<^sup>*\<^sup>* (sample_spaces 0) ?st"
    by (meson rtranclp.rtrancl_into_rtrancl rtranclp.rtrancl_refl)
  have "sample_user \<in> set (pg_spaces ?st)" "sample_kernel \<in> set (pg_spaces ?st)" "(0x101000 :: u32) < KERNEL_END"
    using 1(3) 2(2) by (simp_all add: switchAddressSpace_def sample_fields KERNEL_END_def)
  then show ?thesis
    using spaces_well_formed [OF sample_spaces_ok [of 0] steps, of sample_user sample_kernel "0x101000"] 1(1) 2(1) steps by blast
qed

theorem first_user_page_shared_witness:
  "\<exists>st'. vas_map frames_take (sample_spaces 0) sample_user 0x600000 KERNEL_END 7 = Inr st' \<and>
    vas_getPhysicalAddress st' sample_kernel KERNEL_END = 0x600000"
proof -
  have d: "DIRECTORY_INDEX KERNEL_END = 32"
    by (simp add: DIRECTORY_INDEX_def KERNEL_END_def)
  have k: "KERNEL_END AND 0xfff = 0" "(0x600000 :: u32) AND NOT (mask 12) = 0x600000"
    by (simp_all add: KERNEL_END_def mask_eq_exp_minus_1)
  obtain st' where "vas_map frames_take (sample_spaces 0) sample_user 0x600000 KERNEL_END 7 = Inr st'"
      "\<forall>s \<in> set (pg_spaces (sample_spaces 0)). \<forall>w. DIRECTORY_INDEX w = DIRECTORY_INDEX KERNEL_END \<longrightarrow>
        vas_getPhysicalAddress st' s w =
          (if w div PAGESIZE = KERNEL_END div PAGESIZE then (0x600000 AND NOT (mask 12)) OR (w AND 0xfff) else nullptr)"
    using first_user_page_shared [OF sample_spaces_ok [of 0] sample_members [of 0], of 7 "0x600000"] by (auto simp: sample_dir d)
  then show ?thesis
    using k by (auto simp: sample_fields)
qed

definition sample_service :: "u16 \<Rightarrow> MemoryService" where
  "sample_service e = \<lparr>ms_paging = sample_spaces e, pageFrameSlabAllocator = SlabAllocator_new 0x1000000,
     slabAllocatorEnabled = False\<rparr>"

lemma sample_service_facts:
  "ms_paging (sample_service e) = sample_spaces e" "pg_current (sample_spaces e) = sample_user"
  "pg_source (sample_spaces e) = sample_frames e"
  by (simp_all add: sample_service_def sample_fields)

lemma sample_needed: "pfa_needed 0x1000 0x2000 (sample_frames e) < pam_room (t_source (sample_frames e))"
proof -
  have "t_source (sample_frames e) = sample_pam"
    by (simp add: sample_frames_def)
  then show ?thesis
    by (simp add: sample_pam_facts pfa_needed_def tables_needed_def)
      (simp add: sample_frames_def Let_def calculateIndex_def i_range_def j_range_def)
qed

lemma sample_scanned:
  assumes "(i, j, k) \<in> scanned (sample_frames e) a" and "a \<le> 0x7fff"
  shows "entry (sample_frames e) (i, j, k) = e"
proof -
  have "unat (a div 0x1000 * 0x1000) div 0x8000 = 0"
    using assms(2) by (simp add: word_le_nat_alt unat_div_distrib unat_word_ariths(2))
  then have "i = 0" "j = 0"
    using assms by (auto simp: scanned_def frames_def sample_frames_def Let_def calculateIndex_def i_range_def j_range_def)
  then show ?thesis
    by (simp add: entry_def address_of_def sample_frames_def re_getAddress_def)
qed

lemma sample_regular:
  "geometry_ok (sample_frames e)" "single_block (sample_frames e)" "t_blockSize (sample_frames e) = 0x1000"
  by (simp_all add: sample_frames_def geometry_ok_def single_block_def frame_number_def)

lemma sample_free: "\<not> busy (sample_frames 0) 3"
  by (simp add: busy_def frame_at_def sample_frames_def locked_def entry_def re_isLocked_def bitTest_def)

theorem page_fault_fresh_frame_witness:
  "\<exists>frame ms' n. ms_handlePageFault 0x1000 0x2000 (sample_service 0) 0x9001000 2 = Inr ms' \<and>
    n \<le> 7 \<and> unat frame = n * 4096 \<and> entry (pg_source (ms_paging ms')) (frame_at (sample_frames 0) n) = 2 \<and>
    vas_getPhysicalAddress (ms_paging ms') sample_user 0x9001004 = (frame AND NOT (mask 12)) OR 4"
proof -
  have v: "(0x9001000 :: u32) \<noteq> 0" "(0x9001000 :: u32) \<noteq> KERNEL_END" "(2 :: u32) AND 1 = 0"
    by (simp_all add: KERNEL_END_def)
  obtain frame ms' where r: "ms_handlePageFault 0x1000 0x2000 (sample_service 0) 0x9001000 2 = Inr ms'"
      "frame_taken (sample_frames 0) frame (pg_source (ms_paging ms'))"
      "\<forall>s \<in> set (pg_spaces (sample_spaces 0)). \<forall>w. vas_getPhysicalAddress (ms_paging ms') s w =
       (if w div PAGESIZE = 0x9001000 div PAGESIZE \<and> (s = sample_user \<or> 0x9001000 < KERNEL_END)
        then (frame AND NOT (mask 12)) OR (w AND 0xfff) else vas_getPhysicalAddress (sample_spaces 0) s w)"
    using page_fault_fresh_frame [of "sample_service 0" "0x9001000" 2 "0x1000" "0x2000", unfolded sample_service_facts sample_regular(3),
        OF sample_spaces_ok v sample_user_page(2) sample_needed sample_regular(1,2)] by auto
  have "frame_number (sample_frames 0) (t_startAddress (sample_frames 0)) = 0"
    "frame_number (sample_frames 0) (t_endAddress (sample_frames 0)) = 7" "unat (t_blockSize (sample_frames 0)) = 4096"
    by (simp_all add: frame_number_def sample_frames_def)
  then obtain n where "n \<le> 7" "entry (pg_source (ms_paging ms')) = (entry (sample_frames 0))(frame_at (sample_frames 0) n := 2)"
      "unat frame = n * 4096"
    using r(2) sample_free unfolding frame_taken_def by fastforce
  then show ?thesis
    using r(1,3) sample_members(1) by (intro exI [of _ frame] exI [of _ ms'] exI [of _ n]) (auto simp: PAGESIZE_def)
qed

theorem page_fault_without_memory_witness:
  "\<exists>ms'. ms_handlePageFault 0x1000 0x2000 (sample_service 2) 0x9001000 2 = Inr ms' \<and>
    vas_getPhysicalAddress (ms_paging ms') sample_user 0x9001000 = 0"
proof -
  have "entry (sample_frames 2) f \<noteq> 0" if "f \<in> scanned (sample_frames 2) 0x1000 \<union> scanned (sample_frames 2) 0x2000 \<union>
      scanned (sample_frames 2) (t_startAddress (sample_frames 2))" for f
  proof -
    have "t_startAddress (sample_frames 2) = 0"
      by (simp add: sample_frames_def)
    then have "entry (sample_frames 2) f = 2"
      using that sample_scanned [of _ _ _ 2] by (cases f) auto
    then show ?thesis
      by simp
  qed
  then show ?thesis
    using page_fault_without_memory [of "sample_service 2" "0x9001000" 2 "0x1000" "0x2000", unfolded sample_service_facts,
        OF sample_spaces_ok _ _ _ sample_user_page(2) sample_needed] by (auto simp: KERNEL_END_def)
qed

end
