(* ===== verification/Array_Lists.thy ===== *)
theory Array_Lists
  imports Arrays
begin

text \<open>
  \<^verbatim>\<open>Util::ArrayList<T>\<close> (collection/ArrayList.h), a growing array, refined to lists. The raw storage
  is the list of its cells; \<open>d\<close> is what a cell of freshly allocated storage happens to hold.
  The \<^verbatim>\<open>List\<close> interface is the locale \<open>list_interface\<close>, interpreted on \<open>ArrayList\<close>.
\<close>

section \<open>Operations\<close>

record 'a ArrayList =
  elements :: "'a list"
  capacity :: u32
  al_length :: u32

abbreviation AL_DEFAULT_CAPACITY :: u32 where "AL_DEFAULT_CAPACITY \<equiv> 8"

definition ArrayList_new :: "'a ArrayList" where
  "ArrayList_new = \<lparr>elements = [], capacity = 0, al_length = 0\<rparr>"

definition ArrayList_withCapacity :: "'a \<Rightarrow> u32 \<Rightarrow> 'a ArrayList" where
  "ArrayList_withCapacity d c = \<lparr>elements = replicate (unat c) d, capacity = c, al_length = 0\<rparr>"

text \<open>The doubling loop; it does not end when the capacity wraps to zero.\<close>

partial_function (option) grow :: "u32 \<Rightarrow> u32 \<Rightarrow> u32 option" where
  [code]: "grow c newCapacity = (if c < newCapacity then grow (c * 2) newCapacity else Some c)"

fun copy_cells :: "'a list \<Rightarrow> 'a list \<Rightarrow> nat \<Rightarrow> nat \<Rightarrow> 'a list" where
  "copy_cells dst src i 0 = dst"
| "copy_cells dst src i (Suc n) = copy_cells (dst[i := src ! i]) src (Suc i) n"

definition ensureCapacity :: "'a \<Rightarrow> 'a ArrayList \<Rightarrow> u32 \<Rightarrow> 'a ArrayList option" where
  "ensureCapacity d l newCapacity =
     (let l = (if capacity l = 0
               then l\<lparr>capacity := AL_DEFAULT_CAPACITY, elements := replicate (unat AL_DEFAULT_CAPACITY) d\<rparr>
               else l)
      in if newCapacity \<le> capacity l then Some l
         else case grow (capacity l) newCapacity of
                None \<Rightarrow> None
              | Some c \<Rightarrow> Some (l\<lparr>capacity := c,
                  elements := copy_cells (replicate (unat c) d) (elements l) 0 (unat (capacity l))\<rparr>))"

definition al_add :: "'a \<Rightarrow> 'a ArrayList \<Rightarrow> 'a \<Rightarrow> 'a ArrayList option" where
  "al_add d l element =
     (case ensureCapacity d l (al_length l + 1) of
        None \<Rightarrow> None
      | Some l \<Rightarrow> Some (l\<lparr>elements := (elements l)[unat (al_length l) := element],
                          al_length := al_length l + 1\<rparr>))"

fun al_addAll :: "'a \<Rightarrow> 'a ArrayList \<Rightarrow> 'a list \<Rightarrow> 'a ArrayList option" where
  "al_addAll d l [] = Some l"
| "al_addAll d l (x # xs) = (case al_add d l x of None \<Rightarrow> None | Some l \<Rightarrow> al_addAll d l xs)"

definition ArrayList_fromArray :: "'a \<Rightarrow> 'a list \<Rightarrow> 'a ArrayList option" where
  "ArrayList_fromArray d es = al_addAll d (ArrayList_withCapacity d (of_nat (length es))) es"

definition al_size :: "'a ArrayList \<Rightarrow> u32" where
  "al_size l = al_length l"

definition al_isEmpty :: "'a ArrayList \<Rightarrow> bool" where
  "al_isEmpty l = (al_length l = 0)"

definition al_get :: "'a ArrayList \<Rightarrow> u32 \<Rightarrow> 'a result" where
  "al_get l index = (if al_length l \<le> index then Inl OUT_OF_BOUNDS else Inr (elements l ! unat index))"

function shift_up :: "'a list \<Rightarrow> u32 \<Rightarrow> u32 \<Rightarrow> 'a list" where
  "shift_up es i index =
     (if index < i then shift_up (es[unat i := es ! unat (i - 1)]) (i - 1) index else es)"
  by pat_completeness auto
termination
proof (relation "measure (\<lambda>(es, i, index). unat i)", goal_cases)
  case (2 es i index)
  then have "i \<noteq> 0"
    by auto
  then show ?case
    by (simp add: unat_minus_one unat_gt_0)
qed simp

declare shift_up.simps [simp del]

definition al_insert :: "'a \<Rightarrow> 'a ArrayList \<Rightarrow> u32 \<Rightarrow> 'a \<Rightarrow> 'a ArrayList option" where
  "al_insert d l index element =
     (if al_length l < index then Some l
      else case ensureCapacity d l (al_length l + 1) of
             None \<Rightarrow> None
           | Some l \<Rightarrow> let es = shift_up (elements l) (al_length l) index
                       in Some (l\<lparr>elements := es[unat index := element], al_length := al_length l + 1\<rparr>))"

function shift_down :: "'a list \<Rightarrow> u32 \<Rightarrow> u32 \<Rightarrow> u32 \<Rightarrow> 'a list" where
  "shift_down es index i numMoved =
     (if i < numMoved
      then shift_down (es[unat (index + i) := es ! unat (index + i + 1)]) index (i + 1) numMoved
      else es)"
  by pat_completeness auto
termination
  by (relation "measure (\<lambda>(es, index, i, n). unat n - unat i)") (auto simp: word_nat word_less_nat_alt)

declare shift_down.simps [simp del]

definition al_removeIndex :: "'a ArrayList \<Rightarrow> u32 \<Rightarrow> ('a \<times> 'a ArrayList) result" where
  "al_removeIndex l index =
     (if al_length l \<le> index then Inl OUT_OF_BOUNDS
      else let tmp = elements l ! unat index;
               numMoved = al_length l - index - 1;
               es = (if numMoved \<noteq> 0 then shift_down (elements l) index 0 numMoved else elements l)
           in Inr (tmp, l\<lparr>elements := es, al_length := al_length l - 1\<rparr>))"

definition al_pop :: "'a ArrayList \<Rightarrow> ('a \<times> 'a ArrayList) result" where
  "al_pop l = al_removeIndex l (al_length l - 1)"

function indexOf_from :: "'a list \<Rightarrow> u32 \<Rightarrow> 'a \<Rightarrow> u32 \<Rightarrow> u32" where
  "indexOf_from es n element index =
     (if index < n \<and> es ! unat index \<noteq> element then indexOf_from es n element (index + 1) else index)"
  by pat_completeness auto
termination
  by (relation "measure (\<lambda>(es, n, e, i). unat n - unat i)") (auto simp: word_nat word_less_nat_alt)

declare indexOf_from.simps [simp del]

definition al_indexOf :: "'a ArrayList \<Rightarrow> 'a \<Rightarrow> u32" where
  "al_indexOf l element =
     (let index = indexOf_from (elements l) (al_length l) element 0
      in if index = al_length l then UINT32_MAX else index)"

definition al_contains :: "'a ArrayList \<Rightarrow> 'a \<Rightarrow> bool" where
  "al_contains l element \<longleftrightarrow> al_indexOf l element < al_length l"

fun al_containsAll :: "'a ArrayList \<Rightarrow> 'a list \<Rightarrow> bool" where
  "al_containsAll l [] = True"
| "al_containsAll l (x # xs) = (if \<not> al_contains l x then False else al_containsAll l xs)"

definition al_remove :: "'a ArrayList \<Rightarrow> 'a \<Rightarrow> (bool \<times> 'a ArrayList) result" where
  "al_remove l element =
     (let index = al_indexOf l element
      in if al_length l \<le> index then Inr (False, l)
         else res_bind (al_removeIndex l index) (\<lambda>(_, l). Inr (True, l)))"

fun al_removeAll :: "'a ArrayList \<Rightarrow> 'a list \<Rightarrow> bool \<Rightarrow> (bool \<times> 'a ArrayList) result" where
  "al_removeAll l [] changed = Inr (changed, l)"
| "al_removeAll l (x # xs) changed =
     res_bind (al_remove l x) (\<lambda>(r, l). al_removeAll l xs (if r then True else changed))"

definition al_clear :: "'a ArrayList \<Rightarrow> 'a ArrayList" where
  "al_clear l = l\<lparr>al_length := 0\<rparr>"

definition al_set :: "'a ArrayList \<Rightarrow> u32 \<Rightarrow> 'a \<Rightarrow> 'a ArrayList" where
  "al_set l index element =
     (if al_length l \<le> index then l else l\<lparr>elements := (elements l)[unat index := element]\<rparr>)"

definition al_toArray :: "'a \<Rightarrow> 'a ArrayList \<Rightarrow> 'a list" where
  "al_toArray d l = copy_cells (replicate (unat (al_length l)) d) (elements l) 0 (unat (al_length l))"

section \<open>Abstraction\<close>

definition al_ok :: "'a ArrayList \<Rightarrow> bool" where
  "al_ok l \<longleftrightarrow> length (elements l) = unat (capacity l) \<and> al_length l \<le> capacity l"

definition al_list :: "'a ArrayList \<Rightarrow> 'a list" where
  "al_list l = take (unat (al_length l)) (elements l)"

lemma length_al_list [simp]: "al_ok l \<Longrightarrow> length (al_list l) = unat (al_length l)"
  by (simp add: al_ok_def al_list_def word_le_nat_alt)

lemma al_list_nth: "al_ok l \<Longrightarrow> i < unat (al_length l) \<Longrightarrow> al_list l ! i = elements l ! i"
  by (simp add: al_list_def)

lemma copy_cells_eq:
  "i + n \<le> length dst \<Longrightarrow> i + n \<le> length src \<Longrightarrow>
     copy_cells dst src i n = take i dst @ take n (drop i src) @ drop (i + n) dst"
proof (induction n arbitrary: dst i)
  case (Suc n)
  have "take n (drop (Suc i) src) = tl (take (Suc n) (drop i src))"
    by (simp add: tl_take drop_Suc tl_drop)
  moreover have "take (Suc n) (drop i src) = src ! i # take n (drop (Suc i) src)"
    using Suc.prems by (simp add: Cons_nth_drop_Suc [symmetric])
  ultimately show ?case
    using Suc.IH [of "Suc i" "dst[i := src ! i]"] Suc.prems
    by (simp add: take_Suc_conv_app_nth take_update_cancel)
qed simp

lemma grow_terminates:
  assumes "0 < c" and "unat newCapacity \<le> 2 ^ 31"
  shows "\<exists>r. grow c newCapacity = Some r \<and> newCapacity \<le> r \<and> c \<le> r"
  using assms
proof (induction "2 ^ 31 - unat c" arbitrary: c rule: less_induct)
  case less
  show ?case
  proof (cases "c < newCapacity")
    case True
    then have lt: "unat c < 2 ^ 31"
      using less.prems(2) by (simp add: word_less_nat_alt)
    then have c2: "unat (c * 2) = 2 * unat c"
      by (simp add: unat_word_ariths(2))
    moreover have "0 < unat c"
      using less.prems(1) by (simp add: word_less_nat_alt)
    ultimately have "\<exists>r. grow (c * 2) newCapacity = Some r \<and> newCapacity \<le> r \<and> c * 2 \<le> r"
      using less.hyps [of "c * 2"] less.prems lt by (simp add: word_less_nat_alt)
    then show ?thesis
      using True c2 by (auto simp: grow.simps [of c] word_le_nat_alt)
  qed (auto simp: grow.simps [of c] not_less)
qed

lemma ensureCapacity_spec:
  assumes "al_ok l" and "unat n \<le> 2 ^ 31"
  shows "\<exists>l'. ensureCapacity d l n = Some l' \<and> al_ok l' \<and> al_list l' = al_list l
    \<and> al_length l' = al_length l \<and> n \<le> capacity l' \<and> 0 < capacity l'"
proof -
  define k where "k = (if capacity l = 0
    then l\<lparr>capacity := AL_DEFAULT_CAPACITY, elements := replicate (unat AL_DEFAULT_CAPACITY) d\<rparr> else l)"
  have k: "al_ok k" "al_list k = al_list l" "al_length k = al_length l" "0 < capacity k"
    using assms(1) by (auto simp: k_def al_ok_def al_list_def word_gt_0 word_le_0_iff)
  show ?thesis
  proof (cases "n \<le> capacity k")
    case True
    then show ?thesis
      using k by (simp add: ensureCapacity_def k_def [symmetric])
  next
    case False
    obtain c where c: "grow (capacity k) n = Some c" "n \<le> c" "capacity k \<le> c"
      using grow_terminates [OF k(4) assms(2)] by blast
    let ?es = "copy_cells (replicate (unat c) d) (elements k) 0 (unat (capacity k))"
    have "?es = elements k @ replicate (unat c - unat (capacity k)) d"
      using k(1) c(3) by (simp add: copy_cells_eq al_ok_def word_le_nat_alt)
    then show ?thesis
      using False k c by (auto simp: ensureCapacity_def k_def [symmetric] al_ok_def al_list_def word_le_nat_alt
          word_gt_0)
  qed
qed

section \<open>Each operation on the abstraction\<close>

lemma al_add_spec:
  assumes "al_ok l" and "unat (al_length l) < 2 ^ 31"
  shows "\<exists>l'. al_add d l x = Some l' \<and> al_ok l' \<and> al_list l' = al_list l @ [x]"
proof -
  have n1: "unat (al_length l + 1) = Suc (unat (al_length l))"
    using assms(2) by (intro unat_inc) simp
  obtain k where k: "ensureCapacity d l (al_length l + 1) = Some k" "al_ok k" "al_list k = al_list l"
      "al_length k = al_length l" "al_length l + 1 \<le> capacity k"
    using ensureCapacity_spec [OF assms(1), of "al_length l + 1" d] n1 assms(2) by auto
  have "unat (al_length l) < length (elements k)"
    using k(2,5) n1 by (simp add: al_ok_def word_le_nat_alt)
  then show ?thesis
    using k n1 by (auto simp: al_add_def al_ok_def al_list_def take_Suc_conv_app_nth)
qed

lemma al_addAll_spec:
  assumes "al_ok l" and "unat (al_length l) + length xs \<le> 2 ^ 31"
  shows "\<exists>l'. al_addAll d l xs = Some l' \<and> al_ok l' \<and> al_list l' = al_list l @ xs"
  using assms
proof (induction xs arbitrary: l)
  case (Cons x xs)
  obtain k where k: "al_add d l x = Some k" "al_ok k" "al_list k = al_list l @ [x]"
    using al_add_spec [OF Cons.prems(1), of d x] Cons.prems(2) by auto
  then have "unat (al_length k) = Suc (unat (al_length l))"
    using length_al_list [OF k(2)] length_al_list [OF Cons.prems(1)] by simp
  then show ?case
    using Cons.IH [OF k(2)] Cons.prems(2) k by auto
qed simp

lemma al_get_spec:
  assumes "al_ok l"
  shows "al_get l i = (if unat i < length (al_list l) then Inr (al_list l ! unat i) else Inl OUT_OF_BOUNDS)"
  using assms by (simp add: al_get_def word_le_nat_alt al_list_nth)

lemma shift_up_nth:
  assumes "index \<le> i" and "unat i < length es"
  shows "length (shift_up es i index) = length es \<and>
    (\<forall>j < length es. shift_up es i index ! j =
       (if unat index < j \<and> j \<le> unat i then es ! (j - 1) else es ! j))"
  using assms
proof (induction es i index rule: shift_up.induct)
  case (1 es i index)
  show ?case
  proof (cases "index < i")
    case True
    then have "i \<noteq> 0"
      by auto
    then have "unat (i - 1) = unat i - 1"
      by (rule unat_minus_one)
    with True have i: "unat (i - 1) = unat i - 1" "0 < unat i" "index \<le> i - 1"
      by (simp_all add: word_le_nat_alt word_less_nat_alt)
    let ?es = "es[unat i := es ! unat (i - 1)]"
    have eq: "shift_up es i index = shift_up ?es (i - 1) index"
      using True by (simp add: shift_up.simps [of es i index])
    have ih: "length (shift_up ?es (i - 1) index) = length ?es \<and>
        (\<forall>j < length ?es. shift_up ?es (i - 1) index ! j =
          (if unat index < j \<and> j \<le> unat (i - 1) then ?es ! (j - 1) else ?es ! j))"
      using 1(1) [OF True] i "1.prems" by simp
    then show ?thesis
      using i True by (auto simp: eq nth_list_update word_less_nat_alt)
  next
    case False
    then have "i = index"
      using "1.prems"(1) by simp
    then show ?thesis
      by (auto simp: shift_up.simps [of es index index])
  qed
qed

lemma al_insert_spec:
  assumes "al_ok l" and "unat (al_length l) < 2 ^ 31"
  shows "\<exists>l'. al_insert d l index x = Some l' \<and> al_ok l' \<and>
    al_list l' = (if unat index \<le> length (al_list l)
      then take (unat index) (al_list l) @ x # drop (unat index) (al_list l) else al_list l)"
proof (cases "al_length l < index")
  case True
  then show ?thesis
    using assms(1) by (simp add: al_insert_def word_less_nat_alt)
next
  case False
  have n1: "unat (al_length l + 1) = Suc (unat (al_length l))"
    using assms(2) by (intro unat_inc) simp
  obtain k where k: "ensureCapacity d l (al_length l + 1) = Some k" "al_ok k" "al_list k = al_list l"
      "al_length k = al_length l" "al_length l + 1 \<le> capacity k"
    using ensureCapacity_spec [OF assms(1), of "al_length l + 1" d] n1 assms(2) by auto
  have lt: "unat (al_length l) < length (elements k)"
    using k(2,5) n1 by (simp add: al_ok_def word_le_nat_alt)
  have le: "unat index \<le> unat (al_length l)" "index \<le> al_length l"
    using False by (simp_all add: word_less_nat_alt word_le_nat_alt)
  define es where "es = shift_up (elements k) (al_length l) index"
  note sh = shift_up_nth [OF le(2) lt, folded es_def]
  have el: "al_list l ! j = elements k ! j" if "j < unat (al_length l)" for j
    using k(3) that al_list_nth [OF k(2)] k(4) by metis
  define l' where "l' = k\<lparr>elements := es[unat index := x], al_length := al_length l + 1\<rparr>"
  have "al_list l' = take (unat index) (al_list l) @ x # drop (unat index) (al_list l)"
  proof (rule nth_equalityI)
    show "length (al_list l') = length (take (unat index) (al_list l) @ x # drop (unat index) (al_list l))"
      using sh lt n1 le length_al_list [OF assms(1)] by (simp add: al_list_def l'_def)
    fix j
    assume "j < length (al_list l')"
    then have j: "j < Suc (unat (al_length l))"
      using n1 by (simp add: al_list_def l'_def)
    then have "al_list l' ! j = es[unat index := x] ! j"
      using n1 by (simp add: al_list_def l'_def)
    with j show "al_list l' ! j = (take (unat index) (al_list l) @ x # drop (unat index) (al_list l)) ! j"
      using sh lt n1 le length_al_list [OF assms(1)]
      by (auto simp: nth_append nth_list_update el nth_Cons' min_def)
  qed
  moreover have "al_ok l'"
    using k(2,5) sh by (simp add: al_ok_def l'_def)
  moreover have "al_insert d l index x = Some l'"
    using False k(1,4) by (simp add: al_insert_def l'_def es_def)
  ultimately show ?thesis
    using le length_al_list [OF assms(1)] by simp
qed

lemma shift_down_nth:
  assumes "i \<le> n" and "unat index + unat n < length es" and "length es < 2 ^ 32"
  shows "length (shift_down es index i n) = length es \<and>
    (\<forall>j < length es. shift_down es index i n ! j =
       (if unat index + unat i \<le> j \<and> j < unat index + unat n then es ! Suc j else es ! j))"
  using assms
proof (induction es index i n rule: shift_down.induct)
  case (1 es index i n)
  show ?case
  proof (cases "i < n")
    case True
    have i1: "unat (i + 1) = Suc (unat i)" "i + 1 \<le> n"
      using True by (auto intro: unat_less_suc) (simp add: inc_le)
    have lt: "unat i < unat n"
      using True by (simp add: word_less_nat_alt)
    have a: "unat (index + i) = unat index + unat i"
      using lt "1.prems"(2,3) by (simp add: unat_word_ariths(1))
    then have b: "unat (index + i + 1) = Suc (unat index + unat i)"
      using lt "1.prems"(2,3) unat_inc [of "index + i"] by simp
    let ?es = "es[unat (index + i) := es ! unat (index + i + 1)]"
    have eq: "shift_down es index i n = shift_down ?es index (i + 1) n"
      using True by (simp add: shift_down.simps [of es index i n])
    have ih: "length (shift_down ?es index (i + 1) n) = length ?es \<and>
        (\<forall>j < length ?es. shift_down ?es index (i + 1) n ! j =
          (if unat index + unat (i + 1) \<le> j \<and> j < unat index + unat n then ?es ! Suc j else ?es ! j))"
      using 1(1) [OF True i1(2)] "1.prems" by simp
    have "shift_down es index i n ! j =
        (if unat index + unat i \<le> j \<and> j < unat index + unat n then es ! Suc j else es ! j)"
      if "j < length es" for j
      using ih that i1 lt "1.prems"(2)
      by (cases "j = unat index + unat i") (auto simp: eq a b)
    then show ?thesis
      using ih by (simp add: eq)
  next
    case False
    then have "i = n"
      using "1.prems"(1) by simp
    then show ?thesis
      by (auto simp: shift_down.simps [of es index n n])
  qed
qed

lemma al_removeIndex_spec:
  assumes "al_ok l"
  shows "if unat index < length (al_list l)
    then \<exists>l'. al_removeIndex l index = Inr (al_list l ! unat index, l') \<and> al_ok l'
      \<and> al_list l' = take (unat index) (al_list l) @ drop (Suc (unat index)) (al_list l)
    else al_removeIndex l index = Inl OUT_OF_BOUNDS"
proof (cases "unat index < length (al_list l)")
  case False
  then show ?thesis
    using assms by (simp add: al_removeIndex_def word_le_nat_alt)
next
  case True
  let ?n = "unat (al_length l)" and ?i = "unat index"
  define m where "m = al_length l - index - 1"
  have lt: "?i < ?n" and le: "?n \<le> length (elements l)" and big: "length (elements l) < 2 ^ 32"
    using True assms by (simp_all add: al_ok_def word_le_nat_alt)
  have m: "unat m = ?n - ?i - 1"
    using lt by (simp add: m_def unat_minus_one unat_sub word_le_nat_alt unat_gt_0 [symmetric])
  define es where "es = (if m \<noteq> 0 then shift_down (elements l) index 0 m else elements l)"
  have len: "length es = length (elements l)"
    and nth: "\<And>j. j < length es \<Longrightarrow> es ! j = (if ?i \<le> j \<and> j < ?i + unat m then elements l ! Suc j else elements l ! j)"
    using shift_down_nth [of 0 m index "elements l"] m lt le big by (auto simp: es_def)
  define l' where "l' = l\<lparr>elements := es, al_length := al_length l - 1\<rparr>"
  have n': "unat (al_length l - 1) = ?n - 1"
    using lt by (simp add: unat_minus_one unat_gt_0 [symmetric])
  have "al_list l' = take ?i (al_list l) @ drop (Suc ?i) (al_list l)"
  proof (rule nth_equalityI)
    show "length (al_list l') = length (take ?i (al_list l) @ drop (Suc ?i) (al_list l))"
      using lt le len n' by (simp add: al_list_def l'_def)
    fix j
    assume "j < length (al_list l')"
    then have j: "j < ?n - 1"
      using le len n' by (simp add: al_list_def l'_def)
    then have "al_list l' ! j = es ! j"
      using n' by (simp add: al_list_def l'_def)
    then show "al_list l' ! j = (take ?i (al_list l) @ drop (Suc ?i) (al_list l)) ! j"
      using j lt le len nth [of j] m by (auto simp: al_list_def nth_append)
  qed
  moreover have "al_ok l'"
    using assms len n' le_trans [OF diff_le_self] by (auto simp: al_ok_def l'_def word_le_nat_alt)
  moreover have "al_removeIndex l index = Inr (al_list l ! ?i, l')"
    using lt by (simp add: al_removeIndex_def word_le_nat_alt l'_def es_def m_def al_list_def)
  ultimately show ?thesis
    using True by simp
qed

lemma indexOf_from_spec:
  assumes "index \<le> n" and "\<forall>j < unat index. es ! j \<noteq> x"
  shows "indexOf_from es n x index \<le> n \<and> (\<forall>j < unat (indexOf_from es n x index). es ! j \<noteq> x) \<and>
    (indexOf_from es n x index < n \<longrightarrow> es ! unat (indexOf_from es n x index) = x)"
  using assms
proof (induction es n x index rule: indexOf_from.induct)
  case (1 es n x index)
  show ?case
  proof (cases "index < n \<and> es ! unat index \<noteq> x")
    case True
    then have i1: "unat (index + 1) = Suc (unat index)" "index + 1 \<le> n"
      by (auto intro: unat_less_suc) (simp add: inc_le)
    have "\<forall>j < unat (index + 1). es ! j \<noteq> x"
      using i1 True "1.prems"(2) by (auto simp: less_Suc_eq)
    then show ?thesis
      using 1(1) [OF True i1(2)] True by (simp add: indexOf_from.simps [of es n x index])
  next
    case False
    then have "indexOf_from es n x index = index"
      by (subst indexOf_from.simps) auto
    then show ?thesis
      using False "1.prems" by auto
  qed
qed

lemma al_indexOf_spec:
  assumes "al_ok l"
  shows "if x \<in> set (al_list l)
    then unat (al_indexOf l x) < length (al_list l) \<and> al_list l ! unat (al_indexOf l x) = x
      \<and> (\<forall>j < unat (al_indexOf l x). al_list l ! j \<noteq> x)
    else al_indexOf l x = UINT32_MAX"
proof -
  define r where "r = indexOf_from (elements l) (al_length l) x 0"
  note sp = indexOf_from_spec [of 0 "al_length l" "elements l" x, folded r_def, simplified]
  have idx: "al_indexOf l x = (if r = al_length l then UINT32_MAX else r)"
    by (simp add: al_indexOf_def r_def)
  show ?thesis
  proof (cases "r = al_length l")
    case True
    then have "x \<notin> set (al_list l)"
      using sp assms by (auto simp: in_set_conv_nth al_list_nth)
    then show ?thesis
      using True idx by simp
  next
    case False
    then have lt: "r < al_length l"
      using sp by (simp add: order.order_iff_strict)
    then have "al_list l ! unat r = x" "unat r < length (al_list l)"
      using sp assms by (simp_all add: al_list_nth word_less_nat_alt)
    moreover from this have "x \<in> set (al_list l)"
      using nth_mem by blast
    ultimately show ?thesis
      using False idx sp lt assms by (auto simp: al_list_nth word_less_nat_alt)
  qed
qed

lemma al_contains_spec:
  assumes "al_ok l"
  shows "al_contains l x \<longleftrightarrow> x \<in> set (al_list l)"
proof (cases "x \<in> set (al_list l)")
  case True
  then show ?thesis
    using al_indexOf_spec [OF assms, of x] assms by (simp add: al_contains_def word_less_nat_alt)
next
  case False
  then show ?thesis
    using al_indexOf_spec [OF assms, of x] by (simp add: al_contains_def)
qed

lemma al_containsAll_spec: "al_ok l \<Longrightarrow> al_containsAll l xs \<longleftrightarrow> set xs \<subseteq> set (al_list l)"
  by (induction xs) (auto simp: al_contains_spec)

lemma remove1_at:
  "i < length xs \<Longrightarrow> xs ! i = x \<Longrightarrow> \<forall>j < i. xs ! j \<noteq> x \<Longrightarrow> remove1 x xs = take i xs @ drop (Suc i) xs"
proof (induction xs arbitrary: i)
  case (Cons y ys)
  show ?case
  proof (cases i)
    case (Suc k)
    have "y \<noteq> x"
      using Cons.prems(3) Suc by auto
    moreover have "\<forall>j < k. ys ! j \<noteq> x"
      using Cons.prems(3) Suc by auto
    ultimately show ?thesis
      using Cons.IH [of k] Cons.prems(1,2) Suc by simp
  qed (use Cons.prems in simp)
qed simp

lemma al_remove_spec:
  assumes "al_ok l"
  shows "\<exists>l'. al_remove l x = Inr (x \<in> set (al_list l), l') \<and> al_ok l' \<and> al_list l' = remove1 x (al_list l)"
proof (cases "x \<in> set (al_list l)")
  case True
  let ?i = "al_indexOf l x"
  have i: "unat ?i < length (al_list l)" "al_list l ! unat ?i = x" "\<forall>j < unat ?i. al_list l ! j \<noteq> x"
    using al_indexOf_spec [OF assms, of x] True by auto
  obtain l' where "al_removeIndex l ?i = Inr (x, l')" "al_ok l'"
      "al_list l' = take (unat ?i) (al_list l) @ drop (Suc (unat ?i)) (al_list l)"
    using al_removeIndex_spec [OF assms, of ?i] i by auto
  then show ?thesis
    using True i assms remove1_at [OF i] by (simp add: al_remove_def word_le_nat_alt not_less)
next
  case False
  then have "al_indexOf l x = UINT32_MAX"
    using al_indexOf_spec [OF assms, of x] by simp
  then show ?thesis
    using False assms by (simp add: al_remove_def remove1_idem)
qed

lemma al_removeAll_spec:
  assumes "al_ok l"
  shows "\<exists>c' l'. al_removeAll l xs c = Inr (c', l') \<and> al_ok l' \<and> al_list l' = fold remove1 xs (al_list l)"
  using assms
proof (induction xs arbitrary: l c)
  case (Cons x xs)
  obtain k where "al_remove l x = Inr (x \<in> set (al_list l), k)" "al_ok k" "al_list k = remove1 x (al_list l)"
    using al_remove_spec [OF Cons.prems] by blast
  then show ?case
    using Cons.IH [of k] by simp
qed simp

lemma al_set_spec:
  "al_ok l \<Longrightarrow> al_ok (al_set l i x) \<and> al_list (al_set l i x) = (al_list l)[unat i := x]"
  by (auto simp: al_set_def al_ok_def al_list_def word_le_nat_alt take_update_swap not_le list_update_beyond)

lemma al_clear_spec: "al_ok l \<Longrightarrow> al_ok (al_clear l) \<and> al_list (al_clear l) = []"
  by (simp add: al_clear_def al_ok_def al_list_def)

lemma al_toArray_spec: "al_ok l \<Longrightarrow> al_toArray d l = al_list l"
  by (simp add: al_toArray_def al_list_def copy_cells_eq al_ok_def word_le_nat_alt)

lemma al_new_spec [simp]: "al_ok ArrayList_new" "al_list ArrayList_new = []"
  "al_ok (ArrayList_withCapacity d c)" "al_list (ArrayList_withCapacity d c) = []"
  by (simp_all add: ArrayList_new_def ArrayList_withCapacity_def al_ok_def al_list_def)

section \<open>The list interface\<close>

text \<open>
  What clients rely on: every operation acts on the abstraction as the operation of that name on
  lists, as long as fewer than \<open>bound\<close> elements are stored.
\<close>

locale list_interface =
  fixes add :: "'l \<Rightarrow> 'a \<Rightarrow> 'l option"
    and insert :: "'l \<Rightarrow> u32 \<Rightarrow> 'a \<Rightarrow> 'l option"
    and removeIndex :: "'l \<Rightarrow> u32 \<Rightarrow> ('a \<times> 'l) result"
    and get :: "'l \<Rightarrow> u32 \<Rightarrow> 'a result"
    and lst :: "'l \<Rightarrow> 'a list"
    and ok :: "'l \<Rightarrow> bool"
    and bound :: nat
  assumes add_law: "ok l \<Longrightarrow> length (lst l) < bound \<Longrightarrow> \<exists>l'. add l x = Some l' \<and> ok l' \<and> lst l' = lst l @ [x]"
    and insert_law: "ok l \<Longrightarrow> length (lst l) < bound \<Longrightarrow> unat i \<le> length (lst l) \<Longrightarrow>
      \<exists>l'. insert l i x = Some l' \<and> ok l' \<and> lst l' = take (unat i) (lst l) @ x # drop (unat i) (lst l)"
    and removeIndex_law: "ok l \<Longrightarrow> unat i < length (lst l) \<Longrightarrow>
      \<exists>l'. removeIndex l i = Inr (lst l ! unat i, l') \<and> ok l' \<and> lst l' = take (unat i) (lst l) @ drop (Suc (unat i)) (lst l)"
    and get_law: "ok l \<Longrightarrow> unat i < length (lst l) \<Longrightarrow> get l i = Inr (lst l ! unat i)"
begin

lemma insert_then_get:
  assumes "ok l" and "length (lst l) < bound" and "unat i \<le> length (lst l)"
  shows "\<exists>l'. insert l i x = Some l' \<and> get l' i = Inr x"
  using insert_law [OF assms, of x] get_law assms(3) by (fastforce simp: nth_append)

lemma insert_then_remove:
  assumes "ok l" and "length (lst l) < bound" and "unat i \<le> length (lst l)"
  shows "\<exists>l' l''. insert l i x = Some l' \<and> removeIndex l' i = Inr (x, l'') \<and> lst l'' = lst l"
proof -
  obtain l' where l': "insert l i x = Some l'" "ok l'" "lst l' = take (unat i) (lst l) @ x # drop (unat i) (lst l)"
    using insert_law [OF assms] by blast
  then show ?thesis
    using removeIndex_law [of l' i] assms(3) by (auto simp: nth_append)
qed

lemma add_then_pop:
  assumes "ok l" and "length (lst l) < bound" and "unat i = length (lst l)"
  shows "\<exists>l' l''. add l x = Some l' \<and> removeIndex l' i = Inr (x, l'') \<and> lst l'' = lst l"
proof -
  obtain l' where l': "add l x = Some l'" "ok l'" "lst l' = lst l @ [x]"
    using add_law [OF assms(1,2)] by blast
  then show ?thesis
    using removeIndex_law [of l' i] assms(3) by auto
qed

end

interpretation al: list_interface "al_add d" "al_insert d" al_removeIndex al_get al_list al_ok "2 ^ 31" for d
proof
  fix l :: "'a ArrayList" and x :: 'a and i :: u32
  assume ok: "al_ok l"
  show "\<exists>l'. al_add d l x = Some l' \<and> al_ok l' \<and> al_list l' = al_list l @ [x]" if "length (al_list l) < 2 ^ 31"
    using al_add_spec [OF ok] that ok by simp
  show "\<exists>l'. al_insert d l i x = Some l' \<and> al_ok l' \<and>
      al_list l' = take (unat i) (al_list l) @ x # drop (unat i) (al_list l)"
    if "length (al_list l) < 2 ^ 31" and "unat i \<le> length (al_list l)"
    using al_insert_spec [OF ok, of d i x] that ok by simp
  show "\<exists>l'. al_removeIndex l i = Inr (al_list l ! unat i, l') \<and> al_ok l' \<and>
      al_list l' = take (unat i) (al_list l) @ drop (Suc (unat i)) (al_list l)"
    if "unat i < length (al_list l)"
    using al_removeIndex_spec [OF ok, of i] that by simp
  show "al_get l i = Inr (al_list l ! unat i)" if "unat i < length (al_list l)"
    using al_get_spec [OF ok, of i] that by simp
qed

text \<open>
  C13. \<open>ArrayList\<close> refines lists: with fewer than \<open>2\<^sup>31\<close> elements, inserting at any valid index returns
  (its capacity loop ends), shifts the later elements up by one, and removing at that index gives
  the element back and restores the list.
\<close>

theorem arraylist_insert_remove:
  assumes "al_ok l" and "length (al_list l) < 2 ^ 31" and "unat index \<le> length (al_list l)"
  shows "\<exists>l' l''. al_insert d l index x = Some l' \<and> al_ok l'
    \<and> al_list l' = take (unat index) (al_list l) @ x # drop (unat index) (al_list l)
    \<and> al_removeIndex l' index = Inr (x, l'') \<and> al_list l'' = al_list l"
proof -
  obtain l' l'' where r: "al_insert d l index x = Some l'" "al_removeIndex l' index = Inr (x, l'')" "al_list l'' = al_list l"
    using al.insert_then_remove [OF assms, of d x] by blast
  then show ?thesis
    using al.insert_law [OF assms, of d x] by auto
qed

theorem arraylist_insert_remove_witness:
  "\<exists>l' l''. al_insert 0 ArrayList_new 0 (7::u8) = Some l' \<and> al_list l' = [7]
    \<and> al_removeIndex l' 0 = Inr (7, l'') \<and> al_list l'' = []"
  using arraylist_insert_remove [of ArrayList_new 0 0 "7::u8"] by auto

text \<open>
  \<open>remove(element)\<close> of an \<open>ArrayList\<close> removes the first occurrence and only that one, and
  returns whether the element was there; \<open>indexOf\<close> finds that occurrence and yields
  \<open>UINT32_MAX\<close> for an absent element.
\<close>

theorem arraylist_remove_first:
  assumes "al_ok l"
  shows "(\<exists>l'. al_remove l x = Inr (x \<in> set (al_list l), l') \<and> al_ok l' \<and> al_list l' = remove1 x (al_list l))
    \<and> (if x \<in> set (al_list l)
       then al_list l ! unat (al_indexOf l x) = x \<and> (\<forall>j < unat (al_indexOf l x). al_list l ! j \<noteq> x)
       else al_indexOf l x = UINT32_MAX)"
  using al_remove_spec [OF assms, of x] al_indexOf_spec [OF assms, of x] by (auto split: if_splits)

theorem arraylist_remove_first_witness:
  "\<exists>l'. al_remove (\<lparr>elements = [1, 2, 1, 9], capacity = 4, al_length = 3\<rparr> :: u8 ArrayList) 1 = Inr (True, l')
    \<and> al_list l' = [2, 1]"
  using arraylist_remove_first [of "\<lparr>elements = [1, 2, 1, 9], capacity = 4, al_length = 3\<rparr> :: u8 ArrayList" 1]
  by (auto simp: al_ok_def al_list_def)

end
