(* ===== verification/Hash_Maps.thy ===== *)
theory Hash_Maps
  imports Array_Lists
begin

text \<open>
  \<^verbatim>\<open>Util::HashMap<K, V>\<close> (collection/HashMap.h): a table of chains. A chain of \<^verbatim>\<open>HashNode\<close>s is the list
  of its entries in link order. \<open>hash\<close> is the key type's conversion \<^verbatim>\<open>(uint32_t) key\<close>. The
  \<^verbatim>\<open>Map\<close> interface is the locale \<open>map_interface\<close>, interpreted on \<open>HashMap\<close>.
\<close>

section \<open>Operations\<close>

record ('k, 'v) HashMap =
  table :: "('k \<times> 'v) list list"
  isInitialized :: bool
  tableSize :: u32
  hm_count :: u32

definition HashMap_new :: "u32 \<Rightarrow> ('k, 'v) HashMap" where
  "HashMap_new n = \<lparr>table = [], isInitialized = False, tableSize = n, hm_count = 0\<rparr>"

abbreviation DEFAULT_TABLE_SIZE :: u32 where "DEFAULT_TABLE_SIZE \<equiv> 47"

definition hm_initialize :: "('k, 'v) HashMap \<Rightarrow> ('k, 'v) HashMap" where
  "hm_initialize m = m\<lparr>table := replicate (unat (tableSize m)) [], isInitialized := True\<rparr>"

definition hm_ready :: "('k, 'v) HashMap \<Rightarrow> ('k, 'v) HashMap" where
  "hm_ready m = (if \<not> isInitialized m then hm_initialize m else m)"

definition hm_bucket :: "('k \<Rightarrow> u32) \<Rightarrow> ('k, 'v) HashMap \<Rightarrow> 'k \<Rightarrow> nat" where
  "hm_bucket hash m key = unat (hash key mod tableSize m)"

text \<open>Walking a chain: \<open>put\<close> replaces the value or appends a node (\<open>True\<close>: a node was added).\<close>

fun chain_put :: "('k \<times> 'v) list \<Rightarrow> 'k \<Rightarrow> 'v \<Rightarrow> bool \<times> ('k \<times> 'v) list" where
  "chain_put [] key v = (True, [(key, v)])"
| "chain_put ((k, w) # es) key v =
     (if k \<noteq> key then (let (added, es') = chain_put es key v in (added, (k, w) # es'))
      else (False, (k, v) # es))"

fun chain_get :: "('k \<times> 'v) list \<Rightarrow> 'k \<Rightarrow> 'v result" where
  "chain_get [] key = Inl KEY_NOT_FOUND"
| "chain_get ((k, w) # es) key = (if k = key then Inr w else chain_get es key)"

fun chain_remove :: "('k \<times> 'v) list \<Rightarrow> 'k \<Rightarrow> ('v \<times> ('k \<times> 'v) list) result" where
  "chain_remove [] key = Inl KEY_NOT_FOUND"
| "chain_remove ((k, w) # es) key =
     (if k \<noteq> key then res_bind (chain_remove es key) (\<lambda>(v, es'). Inr (v, (k, w) # es'))
      else Inr (w, es))"

fun chain_contains :: "('k \<times> 'v) list \<Rightarrow> 'k \<Rightarrow> bool" where
  "chain_contains [] key = False"
| "chain_contains ((k, w) # es) key = (if k \<noteq> key then chain_contains es key else True)"

definition hm_put :: "('k \<Rightarrow> u32) \<Rightarrow> ('k, 'v) HashMap \<Rightarrow> 'k \<Rightarrow> 'v \<Rightarrow> ('k, 'v) HashMap" where
  "hm_put hash m key v =
     (let m = hm_ready m; i = hm_bucket hash m key; (added, es) = chain_put (table m ! i) key v
      in m\<lparr>table := (table m)[i := es], hm_count := (if added then hm_count m + 1 else hm_count m)\<rparr>)"

definition hm_get :: "('k \<Rightarrow> u32) \<Rightarrow> ('k, 'v) HashMap \<Rightarrow> 'k \<Rightarrow> 'v result" where
  "hm_get hash m key = (let m = hm_ready m in chain_get (table m ! hm_bucket hash m key) key)"

definition hm_remove :: "('k \<Rightarrow> u32) \<Rightarrow> ('k, 'v) HashMap \<Rightarrow> 'k \<Rightarrow> ('v \<times> ('k, 'v) HashMap) result" where
  "hm_remove hash m key =
     (let m = hm_ready m; i = hm_bucket hash m key
      in res_bind (chain_remove (table m ! i) key) (\<lambda>(v, es).
           Inr (v, m\<lparr>table := (table m)[i := es], hm_count := hm_count m - 1\<rparr>)))"

definition hm_containsKey :: "('k \<Rightarrow> u32) \<Rightarrow> ('k, 'v) HashMap \<Rightarrow> 'k \<Rightarrow> bool" where
  "hm_containsKey hash m key =
     (if \<not> isInitialized m then False else chain_contains (table m ! hm_bucket hash m key) key)"

definition hm_clear :: "('k, 'v) HashMap \<Rightarrow> ('k, 'v) HashMap" where
  "hm_clear m = (let m = hm_ready m in m\<lparr>table := map (\<lambda>_. []) (table m), hm_count := 0\<rparr>)"

definition hm_keys :: "'k \<Rightarrow> ('k, 'v) HashMap \<Rightarrow> 'k list option" where
  "hm_keys d m = (let m = hm_ready m in
     case al_addAll d ArrayList_new (map fst (concat (table m))) of None \<Rightarrow> None | Some l \<Rightarrow> Some (al_toArray d l))"

definition hm_values :: "'v \<Rightarrow> ('k, 'v) HashMap \<Rightarrow> 'v list option" where
  "hm_values d m = (let m = hm_ready m in
     case al_addAll d ArrayList_new (map snd (concat (table m))) of None \<Rightarrow> None | Some l \<Rightarrow> Some (al_toArray d l))"

text \<open>The constructor from an initializer list starts to count at the list's length.\<close>

definition HashMap_fromList :: "('k \<Rightarrow> u32) \<Rightarrow> ('k \<times> 'v) list \<Rightarrow> ('k, 'v) HashMap" where
  "HashMap_fromList hash ps =
     foldl (\<lambda>m (k, v). hm_put hash m k v)
       \<lparr>table = [], isInitialized = False, tableSize = DEFAULT_TABLE_SIZE, hm_count = of_nat (length ps)\<rparr> ps"

section \<open>Abstraction\<close>

definition hm_ok :: "('k \<Rightarrow> u32) \<Rightarrow> ('k, 'v) HashMap \<Rightarrow> bool" where
  "hm_ok hash m \<longleftrightarrow> 0 < tableSize m \<and>
     (if isInitialized m
      then length (table m) = unat (tableSize m) \<and>
        (\<forall>i < length (table m). distinct (map fst (table m ! i)) \<and>
          (\<forall>k \<in> fst ` set (table m ! i). hm_bucket hash m k = i)) \<and>
        hm_count m = of_nat (length (concat (table m)))
      else hm_count m = 0)"

definition hm_map :: "('k \<Rightarrow> u32) \<Rightarrow> ('k, 'v) HashMap \<Rightarrow> 'k \<Rightarrow> 'v option" where
  "hm_map hash m k = (if isInitialized m then map_of (table m ! hm_bucket hash m k) k else None)"

lemma chain_put_spec:
  "map_of (snd (chain_put es k v)) = (map_of es)(k \<mapsto> v)"
  "fst (chain_put es k v) \<longleftrightarrow> k \<notin> fst ` set es"
  "fst ` set (snd (chain_put es k v)) = insert k (fst ` set es)"
  "distinct (map fst es) \<Longrightarrow> distinct (map fst (snd (chain_put es k v)))"
  "length (snd (chain_put es k v)) = length es + (if k \<in> fst ` set es then 0 else 1)"
proof -
  show "map_of (snd (chain_put es k v)) = (map_of es)(k \<mapsto> v)"
    by (induction es k v rule: chain_put.induct) (auto simp: fun_eq_iff case_prod_beta)
  show "fst (chain_put es k v) \<longleftrightarrow> k \<notin> fst ` set es"
    by (induction es k v rule: chain_put.induct) (auto simp: case_prod_beta)
  show ins: "fst ` set (snd (chain_put es k v)) = insert k (fst ` set es)" for es
    by (induction es k v rule: chain_put.induct) (auto simp: case_prod_beta)
  show "distinct (map fst es) \<Longrightarrow> distinct (map fst (snd (chain_put es k v)))"
    using ins by (induction es k v rule: chain_put.induct) (auto simp: case_prod_beta)
  show "length (snd (chain_put es k v)) = length es + (if k \<in> fst ` set es then 0 else 1)"
    by (induction es k v rule: chain_put.induct) (auto simp: case_prod_beta)
qed

lemma chain_get_spec: "chain_get es k = (case map_of es k of None \<Rightarrow> Inl KEY_NOT_FOUND | Some v \<Rightarrow> Inr v)"
  by (induction es k rule: chain_get.induct) auto

lemma chain_contains_spec: "chain_contains es k \<longleftrightarrow> k \<in> fst ` set es"
  by (induction es k rule: chain_contains.induct) auto

lemma chain_remove_absent: "k \<notin> fst ` set es \<Longrightarrow> chain_remove es k = Inl KEY_NOT_FOUND"
  by (induction es k rule: chain_remove.induct) auto

lemma chain_remove_spec:
  "k \<in> fst ` set es \<Longrightarrow> distinct (map fst es) \<Longrightarrow>
   \<exists>v es'. chain_remove es k = Inr (v, es') \<and> map_of es k = Some v \<and> map_of es' = (map_of es)(k := None)
     \<and> distinct (map fst es') \<and> fst ` set es' = fst ` set es - {k} \<and> Suc (length es') = length es"
proof (induction es k rule: chain_remove.induct)
  case (2 k' w es key)
  show ?case
  proof (cases "k' = key")
    case True
    then have "key \<notin> fst ` set es"
      using 2(3) by auto
    moreover from this have "map_of es key = None"
      by (simp add: map_of_eq_None_iff)
    ultimately show ?thesis
      using 2(3) True by (intro exI [of _ w] exI [of _ es]) (auto simp: fun_eq_iff)
  next
    case False
    have "key \<in> fst ` set es" "distinct (map fst es)"
      using 2(2,3) False by auto
    from 2(1) [OF False this] obtain v es' where "chain_remove es key = Inr (v, es')" "map_of es key = Some v"
        "map_of es' = (map_of es)(key := None)" "distinct (map fst es')" "fst ` set es' = fst ` set es - {key}"
        "Suc (length es') = length es"
      by blast
    then show ?thesis
      using False 2(3) by (auto simp: fun_eq_iff)
  qed
qed simp

lemma hm_ready_spec:
  assumes "hm_ok hash m"
  shows "hm_ok hash (hm_ready m)" and "isInitialized (hm_ready m)" and "hm_map hash (hm_ready m) = hm_map hash m"
    and "tableSize (hm_ready m) = tableSize m" and "hm_bucket hash (hm_ready m) = hm_bucket hash m"
proof -
  have b: "hm_bucket hash (hm_initialize m) k < unat (tableSize m)" for k
    using assms by (simp add: hm_bucket_def hm_initialize_def hm_ok_def word_less_nat_alt unat_mod)
  show "hm_ok hash (hm_ready m)" and "isInitialized (hm_ready m)" and "tableSize (hm_ready m) = tableSize m"
    using assms by (auto simp: hm_ready_def hm_initialize_def hm_ok_def)
  show "hm_bucket hash (hm_ready m) = hm_bucket hash m"
    by (auto simp: fun_eq_iff hm_bucket_def hm_ready_def hm_initialize_def)
  show "hm_map hash (hm_ready m) = hm_map hash m"
    using b by (auto simp: fun_eq_iff hm_ready_def hm_map_def hm_initialize_def)
qed

lemma hm_bucket_less:
  assumes "hm_ok hash m" and "isInitialized m"
  shows "hm_bucket hash m k < length (table m)"
  using assms by (simp add: hm_ok_def hm_bucket_def word_less_nat_alt unat_mod)

lemma length_concat_update:
  assumes "i < length xss"
  shows "length (concat (xss[i := ys])) + length (xss ! i) = length (concat xss) + length ys"
  using assms
proof (induction xss arbitrary: i)
  case (Cons xs xss)
  then show ?case
    by (cases i) auto
qed simp

lemma distinct_buckets:
  "(\<And>i. i < length xss \<Longrightarrow> distinct (xss ! i) \<and> (\<forall>k \<in> set (xss ! i). f k = i + n)) \<Longrightarrow> distinct (concat xss)"
proof (induction xss arbitrary: n)
  case (Cons xs xss)
  have tl: "distinct (xss ! i) \<and> (\<forall>k \<in> set (xss ! i). f k = i + Suc n)" if "i < length xss" for i
    using Cons.prems [of "Suc i"] that by simp
  have "f k \<noteq> n" if "k \<in> set (concat xss)" for k
  proof -
    from that obtain ys where "ys \<in> set xss" "k \<in> set ys"
      by auto
    then obtain i where i: "i < length xss" "k \<in> set (xss ! i)"
      by (metis in_set_conv_nth)
    show ?thesis
      using tl [OF i(1)] i(2) by auto
  qed
  moreover have "distinct xs" "\<forall>k \<in> set xs. f k = n"
    using Cons.prems [of 0] by auto
  ultimately show ?case
    using Cons.IH [OF tl] by auto
qed simp

lemma hm_entries:
  assumes "hm_ok hash m" and "isInitialized m"
  shows "distinct (map fst (concat (table m)))"
    and "map_of (concat (table m)) = hm_map hash m"
proof -
  have "distinct (concat (map (map fst) (table m)))"
    using assms by (intro distinct_buckets [of _ "hm_bucket hash m" 0]) (auto simp: hm_ok_def)
  then show d: "distinct (map fst (concat (table m)))"
    by (simp add: map_concat)
  show "map_of (concat (table m)) = hm_map hash m"
  proof (rule ext)
    fix k
    let ?i = "hm_bucket hash m k"
    have i: "?i < length (table m)"
      by (rule hm_bucket_less [OF assms])
    show "map_of (concat (table m)) k = hm_map hash m k"
    proof (cases "map_of (concat (table m)) k")
      case None
      then have "k \<notin> fst ` set (table m ! ?i)"
        using nth_mem [OF i] by (force simp: map_of_eq_None_iff)
      then have "map_of (table m ! ?i) k = None"
        by (simp add: map_of_eq_None_iff)
      then show ?thesis
        using None assms(2) by (simp add: hm_map_def)
    next
      case (Some v)
      then obtain ys where "ys \<in> set (table m)" "(k, v) \<in> set ys"
        using map_of_SomeD [OF Some] by auto
      then obtain j where j: "j < length (table m)" "(k, v) \<in> set (table m ! j)"
        by (metis in_set_conv_nth)
      then have "?i = j"
        using assms by (force simp: hm_ok_def)
      then show ?thesis
        using Some j assms by (simp add: hm_map_def hm_ok_def)
    qed
  qed
qed

lemma hm_card:
  assumes "hm_ok hash m" and "isInitialized m"
  shows "length (concat (table m)) = card (dom (hm_map hash m))"
proof -
  note e = hm_entries [OF assms]
  have "dom (hm_map hash m) = set (map fst (concat (table m)))"
    unfolding e(2) [symmetric] dom_map_of_conv_image_fst by simp
  then show ?thesis
    using distinct_card [OF e(1)] by (simp only: length_map)
qed

lemma hm_update_ok:
  fixes hash :: "'k \<Rightarrow> u32" and m :: "('k, 'v) HashMap"
  defines "i \<equiv> \<lambda>k. hm_bucket hash m k"
  assumes ok: "hm_ok hash m" and init: "isInitialized m"
    and d: "distinct (map fst es)" and b: "\<forall>k' \<in> fst ` set es. hm_bucket hash m k' = i k"
    and c: "of_nat (length es) + hm_count m = n + of_nat (length (table m ! i k))"
    and f: "map_of es = (map_of (table m ! i k))(k := v)"
  shows "hm_ok hash (m\<lparr>table := (table m)[i k := es], hm_count := n\<rparr>)"
    and "hm_map hash (m\<lparr>table := (table m)[i k := es], hm_count := n\<rparr>) = (hm_map hash m)(k := v)"
proof -
  let ?m = "m\<lparr>table := (table m)[i k := es], hm_count := n\<rparr>"
  have lt: "i k' < length (table m)" for k'
    unfolding i_def by (rule hm_bucket_less [OF ok init])
  have bk: "hm_bucket hash ?m k' = i k'" for k'
    by (simp add: i_def hm_bucket_def)
  have "of_nat (length (concat ((table m)[i k := es]))) + of_nat (length (table m ! i k)) =
      (of_nat (length (concat (table m))) + of_nat (length es) :: u32)"
    using length_concat_update [OF lt [of k], of es] by (metis of_nat_add)
  moreover have "hm_count m = of_nat (length (concat (table m)))"
    using ok init by (simp add: hm_ok_def)
  ultimately have n: "n = of_nat (length (concat ((table m)[i k := es])))"
    using c by (metis add.commute add_left_cancel)
  have upd: "(table m)[i k := es] ! j = (if j = i k then es else table m ! j)" for j
    using lt [of k] by simp
  show "hm_ok hash ?m"
    using ok init d b n unfolding hm_ok_def bk by (auto simp: upd [unfolded i_def] i_def)
  show "hm_map hash ?m = (hm_map hash m)(k := v)"
  proof (rule ext)
    fix k'
    show "hm_map hash ?m k' = ((hm_map hash m)(k := v)) k'"
      using f init unfolding hm_map_def bk by (simp add: upd [unfolded i_def] i_def)
  qed
qed

lemma hm_put_spec:
  assumes "hm_ok hash m"
  shows "hm_ok hash (hm_put hash m k v)" and "hm_map hash (hm_put hash m k v) = (hm_map hash m)(k \<mapsto> v)"
proof -
  let ?m = "hm_ready m"
  note r = hm_ready_spec [OF assms]
  let ?es = "snd (chain_put (table ?m ! hm_bucket hash ?m k) k v)"
  have lt: "hm_bucket hash ?m k < length (table ?m)"
    by (rule hm_bucket_less [OF r(1,2)])
  have old: "distinct (map fst (table ?m ! hm_bucket hash ?m k))"
      "\<forall>k' \<in> fst ` set (table ?m ! hm_bucket hash ?m k). hm_bucket hash ?m k' = hm_bucket hash ?m k"
    using r(1,2) lt by (auto simp: hm_ok_def)
  have eq: "hm_put hash m k v = ?m\<lparr>table := (table ?m)[hm_bucket hash ?m k := ?es],
      hm_count := (if fst (chain_put (table ?m ! hm_bucket hash ?m k) k v) then hm_count ?m + 1 else hm_count ?m)\<rparr>"
    by (simp only: hm_put_def Let_def case_prod_beta)
  let ?n = "if fst (chain_put (table ?m ! hm_bucket hash ?m k) k v) then hm_count ?m + 1 else hm_count ?m"
  have es1: "distinct (map fst ?es)"
    by (rule chain_put_spec(4) [OF old(1)])
  have es2: "\<forall>k' \<in> fst ` set ?es. hm_bucket hash ?m k' = hm_bucket hash ?m k"
    unfolding chain_put_spec(3) using old(2) by blast
  have es3: "map_of ?es = (map_of (table ?m ! hm_bucket hash ?m k))(k := Some v)"
    by (rule chain_put_spec(1))
  have c: "of_nat (length ?es) + hm_count ?m = ?n + of_nat (length (table ?m ! hm_bucket hash ?m k))"
    using chain_put_spec(2,5) [of "table ?m ! hm_bucket hash ?m k" k v] by simp
  show "hm_ok hash (hm_put hash m k v)"
    unfolding eq by (rule hm_update_ok(1) [OF r(1,2) es1 es2 c es3])
  show "hm_map hash (hm_put hash m k v) = (hm_map hash m)(k \<mapsto> v)"
    unfolding eq r(3) [symmetric] by (rule hm_update_ok(2) [OF r(1,2) es1 es2 c es3])
qed

lemma hm_get_spec:
  assumes "hm_ok hash m"
  shows "hm_get hash m k = (case hm_map hash m k of None \<Rightarrow> Inl KEY_NOT_FOUND | Some v \<Rightarrow> Inr v)"
  using hm_ready_spec(2,3) [OF assms] by (simp add: hm_get_def chain_get_spec Let_def hm_map_def fun_eq_iff)

lemma hm_containsKey_spec: "hm_ok hash m \<Longrightarrow> hm_containsKey hash m k \<longleftrightarrow> hm_map hash m k \<noteq> None"
  by (simp add: hm_containsKey_def chain_contains_spec hm_map_def map_of_eq_None_iff del: not_None_eq)

lemma hm_remove_spec:
  assumes "hm_ok hash m"
  shows "case hm_map hash m k of None \<Rightarrow> hm_remove hash m k = Inl KEY_NOT_FOUND
    | Some v \<Rightarrow> \<exists>m'. hm_remove hash m k = Inr (v, m') \<and> hm_ok hash m' \<and> hm_map hash m' = (hm_map hash m)(k := None)"
proof -
  let ?m = "hm_ready m"
  note r = hm_ready_spec [OF assms]
  let ?b = "table ?m ! hm_bucket hash ?m k"
  have lt: "hm_bucket hash ?m k < length (table ?m)"
    by (rule hm_bucket_less [OF r(1,2)])
  have old: "distinct (map fst ?b)" "\<forall>k' \<in> fst ` set ?b. hm_bucket hash ?m k' = hm_bucket hash ?m k"
    using r(1,2) lt by (auto simp: hm_ok_def)
  have mp: "hm_map hash m k = map_of ?b k"
    using r(2,3) by (metis hm_map_def)
  show ?thesis
  proof (cases "k \<in> fst ` set ?b")
    case False
    then have "hm_map hash m k = None"
      by (simp add: mp map_of_eq_None_iff)
    then show ?thesis
      using chain_remove_absent [OF False] by (simp add: hm_remove_def Let_def)
  next
    case True
    from chain_remove_spec [OF this old(1)] obtain v es where
      v: "chain_remove ?b k = Inr (v, es)" "map_of ?b k = Some v" "map_of es = (map_of ?b)(k := None)"
        "distinct (map fst es)" "fst ` set es = fst ` set ?b - {k}" "Suc (length es) = length ?b"
      by blast
    have "of_nat (length es) + hm_count ?m = hm_count ?m - 1 + of_nat (length ?b)"
      using v(6) [symmetric] by simp
    moreover have "\<forall>k' \<in> fst ` set es. hm_bucket hash ?m k' = hm_bucket hash ?m k"
      using v(5) old(2) by blast
    ultimately have "hm_ok hash (?m\<lparr>table := (table ?m)[hm_bucket hash ?m k := es], hm_count := hm_count ?m - 1\<rparr>)"
      "hm_map hash (?m\<lparr>table := (table ?m)[hm_bucket hash ?m k := es], hm_count := hm_count ?m - 1\<rparr>) =
        (hm_map hash ?m)(k := None)"
      using hm_update_ok [OF r(1,2) v(4) _ _ v(3)] by blast+
    then show ?thesis
      using v(1,2) r(3) mp by (simp add: hm_remove_def Let_def)
  qed
qed

lemma hm_new_spec [simp]: "0 < n \<Longrightarrow> hm_ok hash (HashMap_new n)" "hm_map hash (HashMap_new n) = Map.empty"
  by (auto simp: HashMap_new_def hm_ok_def hm_map_def)

lemma concat_blank [simp]: "concat (map (\<lambda>_. []) xs) = []"
  by (induction xs) simp_all

lemma hm_clear_spec:
  fixes m :: "('k, 'v) HashMap"
  assumes "hm_ok hash m"
  shows "hm_ok hash (hm_clear m)" and "hm_map hash (hm_clear m) = Map.empty"
proof -
  note r = hm_ready_spec [OF assms]
  show "hm_ok hash (hm_clear m)"
    using r(1,2) by (simp add: hm_ok_def hm_clear_def Let_def)
  have "hm_bucket hash (hm_clear m) k < length (table (hm_ready m))" for k
    using hm_bucket_less [OF r(1,2), of k] by (simp add: hm_clear_def Let_def hm_bucket_def)
  then show "hm_map hash (hm_clear m) = Map.empty"
    by (auto simp: hm_map_def fun_eq_iff hm_clear_def Let_def hm_bucket_def)
qed

lemma hm_keys_spec:
  assumes "hm_ok hash m" and "card (dom (hm_map hash m)) \<le> 2 ^ 31"
  shows "\<exists>ks. hm_keys d m = Some ks \<and> distinct ks \<and> set ks = dom (hm_map hash m)
    \<and> hm_count m = of_nat (length ks)"
proof -
  let ?m = "hm_ready m" and ?ks = "map fst (concat (table (hm_ready m)))"
  note r = hm_ready_spec [OF assms(1)]
  note e = hm_entries [OF r(1,2)]
  have dom: "set ?ks = dom (hm_map hash m)"
    using e(2) r(3) dom_map_of_conv_image_fst [of "concat (table ?m)"] by (simp only: set_map)
  have "length ?ks \<le> 2 ^ 31"
    using assms(2) dom distinct_card [OF e(1)] by simp
  then obtain l where "al_addAll d ArrayList_new ?ks = Some l" "al_ok l" "al_list l = ?ks"
    using al_addAll_spec [of ArrayList_new ?ks d] by (auto simp: ArrayList_new_def al_ok_def al_list_def)
  moreover have "hm_count m = of_nat (length ?ks)"
    using r(1,2) assms(1)
    by (cases "isInitialized m") (simp_all add: hm_ok_def hm_ready_def hm_initialize_def)
  ultimately show ?thesis
    using dom e(1) by (simp add: hm_keys_def Let_def al_toArray_spec)
qed

section \<open>The map interface\<close>

locale map_interface =
  fixes put :: "'m \<Rightarrow> 'k \<Rightarrow> 'v \<Rightarrow> 'm"
    and get :: "'m \<Rightarrow> 'k \<Rightarrow> 'v result"
    and remove :: "'m \<Rightarrow> 'k \<Rightarrow> ('v \<times> 'm) result"
    and has :: "'m \<Rightarrow> 'k \<Rightarrow> bool"
    and lookup :: "'m \<Rightarrow> 'k \<Rightarrow> 'v option"
    and ok :: "'m \<Rightarrow> bool"
  assumes put_law: "ok m \<Longrightarrow> ok (put m k v) \<and> lookup (put m k v) = (lookup m)(k \<mapsto> v)"
    and get_law: "ok m \<Longrightarrow> get m k = (case lookup m k of None \<Rightarrow> Inl KEY_NOT_FOUND | Some v \<Rightarrow> Inr v)"
    and remove_law: "ok m \<Longrightarrow> case lookup m k of None \<Rightarrow> remove m k = Inl KEY_NOT_FOUND
      | Some v \<Rightarrow> \<exists>m'. remove m k = Inr (v, m') \<and> ok m' \<and> lookup m' = (lookup m)(k := None)"
    and has_law: "ok m \<Longrightarrow> has m k \<longleftrightarrow> lookup m k \<noteq> None"
begin

lemma get_put: "ok m \<Longrightarrow> get (put m k v) k' = (if k' = k then Inr v else get m k')"
  using put_law [of m k v] get_law [of m] get_law [of "put m k v"] by simp

lemma remove_absent: "ok m \<Longrightarrow> get m k = Inl e \<Longrightarrow> e = KEY_NOT_FOUND \<and> remove m k = Inl KEY_NOT_FOUND"
  using get_law [of m k] remove_law [of m k] by (auto split: option.splits)

lemma remove_present:
  assumes "ok m" and "get m k = Inr v"
  shows "\<exists>m'. remove m k = Inr (v, m') \<and> ok m' \<and> (\<forall>k'. get m' k' = (if k' = k then Inl KEY_NOT_FOUND else get m k'))"
proof -
  obtain m' where m': "remove m k = Inr (v, m')" "ok m'" "lookup m' = (lookup m)(k := None)"
    using assms get_law [of m k] remove_law [of m k] by (auto split: option.splits)
  then show ?thesis
    using get_law [OF assms(1)] get_law [OF m'(2)] by simp
qed

lemma puts_lookup:
  "ok m \<Longrightarrow> ok (foldl (\<lambda>m (k, v). put m k v) m ps)
     \<and> lookup (foldl (\<lambda>m (k, v). put m k v) m ps) = lookup m ++ map_of (rev ps)"
proof (induction ps arbitrary: m)
  case (Cons p ps)
  obtain k v where p: "p = (k, v)"
    by fastforce
  show ?case
    using Cons.IH [of "put m k v"] put_law [OF Cons.prems, of k v]
    by (simp add: p map_add_upd_left map_add_def fun_eq_iff split: option.splits)
qed simp

end

interpretation hm: map_interface "hm_put hash" "hm_get hash" "hm_remove hash" "hm_containsKey hash"
    "hm_map hash" "hm_ok hash" for hash
proof
  fix m :: "('a, 'b) HashMap" and k v
  assume ok: "hm_ok hash m"
  show "hm_ok hash (hm_put hash m k v) \<and> hm_map hash (hm_put hash m k v) = (hm_map hash m)(k \<mapsto> v)"
    using hm_put_spec [OF ok] by blast
  show "hm_get hash m k = (case hm_map hash m k of None \<Rightarrow> Inl KEY_NOT_FOUND | Some v \<Rightarrow> Inr v)"
    by (rule hm_get_spec [OF ok])
  show "hm_containsKey hash m k \<longleftrightarrow> hm_map hash m k \<noteq> None"
    by (rule hm_containsKey_spec [OF ok])
  show "case hm_map hash m k of None \<Rightarrow> hm_remove hash m k = Inl KEY_NOT_FOUND
      | Some v \<Rightarrow> \<exists>m'. hm_remove hash m k = Inr (v, m') \<and> hm_ok hash m' \<and> hm_map hash m' = (hm_map hash m)(k := None)"
    by (rule hm_remove_spec [OF ok])
qed

lemma hm_remove_count: "hm_remove hash m k = Inr (v, m') \<Longrightarrow> hm_count m' + 1 = hm_count m"
  by (auto simp: hm_remove_def hm_ready_def hm_initialize_def Let_def res_iff)

text \<open>
  C11. \<open>HashMap\<close> refines a map: whatever the hash function and the number of buckets (at least one), for
  a map that was not built from an initializer list (which miscounts), after \<open>put(k, v)\<close> a
  lookup of \<open>k\<close> yields \<open>v\<close> and every other lookup is unchanged; removing any key of the map, wherever it
  stands in its bucket, returns its value, makes exactly this key unknown, leaves every other lookup
  unchanged and decreases the size by one; removing a key the map does not have throws KEY_NOT_FOUND.
\<close>

theorem hashmap_put_get_remove:
  assumes "hm_ok hash m"
  shows "hm_ok hash (hm_put hash m k v)
    \<and> (\<forall>k'. hm_get hash (hm_put hash m k v) k' = (if k' = k then Inr v else hm_get hash m k'))
    \<and> (case hm_get hash m k of
         Inl e \<Rightarrow> e = KEY_NOT_FOUND \<and> hm_remove hash m k = Inl KEY_NOT_FOUND
       | Inr w \<Rightarrow> \<exists>m'. hm_remove hash m k = Inr (w, m') \<and> hm_ok hash m' \<and> hm_count m' + 1 = hm_count m
           \<and> (\<forall>k'. hm_get hash m' k' = (if k' = k then Inl KEY_NOT_FOUND else hm_get hash m k')))"
  using hm.put_law [OF assms] hm.get_put [OF assms] hm.remove_absent [OF assms] hm.remove_present [OF assms, of k]
    hm_remove_count [of hash m k] by (cases "hm_get hash m k") fastforce+

theorem hashmap_put_get_remove_witness:
  "\<exists>m'. hm_remove id (hm_put id (hm_put id (HashMap_new 47) 1 False) 48 True) (1 :: u32) = Inr (False, m')
    \<and> hm_get id m' 1 = Inl KEY_NOT_FOUND \<and> hm_get id m' 48 = Inr True"
proof -
  let ?m = "hm_put id (HashMap_new 47) (1 :: u32) False"
  have m: "hm_ok id ?m"
    by (rule hm_put_spec(1)) simp
  note m = m hm_put_spec(1) [OF m, of 48 True]
  have "hm_get id (hm_put id ?m 48 True) k = (if k = 48 then Inr True else if k = 1 then Inr False else Inl KEY_NOT_FOUND)" for k
    by (simp add: hm_get_spec [OF m(2)] hm_put_spec(2) [OF m(1)] hm_put_spec(2))
  then show ?thesis
    using hashmap_put_get_remove [OF m(2), of 1 True] by auto
qed

text \<open>
  \<open>keys()\<close> lists every key of the map exactly once, and \<open>size()\<close> is their number.
\<close>

theorem hashmap_keys:
  assumes "hm_ok hash m" and "card (dom (hm_map hash m)) \<le> 2 ^ 31"
  shows "\<exists>ks. hm_keys d m = Some ks \<and> distinct ks \<and> set ks = {k. hm_containsKey hash m k}
    \<and> hm_count m = of_nat (length ks)"
  using hm_keys_spec [OF assms] by (simp add: hm_containsKey_spec [OF assms(1)] dom_def)

theorem hashmap_keys_witness:
  "\<exists>ks. hm_keys 0 (hm_put id (HashMap_new 47) (48 :: u32) True) = Some ks \<and> set ks = {48}"
proof -
  let ?m = "hm_put id (HashMap_new 47) (48 :: u32) True"
  have m: "hm_ok id ?m" "hm_map id ?m = [48 \<mapsto> True]"
    using hm_put_spec [of id "HashMap_new 47" 48 True] by auto
  have "{k. hm_containsKey id ?m k} = {48}"
    using m by (auto simp: hm_containsKey_spec)
  then show ?thesis
    using hashmap_keys [OF m(1), of 0] m(2) by auto
qed

lemma hm_put_shift:
  "hm_put hash (m\<lparr>hm_count := c\<rparr>) k v =
     (hm_put hash m k v)\<lparr>hm_count := hm_count (hm_put hash m k v) - hm_count m + c\<rparr>"
  by (simp add: hm_put_def hm_ready_def hm_initialize_def Let_def case_prod_beta hm_bucket_def)

lemma hm_puts_shift:
  "hm_count (foldl (\<lambda>m (k, v). hm_put hash m k v) (m\<lparr>hm_count := c\<rparr>) ps) =
     hm_count (foldl (\<lambda>m (k, v). hm_put hash m k v) m ps) - hm_count m + c"
proof (induction ps arbitrary: m c)
  case (Cons p ps)
  then show ?case
    by (cases p) (simp add: hm_put_shift)
qed simp

text \<open>
  A map built from an initializer list of pairwise different keys holds these entries, but its
  \<open>size()\<close> is twice their number: the constructor starts to count at the length of the list.
\<close>

theorem hashmap_from_list_size:
  assumes "distinct (map fst ps)"
  shows "hm_count (HashMap_fromList hash ps) = 2 * of_nat (length ps)"
    (is "hm_count ?m = _")
proof -
  let ?e = "\<lambda>n. \<lparr>table = [], isInitialized = False, tableSize = DEFAULT_TABLE_SIZE, hm_count = n\<rparr> :: ('a, 'b) HashMap"
  let ?z = "foldl (\<lambda>m (k, v). hm_put hash m k v) (?e 0) ps"
  have ok: "hm_ok hash (?e 0)" and emp: "hm_map hash (?e 0) = Map.empty"
    by (simp_all add: hm_ok_def hm_map_def fun_eq_iff)
  note z = hm.puts_lookup [OF ok, of ps]
  have "\<exists>n. hm_count ?z = of_nat n \<and> n = card (dom (hm_map hash ?z))"
  proof (cases "isInitialized ?z")
    case True
    then have "hm_count ?z = of_nat (length (map fst (concat (table ?z))))"
      using z by (simp add: hm_ok_def)
    moreover have "length (map fst (concat (table ?z))) = card (dom (hm_map hash ?z))"
      using hm_card [OF conjunct1 [OF z] True] by simp
    ultimately show ?thesis
      by blast
  next
    case False
    then show ?thesis
      using z by (intro exI [of _ 0]) (simp add: hm_ok_def hm_map_def [abs_def])
  qed
  moreover have "card (dom (hm_map hash ?z)) = length ps"
    using z emp assms distinct_card [OF assms] by (simp add: dom_map_of_conv_image_fst)
  ultimately have "hm_count ?z = of_nat (length ps)"
    by auto
  then show ?thesis
    using hm_puts_shift [where m = "?e 0" and c = "of_nat (length ps)"] by (simp add: HashMap_fromList_def)
qed

theorem hashmap_from_list_size_witness:
  "hm_count (HashMap_fromList id [(1 :: u32, True), (2, False)]) = 4"
  using hashmap_from_list_size [of "[(1 :: u32, True), (2, False)]" id] by simp

end
