(* ===== verification/Queues.thy ===== *)
theory Queues
  imports Array_Lists
begin

text \<open>
  \<^verbatim>\<open>Util::ArrayBlockingQueue<T>\<close> (a ring buffer) and \<^verbatim>\<open>Util::ArrayListBlockingQueue<T>\<close> from
  collection/. Both are refined to the list of queued elements, oldest first. A call that spins
  until another thread acts yields \<open>None\<close>. The \<^verbatim>\<open>Queue\<close> interface is the locale
  \<open>queue_interface\<close>, interpreted on both.
\<close>

section \<open>Ring buffer\<close>

record 'a ArrayBlockingQueue =
  abq_elements :: "'a list"
  abq_capacity :: u32
  head :: u32
  tail :: u32
  abq_length :: u32

definition ArrayBlockingQueue_new :: "'a \<Rightarrow> u32 \<Rightarrow> 'a ArrayBlockingQueue" where
  "ArrayBlockingQueue_new d c =
     \<lparr>abq_elements = replicate (unat c) d, abq_capacity = c, head = 0, tail = - 1, abq_length = 0\<rparr>"

definition abq_offer :: "'a ArrayBlockingQueue \<Rightarrow> 'a \<Rightarrow> bool \<times> 'a ArrayBlockingQueue" where
  "abq_offer q element =
     (if abq_length q = abq_capacity q then (False, q)
      else let t = (tail q + 1) mod abq_capacity q
           in (True, q\<lparr>tail := t, abq_elements := (abq_elements q)[unat t := element],
                       abq_length := abq_length q + 1\<rparr>))"

definition abq_poll :: "'a ArrayBlockingQueue \<Rightarrow> ('a \<times> 'a ArrayBlockingQueue) option" where
  "abq_poll q =
     (if abq_length q = 0 then None
      else Some (abq_elements q ! unat (head q),
                 q\<lparr>head := (head q + 1) mod abq_capacity q, abq_length := abq_length q - 1\<rparr>))"

definition abq_peek :: "'a ArrayBlockingQueue \<Rightarrow> 'a option" where
  "abq_peek q = (if abq_length q = 0 then None else Some (abq_elements q ! unat (head q)))"

definition abq_add :: "'a ArrayBlockingQueue \<Rightarrow> 'a \<Rightarrow> 'a ArrayBlockingQueue option" where
  "abq_add q element = (let (ok, q') = abq_offer q element in if ok then Some q' else None)"

fun abq_addAll :: "'a ArrayBlockingQueue \<Rightarrow> 'a list \<Rightarrow> 'a ArrayBlockingQueue option" where
  "abq_addAll q [] = Some q"
| "abq_addAll q (x # xs) = (case abq_add q x of None \<Rightarrow> None | Some q' \<Rightarrow> abq_addAll q' xs)"

definition abq_remove :: "'a ArrayBlockingQueue \<Rightarrow> 'a \<Rightarrow> bool result" where
  "abq_remove q element = Inl UNSUPPORTED_OPERATION"

definition abq_removeAll :: "'a ArrayBlockingQueue \<Rightarrow> 'a list \<Rightarrow> bool result" where
  "abq_removeAll q other = Inl UNSUPPORTED_OPERATION"

definition abq_isEmpty :: "'a ArrayBlockingQueue \<Rightarrow> bool" where
  "abq_isEmpty q \<longleftrightarrow> abq_length q = 0"

definition abq_clear :: "'a ArrayBlockingQueue \<Rightarrow> 'a ArrayBlockingQueue" where
  "abq_clear q = q\<lparr>head := 0, tail := - 1, abq_length := 0\<rparr>"

text \<open>
  \<open>contains\<close> walks the indices from \<open>head\<close> below \<open>tail\<close>; \<open>None\<close> is a read outside the storage.
\<close>

function abq_contains_from :: "'a list \<Rightarrow> u32 \<Rightarrow> u32 \<Rightarrow> 'a \<Rightarrow> bool option" where
  "abq_contains_from es i t element =
     (if i < t
      then if length es \<le> unat i then None
           else if es ! unat i = element then Some True
           else abq_contains_from es (i + 1) t element
      else Some False)"
  by pat_completeness auto
termination
  by (relation "measure (\<lambda>(es, i, t, e). unat t - unat i)") (auto simp: word_nat word_less_nat_alt)

declare abq_contains_from.simps [simp del]

definition abq_contains :: "'a ArrayBlockingQueue \<Rightarrow> 'a \<Rightarrow> bool option" where
  "abq_contains q element = abq_contains_from (abq_elements q) (head q) (tail q) element"

fun abq_containsAll :: "'a ArrayBlockingQueue \<Rightarrow> 'a list \<Rightarrow> bool option" where
  "abq_containsAll q [] = Some True"
| "abq_containsAll q (x # xs) =
     (case abq_contains q x of
        None \<Rightarrow> None
      | Some b \<Rightarrow> if \<not> b then Some False else abq_containsAll q xs)"

text \<open>\<open>toArray\<close> copies the same indices into a bounds-checked array of \<open>length\<close> cells.\<close>

function abq_toArray_from :: "'a list \<Rightarrow> 'a list \<Rightarrow> u32 \<Rightarrow> u32 \<Rightarrow> 'a list result" where
  "abq_toArray_from es array i t =
     (if i < t
      then res_bind (arr_set array i (es ! unat i)) (\<lambda>array'. abq_toArray_from es array' (i + 1) t)
      else Inr array)"
  by pat_completeness auto
termination
  by (relation "measure (\<lambda>(es, a, i, t). unat t - unat i)") (auto simp: word_nat word_less_nat_alt)

definition abq_toArray :: "'a \<Rightarrow> 'a ArrayBlockingQueue \<Rightarrow> 'a list result" where
  "abq_toArray d q = abq_toArray_from (abq_elements q) (replicate (unat (abq_length q)) d) (head q) (tail q)"

subsection \<open>Abstraction\<close>

definition abq_ok :: "'a ArrayBlockingQueue \<Rightarrow> bool" where
  "abq_ok q \<longleftrightarrow> length (abq_elements q) = unat (abq_capacity q) \<and> 0 < abq_capacity q \<and>
     abq_length q \<le> abq_capacity q \<and> head q < abq_capacity q \<and>
     unat (tail q + 1) mod unat (abq_capacity q) =
       (unat (head q) + unat (abq_length q)) mod unat (abq_capacity q)"

definition abq_list :: "'a ArrayBlockingQueue \<Rightarrow> 'a list" where
  "abq_list q = map (\<lambda>i. abq_elements q ! ((unat (head q) + i) mod unat (abq_capacity q)))
     [0..<unat (abq_length q)]"

lemma length_abq_list [simp]: "length (abq_list q) = unat (abq_length q)"
  by (simp add: abq_list_def)

lemma abq_new_spec: "0 < c \<Longrightarrow> abq_ok (ArrayBlockingQueue_new d c) \<and> abq_list (ArrayBlockingQueue_new d c) = []"
  by (simp add: ArrayBlockingQueue_new_def abq_ok_def abq_list_def)

lemma mod_add_neq:
  assumes "i < j" and "j - i < n"
  shows "(h + i) mod n \<noteq> (h + j) mod (n::nat)"
proof
  assume "(h + i) mod n = (h + j) mod n"
  then have "n dvd (h + j) - (h + i)"
    using mod_eq_dvd_iff_nat [of "h + i" "h + j" n] assms(1) by simp
  then have "n \<le> j - i"
    using assms(1) by (auto dest: dvd_imp_le)
  then show False
    using assms(2) by simp
qed

lemma abq_offer_spec:
  assumes "abq_ok q"
  shows "if unat (abq_length q) = unat (abq_capacity q) then abq_offer q x = (False, q)
    else \<exists>q'. abq_offer q x = (True, q') \<and> abq_ok q' \<and> abq_list q' = abq_list q @ [x]
      \<and> abq_capacity q' = abq_capacity q \<and> unat (abq_length q') = Suc (unat (abq_length q))"
proof (cases "unat (abq_length q) = unat (abq_capacity q)")
  case True
  then show ?thesis
    by (simp add: abq_offer_def word_unat_eq_iff)
next
  case False
  let ?c = "unat (abq_capacity q)" and ?n = "unat (abq_length q)" and ?h = "unat (head q)"
  define t where "t = (tail q + 1) mod abq_capacity q"
  define q' where "q' = q\<lparr>tail := t, abq_elements := (abq_elements q)[unat t := x], abq_length := abq_length q + 1\<rparr>"
  have lt: "?n < ?c" and c0: "0 < ?c"
    using assms False by (auto simp: abq_ok_def word_le_nat_alt word_less_nat_alt)
  have n1: "unat (abq_length q + 1) = Suc ?n"
    using lt by (simp add: unat_inc word_less_nat_alt unat_less_suc)
  have t: "unat t = (?h + ?n) mod ?c"
    using assms by (simp add: t_def unat_mod abq_ok_def)
  then have tc: "unat t < ?c"
    using c0 by simp
  then have "unat (t + 1) = Suc (unat t)"
    by (simp add: unat_less_suc word_less_nat_alt)
  then have "unat (t + 1) mod ?c = (?h + Suc ?n) mod ?c"
    using t by (simp add: mod_Suc_eq)
  then have ok: "abq_ok q'"
    using assms lt n1 by (simp add: abq_ok_def q'_def word_le_nat_alt)
  have "abq_list q' = abq_list q @ [x]"
  proof -
    have "(?h + ?n) mod ?c \<noteq> (?h + i) mod ?c" if "i < ?n" for i
      using that lt by (intro not_sym [OF mod_add_neq]) auto
    then show ?thesis
      using assms tc by (auto simp: abq_list_def q'_def n1 t abq_ok_def)
  qed
  then show ?thesis
    using False ok n1 by (auto simp: abq_offer_def Let_def word_unat_eq_iff q'_def t_def)
qed

lemma abq_poll_spec:
  assumes "abq_ok q"
  shows "case abq_list q of [] \<Rightarrow> abq_poll q = None
    | x # xs \<Rightarrow> \<exists>q'. abq_poll q = Some (x, q') \<and> abq_ok q' \<and> abq_list q' = xs
        \<and> abq_capacity q' = abq_capacity q \<and> Suc (unat (abq_length q')) = unat (abq_length q)"
proof (cases "abq_length q = 0")
  case True
  then show ?thesis
    by (simp add: abq_poll_def abq_list_def)
next
  case False
  let ?c = "unat (abq_capacity q)" and ?n = "unat (abq_length q)" and ?h = "unat (head q)"
  define q' where "q' = q\<lparr>head := (head q + 1) mod abq_capacity q, abq_length := abq_length q - 1\<rparr>"
  have n: "unat (abq_length q - 1) = ?n - 1" "0 < ?n"
    using False by (simp_all add: unat_minus_one unat_gt_0)
  have hc: "?h < ?c" and nc: "?n \<le> ?c"
    using assms by (simp_all add: abq_ok_def word_less_nat_alt word_le_nat_alt)
  have "unat (head q + 1) = Suc ?h"
    using hc by (simp add: unat_less_suc word_less_nat_alt)
  then have h': "unat ((head q + 1) mod abq_capacity q) = Suc ?h mod ?c"
    by (simp add: unat_mod)
  have idx: "(Suc ?h mod ?c + i) mod ?c = (?h + Suc i) mod ?c" for i
    by (simp add: mod_add_left_eq)
  have "Suc ?h mod ?c < ?c"
    using hc by simp
  then have "abq_ok q'"
    using assms n nc idx [of "?n - 1"] h'
    by (simp add: abq_ok_def q'_def word_less_nat_alt word_le_nat_alt)
  moreover have "abq_list q = abq_elements q ! ?h # abq_list q'"
  proof -
    have "[0..<?n] = 0 # map Suc [0..<?n - 1]"
      using n(2) by (simp add: upt_conv_Cons map_Suc_upt)
    then show ?thesis
      using hc n by (simp add: abq_list_def q'_def h' idx)
  qed
  ultimately show ?thesis
    using False n by (auto simp: abq_poll_def q'_def)
qed

section \<open>Queue over an array list\<close>

type_synonym 'a ArrayListBlockingQueue = "'a ArrayList"

definition albq_offer :: "'a \<Rightarrow> 'a ArrayListBlockingQueue \<Rightarrow> 'a \<Rightarrow> (bool \<times> 'a ArrayListBlockingQueue) option" where
  "albq_offer d q element = (case al_add d q element of None \<Rightarrow> None | Some q' \<Rightarrow> Some (True, q'))"

definition albq_poll :: "'a ArrayListBlockingQueue \<Rightarrow> ('a \<times> 'a ArrayListBlockingQueue) option" where
  "albq_poll q =
     (if al_length q = 0 then None
      else case al_removeIndex q 0 of Inl e \<Rightarrow> None | Inr r \<Rightarrow> Some r)"

definition albq_peek :: "'a ArrayListBlockingQueue \<Rightarrow> 'a result option" where
  "albq_peek q = (if al_length q = 0 then None else Some (al_get q 0))"

text \<open>The remaining operations are forwarded to the list.\<close>

definition ArrayListBlockingQueue_new :: "'a \<Rightarrow> u32 \<Rightarrow> 'a ArrayListBlockingQueue" where
  "ArrayListBlockingQueue_new d c = ArrayList_withCapacity d c"

definition albq_get :: "'a ArrayListBlockingQueue \<Rightarrow> u32 \<Rightarrow> 'a result" where
  "albq_get q index = al_get q index"

definition albq_add :: "'a \<Rightarrow> 'a ArrayListBlockingQueue \<Rightarrow> 'a \<Rightarrow> 'a ArrayListBlockingQueue option" where
  "albq_add d q element = al_add d q element"

definition albq_addAll :: "'a \<Rightarrow> 'a ArrayListBlockingQueue \<Rightarrow> 'a list \<Rightarrow> 'a ArrayListBlockingQueue option" where
  "albq_addAll d q others = al_addAll d q others"

definition albq_remove :: "'a ArrayListBlockingQueue \<Rightarrow> 'a \<Rightarrow> (bool \<times> 'a ArrayListBlockingQueue) result" where
  "albq_remove q element = al_remove q element"

definition albq_contains :: "'a ArrayListBlockingQueue \<Rightarrow> 'a \<Rightarrow> bool" where
  "albq_contains q element = al_contains q element"

definition albq_containsAll :: "'a ArrayListBlockingQueue \<Rightarrow> 'a list \<Rightarrow> bool" where
  "albq_containsAll q others = al_containsAll q others"

definition albq_clear :: "'a ArrayListBlockingQueue \<Rightarrow> 'a ArrayListBlockingQueue" where
  "albq_clear q = al_clear q"

definition albq_toArray :: "'a \<Rightarrow> 'a ArrayListBlockingQueue \<Rightarrow> 'a list" where
  "albq_toArray d q = al_toArray d q"

section \<open>The queue interface\<close>

text \<open>A client that puts a list of elements into a queue, and one that takes \<open>n\<close> elements out.\<close>

fun offer_list :: "('q \<Rightarrow> 'a \<Rightarrow> (bool \<times> 'q) option) \<Rightarrow> 'q \<Rightarrow> 'a list \<Rightarrow> 'q option" where
  "offer_list offer q [] = Some q"
| "offer_list offer q (x # xs) =
     (case offer q x of Some (True, q') \<Rightarrow> offer_list offer q' xs | _ \<Rightarrow> None)"

fun poll_list :: "('q \<Rightarrow> ('a \<times> 'q) option) \<Rightarrow> nat \<Rightarrow> 'q \<Rightarrow> ('a list \<times> 'q) option" where
  "poll_list poll 0 q = Some ([], q)"
| "poll_list poll (Suc n) q =
     (case poll q of
        None \<Rightarrow> None
      | Some (x, q') \<Rightarrow> (case poll_list poll n q' of None \<Rightarrow> None | Some (xs, q'') \<Rightarrow> Some (x # xs, q'')))"

locale queue_interface =
  fixes offer :: "'q \<Rightarrow> 'a \<Rightarrow> (bool \<times> 'q) option"
    and poll :: "'q \<Rightarrow> ('a \<times> 'q) option"
    and contents :: "'q \<Rightarrow> 'a list"
    and bound :: "'q \<Rightarrow> nat"
    and ok :: "'q \<Rightarrow> bool"
  assumes offer_law: "ok q \<Longrightarrow> length (contents q) < bound q \<Longrightarrow>
      \<exists>q'. offer q x = Some (True, q') \<and> ok q' \<and> contents q' = contents q @ [x] \<and> bound q' = bound q"
    and poll_law: "ok q \<Longrightarrow> contents q = x # xs \<Longrightarrow>
      \<exists>q'. poll q = Some (x, q') \<and> ok q' \<and> contents q' = xs \<and> bound q' = bound q"
    and poll_empty: "ok q \<Longrightarrow> contents q = [] \<Longrightarrow> poll q = None"
begin

lemma offer_list_law:
  "ok q \<Longrightarrow> length (contents q) + length xs \<le> bound q \<Longrightarrow>
   \<exists>q'. offer_list offer q xs = Some q' \<and> ok q' \<and> contents q' = contents q @ xs \<and> bound q' = bound q"
proof (induction xs arbitrary: q)
  case (Cons x xs)
  obtain r where r: "offer q x = Some (True, r)" "ok r" "contents r = contents q @ [x]" "bound r = bound q"
    using offer_law [OF Cons.prems(1), of x] Cons.prems(2) by auto
  then show ?case
    using Cons.IH [of r] Cons.prems(2) by simp
qed simp

lemma poll_list_law:
  "ok q \<Longrightarrow> contents q = xs @ ys \<Longrightarrow>
   \<exists>q'. poll_list poll (length xs) q = Some (xs, q') \<and> ok q' \<and> contents q' = ys \<and> bound q' = bound q"
proof (induction xs arbitrary: q)
  case (Cons x xs)
  obtain r where r: "poll q = Some (x, r)" "ok r" "contents r = xs @ ys" "bound r = bound q"
    using poll_law [OF Cons.prems(1), of x "xs @ ys"] Cons.prems(2) by auto
  then show ?case
    using Cons.IH [of r] by auto
qed simp

lemma fifo:
  assumes "ok q" and "length (contents q) + length xs \<le> bound q"
  shows "\<exists>q' q''. offer_list offer q xs = Some q'
    \<and> poll_list poll (length (contents q) + length xs) q' = Some (contents q @ xs, q'') \<and> poll q'' = None"
  using offer_list_law [OF assms] poll_list_law [where xs = "contents q @ xs" and ys = "[]"] poll_empty
  by (metis append_Nil2 length_append)

end

interpretation abq: queue_interface "\<lambda>q x. Some (abq_offer q x)" abq_poll abq_list
    "\<lambda>q. unat (abq_capacity q)" abq_ok
proof
  fix q :: "'a ArrayBlockingQueue" and x :: 'a and xs
  assume ok: "abq_ok q"
  show "\<exists>q'. Some (abq_offer q x) = Some (True, q') \<and> abq_ok q' \<and> abq_list q' = abq_list q @ [x]
      \<and> unat (abq_capacity q') = unat (abq_capacity q)" if "length (abq_list q) < unat (abq_capacity q)"
    using abq_offer_spec [OF ok, of x] that by auto
  show "\<exists>q'. abq_poll q = Some (x, q') \<and> abq_ok q' \<and> abq_list q' = xs
      \<and> unat (abq_capacity q') = unat (abq_capacity q)" if "abq_list q = x # xs"
    using abq_poll_spec [OF ok] that by auto
  show "abq_poll q = None" if "abq_list q = []"
    using abq_poll_spec [OF ok] that by simp
qed

interpretation albq: queue_interface "albq_offer d" albq_poll al_list "\<lambda>_. 2 ^ 31" al_ok for d
proof
  fix q :: "'a ArrayListBlockingQueue" and x :: 'a and xs
  assume ok: "al_ok q"
  show "\<exists>q'. albq_offer d q x = Some (True, q') \<and> al_ok q' \<and> al_list q' = al_list q @ [x]
      \<and> (2 ^ 31 :: nat) = 2 ^ 31" if "length (al_list q) < 2 ^ 31"
    using al_add_spec [OF ok, of d x] ok that by (auto simp: albq_offer_def)
  show "\<exists>q'. albq_poll q = Some (x, q') \<and> al_ok q' \<and> al_list q' = xs \<and> (2 ^ 31 :: nat) = 2 ^ 31"
    if "al_list q = x # xs"
  proof -
    have "al_length q \<noteq> 0"
      using length_al_list [OF ok] that by auto
    then show ?thesis
      using al_removeIndex_spec [OF ok, of 0] that by (auto simp: albq_poll_def)
  qed
  show "albq_poll q = None" if "al_list q = []"
    using length_al_list [OF ok] that by (simp add: albq_poll_def unat_eq_zero)
qed

text \<open>
  C12. The ring buffer \<open>ArrayBlockingQueue\<close> is first-in first-out across its wrap-around: elements
  offered within the capacity come out of \<open>poll\<close> after the elements already queued and in their
  order, and then the queue is empty (\<open>poll\<close> waits).
\<close>

theorem ring_buffer_fifo:
  assumes "abq_ok q" and "length (abq_list q) + length xs \<le> unat (abq_capacity q)"
  shows "\<exists>q' q''. abq_addAll q xs = Some q' \<and> abq_list q' = abq_list q @ xs
    \<and> poll_list abq_poll (length (abq_list q) + length xs) q' = Some (abq_list q @ xs, q'') \<and> abq_poll q'' = None"
proof -
  have "abq_addAll r ys = offer_list (\<lambda>q x. Some (abq_offer q x)) r ys" for r :: "'a ArrayBlockingQueue" and ys
    by (induction ys arbitrary: r) (auto simp: abq_add_def Let_def split: prod.splits option.splits bool.splits)
  then show ?thesis
    using abq.fifo [OF assms] abq.offer_list_law [OF assms] by auto
qed

theorem ring_buffer_fifo_witness:
  "\<exists>q' q''. abq_addAll (ArrayBlockingQueue_new 0 3) [5, 6, 7 :: u8] = Some q'
    \<and> poll_list abq_poll 3 q' = Some ([5, 6, 7], q'') \<and> abq_poll q'' = None"
proof -
  let ?q = "ArrayBlockingQueue_new (0 :: u8) 3"
  have q: "abq_ok ?q" "abq_list ?q = []" "abq_capacity ?q = 3"
    using abq_new_spec [of 3 "0 :: u8"] by (simp_all add: ArrayBlockingQueue_new_def)
  have len: "length ([] :: u8 list) + length [5, 6, 7 :: u8] = 3" and le: "3 \<le> unat (3 :: u32)"
    by simp_all
  show ?thesis
    using ring_buffer_fifo [OF q(1), of "[5, 6, 7]", unfolded q(2,3) len append_Nil, OF le] by blast
qed

lemma abq_contains_from_spec:
  assumes "i \<le> t" and "unat t \<le> length es"
  shows "abq_contains_from es i t x = Some (x \<in> set (drop (unat i) (take (unat t) es)))"
  using assms
proof (induction es i t x rule: abq_contains_from.induct)
  case (1 es i t x)
  show ?case
  proof (cases "i < t")
    case True
    have i1: "unat (i + 1) = Suc (unat i)" "i + 1 \<le> t"
      using True by (auto intro: unat_less_suc) (simp add: inc_le)
    have lt: "unat i < unat t"
      using True by (simp add: word_less_nat_alt)
    then have "drop (unat i) (take (unat t) es) = es ! unat i # drop (Suc (unat i)) (take (unat t) es)"
      using 1(3) by (simp add: Cons_nth_drop_Suc [symmetric])
    then show ?thesis
      using 1 True lt i1 by (auto simp: abq_contains_from.simps [of es i])
  next
    case False
    then have "i = t"
      using 1(2) by simp
    then show ?thesis
      by (simp add: abq_contains_from.simps [of es t])
  qed
qed

text \<open>
  \<open>contains\<close> of the ring buffer never looks at the newest element: on a queue whose elements
  lie in one piece it answers whether the element is among all but the last.
\<close>

theorem ring_buffer_contains_misses_last:
  assumes "abq_ok q" and "abq_list q \<noteq> []" and "unat (head q) + unat (abq_length q) < unat (abq_capacity q)"
    and "tail q < abq_capacity q"
  shows "abq_contains q x = Some (x \<in> set (butlast (abq_list q)))"
proof -
  let ?c = "unat (abq_capacity q)" and ?n = "unat (abq_length q)" and ?h = "unat (head q)"
  have n: "0 < ?n"
    using assms(2) by (metis length_abq_list length_greater_0_conv)
  have "unat (tail q + 1) = Suc (unat (tail q))"
    using assms(4) by (rule unat_less_suc)
  then have t: "Suc (unat (tail q)) mod ?c = ?h + ?n"
    using assms(1,3) by (simp add: abq_ok_def)
  have tc: "unat (tail q) < ?c"
    using assms(4) by (simp add: word_less_nat_alt)
  have "Suc (unat (tail q)) \<noteq> ?c"
    using t n by auto
  then have tail: "unat (tail q) = ?h + ?n - 1"
    using t tc by simp
  have el: "?c = length (abq_elements q)"
    using assms(1) by (simp add: abq_ok_def)
  have "abq_list q = map (\<lambda>i. abq_elements q ! (?h + i)) [0..<?n]"
    using assms(3) by (simp add: abq_list_def)
  also have "\<dots> = take ?n (drop ?h (abq_elements q))"
    using assms(3) el by (intro nth_equalityI) auto
  finally have "butlast (abq_list q) = take (?n - 1) (drop ?h (abq_elements q))"
    using assms(3) el by (simp add: butlast_take)
  moreover have "drop ?h (take (unat (tail q)) (abq_elements q)) = take (?n - 1) (drop ?h (abq_elements q))"
    using n by (simp add: tail drop_take)
  moreover have "head q \<le> tail q"
    using tail n by (simp add: word_le_nat_alt)
  ultimately show ?thesis
    using abq_contains_from_spec [of "head q" "tail q" "abq_elements q" x] tc el
    by (simp add: abq_contains_def)
qed

theorem ring_buffer_contains_misses_last_witness:
  "abq_list \<lparr>abq_elements = [4, 5, 0 :: u8], abq_capacity = 3, head = 0, tail = 1, abq_length = 2\<rparr> = [4, 5]
   \<and> abq_contains \<lparr>abq_elements = [4, 5, 0 :: u8], abq_capacity = 3, head = 0, tail = 1, abq_length = 2\<rparr> 5
     = Some False"
proof -
  let ?q = "\<lparr>abq_elements = [4, 5, 0 :: u8], abq_capacity = 3, head = 0, tail = 1, abq_length = 2\<rparr>"
  have l: "abq_list ?q = [4, 5]"
    by (simp add: abq_list_def upt_rec)
  then show ?thesis
    using ring_buffer_contains_misses_last [of ?q 5] by (simp add: abq_ok_def)
qed

end
