(* ===== verification/Time_Values.thy ===== *)
theory Time_Values
  imports Prelude "HOL-Library.Signed_Division"
begin

text \<open>
  \<^verbatim>\<open>Util::Time::Timestamp\<close> and \<^verbatim>\<open>Util::Time::Date\<close> (lib/util/time): timestamps of seconds and
  nanoseconds with saturating arithmetic, and calendar dates with their conversion from and to
  Unix time. The comparison operators of \<open>Timestamp\<close> are the order of an instance of
  \<open>linorder\<close>.
\<close>

section \<open>Timestamps\<close>

datatype Timestamp = Timestamp (seconds: u32) (fraction: u32)

abbreviation NANOSECONDS_PER_SECOND :: u32 where "NANOSECONDS_PER_SECOND \<equiv> 1000000000"

definition ofSeconds :: "u32 \<Rightarrow> Timestamp" where
  "ofSeconds s = Timestamp s 0"

definition ofMilliseconds :: "u64 \<Rightarrow> Timestamp" where
  "ofMilliseconds ms = Timestamp (ucast (ms div 1000)) (ucast ((ms mod 1000) * 1000000))"

definition ofMicroseconds :: "u64 \<Rightarrow> Timestamp" where
  "ofMicroseconds us = Timestamp (ucast (us div 1000000)) (ucast ((us mod 1000000) * 1000))"

definition ofNanoseconds :: "u64 \<Rightarrow> Timestamp" where
  "ofNanoseconds ns = Timestamp (ucast (ns div 1000000000)) (ucast (ns mod 1000000000))"

definition ts_add :: "Timestamp \<Rightarrow> Timestamp \<Rightarrow> Timestamp" where
  "ts_add a b =
     (let ret = (if fraction a + fraction b < NANOSECONDS_PER_SECOND
                 then Timestamp (seconds a + seconds b) (fraction a + fraction b)
                 else Timestamp (seconds a + seconds b + 1) (fraction a + fraction b - NANOSECONDS_PER_SECOND))
      in if seconds ret < seconds a then Timestamp UINT32_MAX UINT32_MAX else ret)"

definition ts_sub :: "Timestamp \<Rightarrow> Timestamp \<Rightarrow> Timestamp" where
  "ts_sub a b =
     (let ret = (if fraction a - fraction b < fraction a
                 then Timestamp (seconds a - seconds b) (fraction a - fraction b)
                 else Timestamp (seconds a - seconds b - 1)
                        (NANOSECONDS_PER_SECOND - (fraction b - fraction a)))
      in if seconds a < seconds ret then Timestamp 0 0 else ret)"

definition ts_plusAssign :: "Timestamp \<Rightarrow> Timestamp \<Rightarrow> Timestamp" where
  "ts_plusAssign a b =
     (let ret = (if fraction a + fraction b < NANOSECONDS_PER_SECOND
                 then Timestamp (seconds a + seconds b) (fraction a + fraction b)
                 else Timestamp (seconds a + (seconds b + 1)) (fraction a + fraction b - NANOSECONDS_PER_SECOND))
      in if seconds ret < seconds a then Timestamp UINT32_MAX UINT32_MAX else ret)"

definition ts_minusAssign :: "Timestamp \<Rightarrow> Timestamp \<Rightarrow> Timestamp" where
  "ts_minusAssign a b =
     (let ret = (if fraction a - fraction b < fraction a
                 then Timestamp (seconds a - seconds b) (fraction a - fraction b)
                 else Timestamp (seconds a - (seconds b - 1))
                        (NANOSECONDS_PER_SECOND - (fraction b - fraction a)))
      in if seconds a < seconds ret then Timestamp 0 0 else ret)"

definition ts_greater :: "Timestamp \<Rightarrow> Timestamp \<Rightarrow> bool" where
  "ts_greater a b =
     (if seconds b < seconds a then True else seconds a = seconds b \<and> fraction b < fraction a)"

definition ts_greaterEq :: "Timestamp \<Rightarrow> Timestamp \<Rightarrow> bool" where
  "ts_greaterEq a b =
     (if seconds b < seconds a then True else seconds a = seconds b \<and> fraction b \<le> fraction a)"

definition ts_less :: "Timestamp \<Rightarrow> Timestamp \<Rightarrow> bool" where
  "ts_less a b =
     (if seconds a < seconds b then True else seconds a = seconds b \<and> fraction a < fraction b)"

definition ts_lessEq :: "Timestamp \<Rightarrow> Timestamp \<Rightarrow> bool" where
  "ts_lessEq a b =
     (if seconds a < seconds b then True else seconds a = seconds b \<and> fraction a \<le> fraction b)"

lemmas ts_order_defs = ts_greater_def ts_greaterEq_def ts_less_def ts_lessEq_def

text \<open>\<^verbatim>\<open>operator<\<close> and \<^verbatim>\<open>operator<=\<close> are the order of the type.\<close>

instantiation Timestamp :: linorder
begin

definition less_Timestamp :: "Timestamp \<Rightarrow> Timestamp \<Rightarrow> bool" where
  "a < b \<longleftrightarrow> ts_less a b"

definition less_eq_Timestamp :: "Timestamp \<Rightarrow> Timestamp \<Rightarrow> bool" where
  "a \<le> b \<longleftrightarrow> ts_lessEq a b"

instance
  by standard (auto simp: less_Timestamp_def less_eq_Timestamp_def ts_order_defs Timestamp.expand
      split: if_splits)

end

text \<open>The conversions multiply in 32 bits before the result is widened.\<close>

definition toNanoseconds :: "Timestamp \<Rightarrow> u64" where
  "toNanoseconds t = ucast (seconds t * 1000000000 + fraction t)"

definition toMicroseconds :: "Timestamp \<Rightarrow> u64" where
  "toMicroseconds t = ucast (seconds t * 1000000 + fraction t div 1000)"

definition toMilliseconds :: "Timestamp \<Rightarrow> u64" where
  "toMilliseconds t = ucast (seconds t * 1000 + fraction t div 1000000)"

definition toMinutes :: "Timestamp \<Rightarrow> u32" where
  "toMinutes t = seconds t div 60"

definition toHours :: "Timestamp \<Rightarrow> u32" where
  "toHours t = seconds t div 3600"

definition toDays :: "Timestamp \<Rightarrow> u32" where
  "toDays t = seconds t div 86400"

definition toYears :: "Timestamp \<Rightarrow> u32" where
  "toYears t = seconds t div 31536000"

subsection \<open>Meaning as a number of nanoseconds\<close>

definition nanos :: "Timestamp \<Rightarrow> nat" where
  "nanos t = unat (seconds t) * 1000000000 + unat (fraction t)"

definition normal :: "Timestamp \<Rightarrow> bool" where
  "normal t \<longleftrightarrow> fraction t < NANOSECONDS_PER_SECOND"

lemma nanos_Timestamp [simp]: "nanos (Timestamp s f) = unat s * 1000000000 + unat f"
  by (simp add: nanos_def)

lemma normal_Timestamp [simp]: "normal (Timestamp s f) \<longleftrightarrow> f < NANOSECONDS_PER_SECOND"
  by (simp add: normal_def)

lemma below_max:
  assumes "x \<noteq> (UINT32_MAX :: u32)"
  shows "unat x < 4294967295"
proof -
  have "unat x \<noteq> 4294967295"
    using assms by (simp add: word_unat_eq_iff)
  moreover have "unat x < 4294967296"
    by simp
  ultimately show ?thesis
    by linarith
qed

lemma unat_sub_wrap:
  "unat (x - y :: u32) = (if unat y \<le> unat x then unat x - unat y else 4294967296 + unat x - unat y)"
  by (auto simp: unat_sub_if_size word_size)

lemma unat_add_wrap:
  "unat (x + y :: u32) =
    (if unat x + unat y < 4294967296 then unat x + unat y else unat x + unat y - 4294967296)"
  by (auto simp: unat_plus_if_size word_size)

lemma ts_add_spec:
  assumes "normal a" and "normal b" and "seconds b \<noteq> UINT32_MAX"
  shows "if nanos a + nanos b < 2 ^ 32 * 1000000000
    then normal (ts_add a b) \<and> nanos (ts_add a b) = nanos a + nanos b
    else ts_add a b = Timestamp UINT32_MAX UINT32_MAX"
proof -
  let ?sa = "unat (seconds a)" and ?sb = "unat (seconds b)" and ?fa = "unat (fraction a)" and ?fb = "unat (fraction b)"
  have f: "?fa < 1000000000" "?fb < 1000000000"
    using assms(1,2) by (simp_all add: normal_def word_less_nat_alt)
  then have fs: "unat (fraction a + fraction b) = ?fa + ?fb"
    by (simp add: unat_word_ariths(1))
  have sb: "?sb < 4294967295"
    using assms(3) by (rule below_max)
  have sa: "?sa < 4294967296"
    by simp
  show ?thesis
  proof (cases "?fa + ?fb < 1000000000")
    case True
    have "unat (seconds a + seconds b) = (if ?sa + ?sb < 4294967296 then ?sa + ?sb else ?sa + ?sb - 4294967296)"
      by (rule unat_add_wrap)
    then show ?thesis
      using True f sb fs sa
      by (auto simp: ts_add_def Let_def word_less_nat_alt nanos_def normal_def)
  next
    case False
    have "?sa + ?sb < 8589934591"
      using sa sb by linarith
    then have c: "unat (seconds a + seconds b + 1) =
        (if ?sa + ?sb + 1 < 4294967296 then ?sa + ?sb + 1 else ?sa + ?sb + 1 - 4294967296)"
      by (auto simp: unat_add_wrap)
    have d: "unat (fraction a + fraction b - NANOSECONDS_PER_SECOND) = ?fa + ?fb - 1000000000"
      using False fs by (simp add: unat_sub word_le_nat_alt)
    show ?thesis
      using False f sb fs sa c d
      by (auto simp: ts_add_def Let_def word_less_nat_alt nanos_def normal_def)
  qed
qed

lemma ts_sub_spec:
  assumes "normal a" and "normal b" and "seconds b \<noteq> UINT32_MAX" and "fraction b \<noteq> 0"
  shows "normal (ts_sub a b) \<and> nanos (ts_sub a b) = nanos a - nanos b"
proof -
  let ?sa = "unat (seconds a)" and ?sb = "unat (seconds b)" and ?fa = "unat (fraction a)" and ?fb = "unat (fraction b)"
  have f: "?fa < 1000000000" "?fb < 1000000000" "0 < ?fb"
    using assms(1,2,4) by (simp_all add: normal_def word_less_nat_alt unat_gt_0)
  have sb: "?sb < 4294967295" and sa: "?sa < 4294967296"
    using assms(3) by (rule below_max) simp
  show ?thesis
  proof (cases "?fb \<le> ?fa")
    case True
    then have "fraction a - fraction b < fraction a"
      using f by (simp add: word_less_nat_alt unat_sub_wrap)
    then show ?thesis
      using True f sa sb
      by (auto simp: ts_sub_def Let_def word_less_nat_alt nanos_def normal_def unat_sub_wrap)
  next
    case False
    then have lt: "\<not> fraction a - fraction b < fraction a"
      using f by (simp add: word_less_nat_alt unat_sub_wrap)
    have fr: "unat (NANOSECONDS_PER_SECOND - (fraction b - fraction a)) = 1000000000 + ?fa - ?fb"
      using False f by (simp add: unat_sub_wrap)
    have se: "unat (seconds a - seconds b - 1) =
        (if ?sb < ?sa then ?sa - ?sb - 1 else 4294967295 + ?sa - ?sb)"
      using sa sb by (auto simp: unat_sub_wrap)
    show ?thesis
    proof (cases "?sb < ?sa")
      case True
      then obtain k where k: "?sa = Suc (?sb + k)"
        using less_iff_Suc_add by blast
      have "unat (seconds (ts_sub a b)) = k"
        "unat (fraction (ts_sub a b)) = 1000000000 + ?fa - ?fb"
        using True lt se k fr leD [OF diff_le_self [of ?sa "Suc ?sb"]]
        by (simp_all add: ts_sub_def Let_def word_less_nat_alt)
      then show ?thesis
        using False f k by (auto simp: nanos_def normal_def word_less_nat_alt)
    next
      case ge: False
      then have "nanos a - nanos b = 0"
        using False by (simp add: nanos_def add_le_mono mult_le_mono)
      then show ?thesis
        using False ge lt sb se
        by (auto simp: ts_sub_def Let_def word_less_nat_alt nanos_def normal_def)
    qed
  qed
qed

text \<open>
  C15. Timestamp addition is exact and saturating: for normalised operands (fraction below 10^9)
  the sum is normalised and denotes the sum of the nanoseconds whenever that fits, and is the
  all-ones value otherwise. The only excluded second operands are those whose seconds are
  UINT32_MAX, where the wrap-around test of the code cannot see a full turn. Compound addition
  is the same function.
\<close>

theorem timestamp_add_correct:
  assumes "normal a" and "normal b" and "seconds b \<noteq> UINT32_MAX"
  shows "ts_plusAssign a b = ts_add a b \<and>
    (if nanos a + nanos b < 2 ^ 32 * 1000000000
     then normal (ts_add a b) \<and> nanos (ts_add a b) = nanos a + nanos b
     else ts_add a b = Timestamp UINT32_MAX UINT32_MAX)"
proof
  show "ts_plusAssign a b = ts_add a b"
    by (simp add: ts_plusAssign_def ts_add_def add.assoc)
qed (rule ts_add_spec [OF assms])

theorem timestamp_add_correct_witness:
  "nanos (ts_add (Timestamp 3 600000000) (Timestamp 4 500000000)) = 8100000000 \<and>
   ts_add (Timestamp 4294967290 0) (Timestamp 7 1) = Timestamp UINT32_MAX UINT32_MAX"
  using timestamp_add_correct [of "Timestamp 3 600000000" "Timestamp 4 500000000"]
    timestamp_add_correct [of "Timestamp 4294967290 0" "Timestamp 7 1"]
  by simp

text \<open>
  C16. Timestamp subtraction is exact and stops at zero for normalised operands, provided the
  subtrahend has a non-zero fraction (and seconds other than UINT32_MAX).
\<close>

theorem timestamp_sub_correct:
  assumes "normal a" and "normal b" and "seconds b \<noteq> UINT32_MAX" and "fraction b \<noteq> 0"
  shows "normal (ts_sub a b) \<and> nanos (ts_sub a b) = nanos a - nanos b"
  using ts_sub_spec [OF assms] .

theorem timestamp_sub_correct_witness:
  "nanos (ts_sub (Timestamp 9 5) (Timestamp 3 7)) = 5999999998"
  using timestamp_sub_correct [of "Timestamp 9 5" "Timestamp 3 7"] by simp

text \<open>
  Two defects of timestamp subtraction. Subtracting a timestamp with fraction zero and the
  same seconds always gives zero, whatever the fraction of the minuend is. In the borrow case
  compound subtraction gives two seconds more than subtraction.
\<close>

theorem timestamp_sub_defects:
  assumes "s \<noteq> UINT32_MAX" and "0 < unat f" and "unat f < unat g" and "unat s' < unat s"
  shows "ts_sub (Timestamp s f) (Timestamp s 0) = Timestamp 0 0 \<and>
    (unat s' \<noteq> 0 \<longrightarrow> seconds (ts_minusAssign (Timestamp s f) (Timestamp s' g)) =
       seconds (ts_sub (Timestamp s f) (Timestamp s' g)) + 2)"
proof (intro conjI impI)
  have "(UINT32_MAX :: u32) = - 1"
    by simp
  then have "s < - 1"
    using assms(1) word_order.not_eq_extremum [of s] by metis
  then show "ts_sub (Timestamp s f) (Timestamp s 0) = Timestamp 0 0"
    by (simp add: ts_sub_def Let_def)
next
  assume pos: "unat s' \<noteq> 0"
  have "unat g < 4294967296"
    by simp
  then have "\<not> 4294967296 + unat f - unat g < unat f"
    by linarith
  then have n: "\<not> f - g < f"
    using assms(3) by (simp add: word_less_nat_alt unat_sub_wrap)
  have "unat (s' - 1) = unat s' - 1"
    using pos by (simp add: unat_sub_wrap)
  then have a: "\<not> s < s - (s' - 1)"
    using assms(4) pos by (auto simp: word_less_nat_alt unat_sub_wrap)
  have b: "\<not> s < s - s' - 1"
    using assms(4) pos by (auto simp: word_less_nat_alt unat_sub_wrap)
  show "seconds (ts_minusAssign (Timestamp s f) (Timestamp s' g)) =
      seconds (ts_sub (Timestamp s f) (Timestamp s' g)) + 2"
    using n a b by (simp add: ts_minusAssign_def ts_sub_def Let_def)
qed

theorem timestamp_sub_defects_witness:
  "ts_sub (Timestamp 5 1) (Timestamp 5 0) = Timestamp 0 0 \<and>
   seconds (ts_minusAssign (Timestamp 5 1) (Timestamp 2 2)) = 4"
  using timestamp_sub_defects [of 5 1 2 2] by (simp add: ts_sub_def Let_def)

text \<open>
  The comparison operators agree with the order of the nanoseconds on normalised timestamps,
  and the two "greater" operators are the converses of the two "less" operators. (That they are
  a linear order is the type class instance.)
\<close>

theorem timestamp_order:
  assumes "normal a" and "normal b"
  shows "(ts_less a b \<longleftrightarrow> nanos a < nanos b) \<and> (ts_lessEq a b \<longleftrightarrow> nanos a \<le> nanos b) \<and>
    (ts_greater a b \<longleftrightarrow> ts_less b a) \<and> (ts_greaterEq a b \<longleftrightarrow> ts_lessEq b a)"
proof -
  have lex: "x * 1000000000 + f < y * 1000000000 + g \<longleftrightarrow> x < y \<or> x = y \<and> f < g"
    if "f < 1000000000" "g < 1000000000" for x y f g :: nat
    using that by (cases x y rule: linorder_cases) auto
  have "a < b \<longleftrightarrow> nanos a < nanos b" if "normal a" "normal b" for a b
    using that lex [of "unat (fraction a)" "unat (fraction b)" "unat (seconds a)" "unat (seconds b)"]
    by (auto simp: less_Timestamp_def ts_less_def normal_def nanos_def word_less_nat_alt word_unat_eq_iff)
  from this [OF assms] this [OF assms(2,1)]
  have "(a < b \<longleftrightarrow> nanos a < nanos b) \<and> (a \<le> b \<longleftrightarrow> nanos a \<le> nanos b)"
    by (simp add: not_less [symmetric])
  moreover have "(ts_greater a b \<longleftrightarrow> b < a) \<and> (ts_greaterEq a b \<longleftrightarrow> b \<le> a)"
    by (auto simp: ts_order_defs less_Timestamp_def less_eq_Timestamp_def)
  ultimately show ?thesis
    by (simp add: less_Timestamp_def less_eq_Timestamp_def)
qed

theorem timestamp_order_witness:
  "ts_less (Timestamp 3 999) (Timestamp 4 0) \<and> ts_greaterEq (Timestamp 4 0) (Timestamp 4 0)"
  using timestamp_order [of "Timestamp 3 999" "Timestamp 4 0"] timestamp_order [of "Timestamp 4 0" "Timestamp 4 0"]
  by simp

text \<open>
  Conversion from a 64-bit count of nanoseconds below 2^32 seconds is exact and normalised;
  the way back only returns the count modulo 2^32, because the product is taken in 32 bits.
\<close>

theorem nanoseconds_roundtrip:
  assumes "unat n < 2 ^ 32 * 1000000000"
  shows "normal (ofNanoseconds n) \<and> nanos (ofNanoseconds n) = unat n \<and>
    unat (toNanoseconds (ofNanoseconds n)) = unat n mod 2 ^ 32"
proof -
  have s: "unat (seconds (ofNanoseconds n)) = unat n div 1000000000"
    using assms by (simp add: ofNanoseconds_def unat_ucast_mod unat_div_distrib)
  have f: "unat (fraction (ofNanoseconds n)) = unat n mod 1000000000"
    by (simp add: ofNanoseconds_def unat_ucast_mod unat_mod_distrib)
  have m: "nanos (ofNanoseconds n) = unat n"
    by (simp add: nanos_def s f)
  have "unat (seconds t * 1000000000 + fraction t) = nanos t mod 2 ^ 32" for t
    by (simp add: nanos_def unat_word_ariths mod_simps)
  then have "unat (toNanoseconds (ofNanoseconds n)) = unat n mod 2 ^ 32"
    by (simp add: toNanoseconds_def unat_ucast_mod m)
  then show ?thesis
    by (simp add: m f normal_def word_less_nat_alt)
qed

theorem nanoseconds_roundtrip_witness:
  "toNanoseconds (ofNanoseconds 5000000000) = 705032704"
  using nanoseconds_roundtrip [of 5000000000] by (simp add: word_unat_eq_iff)

section \<open>Dates\<close>

record Date =
  d_seconds :: u8
  d_minutes :: u8
  d_hours :: u8
  d_dayOfMonth :: u8
  d_month :: u8
  d_year :: u16

definition Date_new :: "u8 \<Rightarrow> u8 \<Rightarrow> u8 \<Rightarrow> u8 \<Rightarrow> u8 \<Rightarrow> u16 \<Rightarrow> Date" where
  "Date_new s mi h d mo y =
     \<lparr>d_seconds = s, d_minutes = mi, d_hours = h, d_dayOfMonth = d, d_month = mo, d_year = y\<rparr>"

text \<open>The parameter \<^verbatim>\<open>int16_t year\<close> is a 16-bit word that is read as a signed number.\<close>

definition getLengthOfYear :: "u16 \<Rightarrow> int" where
  "getLengthOfYear year =
     (if sint year mod 4 = 0
      then if sint year mod 100 = 0 then if sint year mod 400 = 0 then 366 else 365 else 366
      else 365)"

definition monthLength :: "int list" where
  "monthLength = [31, 0, 31, 30, 31, 30, 31, 31, 30, 31, 30, 31]"

text \<open>A read outside of the table is undefined behaviour: the value \<open>None\<close>.\<close>

definition getLengthOfMonth :: "u8 \<Rightarrow> u16 \<Rightarrow> int option" where
  "getLengthOfMonth month year =
     (if month = 2 then Some (if getLengthOfYear year = 366 then 29 else 28)
      else if 1 \<le> unat month \<and> unat month \<le> length monthLength then Some (monthLength ! (unat month - 1))
      else None)"

abbreviation secPerDay :: int where "secPerDay \<equiv> 86400"

lemma getLengthOfYear_cases: "getLengthOfYear y = 365 \<or> getLengthOfYear y = 366"
  by (simp add: getLengthOfYear_def)

lemma getLengthOfYear_pos: "365 \<le> getLengthOfYear y"
  by (simp add: getLengthOfYear_def)

lemma month_cases:
  assumes "1 \<le> unat (m :: u8)" and "unat m \<le> 12"
  shows "m \<in> {1, 2, 3, 4, 5, 6, 7, 8, 9, 10, 11, 12}"
proof -
  have "unat m = 1 \<or> unat m = 2 \<or> unat m = 3 \<or> unat m = 4 \<or> unat m = 5 \<or> unat m = 6 \<or> unat m = 7 \<or>
      unat m = 8 \<or> unat m = 9 \<or> unat m = 10 \<or> unat m = 11 \<or> unat m = 12"
    using assms by arith
  then show ?thesis
    by (simp add: word_unat_eq_iff)
qed

lemma getLengthOfMonth_some:
  "1 \<le> unat m \<Longrightarrow> unat m \<le> 12 \<Longrightarrow> \<exists>l. getLengthOfMonth m y = Some l"
  by (simp add: getLengthOfMonth_def monthLength_def)

lemma getLengthOfMonth_bounds:
  assumes "getLengthOfMonth m y = Some l"
  shows "28 \<le> l \<and> l \<le> 31"
proof (cases "m = 2")
  case True
  then show ?thesis
    using assms by (auto simp: getLengthOfMonth_def split: if_splits)
next
  case False
  then have "1 \<le> unat m" "unat m \<le> 12" and l: "l = monthLength ! (unat m - 1)"
    using assms by (auto simp: getLengthOfMonth_def monthLength_def split: if_splits)
  then show ?thesis
    using month_cases [of m] False by (auto simp: monthLength_def)
qed

subsection \<open>The loops of the constructor from Unix time\<close>

function year_loop :: "int \<Rightarrow> u16 \<Rightarrow> int \<times> u16" where
  "year_loop t y =
     (if getLengthOfYear y * secPerDay \<le> t then year_loop (t - getLengthOfYear y * secPerDay) (y + 1)
      else (t, y))"
  by auto
termination
proof (relation "measure (\<lambda>(t, y). nat t)")
  fix t y
  assume "getLengthOfYear y * secPerDay \<le> t"
  then show "((t - getLengthOfYear y * secPerDay, y + 1), (t, y)) \<in> measure (\<lambda>(t, y). nat t)"
    using getLengthOfYear_pos [of y] by simp
qed simp

function month_loop :: "int \<Rightarrow> u8 \<Rightarrow> u16 \<Rightarrow> (int \<times> u8) option" where
  "month_loop t m y =
     (case getLengthOfMonth m y of
        None \<Rightarrow> None
      | Some l \<Rightarrow> if l * secPerDay \<le> t then month_loop (t - l * secPerDay) (m + 1) y else Some (t, m))"
  by auto
termination
proof (relation "measure (\<lambda>(t, m, y). nat t)")
  fix t m y l
  assume "getLengthOfMonth m y = Some l" and "l * secPerDay \<le> t"
  then show "((t - l * secPerDay, m + 1, y), (t, m, y)) \<in> measure (\<lambda>(t, m, y). nat t)"
    using getLengthOfMonth_bounds [of m y l] by simp
qed simp

text \<open>
  The three loops that count days, hours and minutes; the unit \<open>d\<close> is a positive constant at
  each of them.
\<close>

function count_loop :: "int \<Rightarrow> int \<Rightarrow> u8 \<Rightarrow> int \<times> u8" where
  "count_loop d t c = (if 0 < d \<and> d \<le> t then count_loop d (t - d) (c + 1) else (t, c))"
  by auto
termination
  by (relation "measure (\<lambda>(d, t, c). nat t)") auto

declare year_loop.simps [simp del] month_loop.simps [simp del] count_loop.simps [simp del]

definition Date_ofUnixTime :: "int \<Rightarrow> Date option" where
  "Date_ofUnixTime unixTime =
     (if 0 < unixTime
      then let (t1, year) = year_loop unixTime 1970
           in case month_loop t1 1 year of
                None \<Rightarrow> None
              | Some (t2, month) \<Rightarrow>
                  let (t3, day) = count_loop secPerDay t2 1;
                      (t4, hour) = count_loop 3600 t3 0;
                      (t5, minute) = count_loop 60 t4 0
                  in Some \<lparr>d_seconds = word_of_int t5, d_minutes = minute, d_hours = hour,
                           d_dayOfMonth = day, d_month = month, d_year = year\<rparr>
      else Some \<lparr>d_seconds = 0, d_minutes = 0, d_hours = 0, d_dayOfMonth = 1, d_month = 1, d_year = 1970\<rparr>)"

fun add_years :: "nat list \<Rightarrow> int \<Rightarrow> int" where
  "add_years [] ret = ret"
| "add_years (i # is) ret = add_years is (ret + getLengthOfYear (word_of_nat i) * secPerDay)"

fun add_months :: "nat list \<Rightarrow> u16 \<Rightarrow> int \<Rightarrow> int option" where
  "add_months [] year ret = Some ret"
| "add_months (i # is) year ret =
     (case getLengthOfMonth (word_of_nat i) year of
        None \<Rightarrow> None
      | Some l \<Rightarrow> add_months is year (ret + l * secPerDay))"

definition getUnixTime :: "Date \<Rightarrow> int option" where
  "getUnixTime d =
     (if d_year d < 1970 then Some 0
      else case add_months [1..<unat (d_month d)] (d_year d) (add_years [1970..<unat (d_year d)] 0) of
             None \<Rightarrow> None
           | Some ret \<Rightarrow> Some (ret + (uint (d_dayOfMonth d) - 1) * secPerDay + uint (d_hours d) * 3600
                                + uint (d_minutes d) * 60 + uint (d_seconds d)))"

fun add_month_days :: "nat list \<Rightarrow> u16 \<Rightarrow> u16 \<Rightarrow> u16 option" where
  "add_month_days [] year ret = Some ret"
| "add_month_days (i # is) year ret =
     (case getLengthOfMonth (word_of_nat i) year of
        None \<Rightarrow> None
      | Some l \<Rightarrow> add_month_days is year (ret + word_of_int l))"

definition getDayOfYear :: "Date \<Rightarrow> u16 option" where
  "getDayOfYear d =
     (case add_month_days [0..<unat (d_month d)] (d_year d) 0 of
        None \<Rightarrow> None
      | Some ret \<Rightarrow> Some (ret + ucast (d_dayOfMonth d)))"

definition getWeekday :: "Date \<Rightarrow> int option" where
  "getWeekday d =
     (case getUnixTime d of
        None \<Rightarrow> None
      | Some t \<Rightarrow> Some ((3 + sint (word_of_int t :: u32) sdiv secPerDay) smod 7))"

definition getWeekOfYear :: "Date \<Rightarrow> u8 option" where
  "getWeekOfYear d =
     (case (getWeekday (Date_new 0 0 0 1 1 (d_year d)), getDayOfYear d) of
        (Some firstWeekday, Some n) \<Rightarrow> Some (word_of_int ((uint n + firstWeekday) sdiv 7))
      | _ \<Rightarrow> None)"

definition getWeekOfYearSunday :: "Date \<Rightarrow> u8 option" where
  "getWeekOfYearSunday d =
     (case (getWeekday (Date_new 0 0 0 1 1 (d_year d)), getDayOfYear d) of
        (Some w, Some n) \<Rightarrow>
          (let firstWeekday = (if w = 6 then 0 else w + 1)
           in Some (word_of_int ((uint n + firstWeekday) sdiv 7)))
      | _ \<Rightarrow> None)"

subsection \<open>Round trip with Unix time\<close>

definition year_secs :: "u16 \<Rightarrow> int" where
  "year_secs y = add_years [1970..<unat y] 0"

definition month_secs :: "u16 \<Rightarrow> nat \<Rightarrow> int option" where
  "month_secs y m = add_months [1..<m] y 0"

lemma add_years_shift: "add_years is r = r + add_years is 0"
proof (induction "is" arbitrary: r)
  case (Cons i "is")
  show ?case
    using Cons [of "r + getLengthOfYear (word_of_nat i) * secPerDay"]
      Cons [of "getLengthOfYear (word_of_nat i) * secPerDay"] by simp
qed simp

lemma add_years_append: "add_years (is @ js) r = add_years js (add_years is r)"
  by (induction "is" arbitrary: r) simp_all

lemma add_months_shift: "add_months is y r = map_option ((+) r) (add_months is y 0)"
proof (induction "is" arbitrary: r)
  case (Cons i "is")
  have "add_months is y (r + l) = map_option ((+) r) (add_months is y l)" for l
    using Cons [of "r + l"] Cons [of l] by (cases "add_months is y 0") simp_all
  then show ?case
    by (simp split: option.split)
qed simp

lemma add_months_append:
  "add_months (is @ js) y r = Option.bind (add_months is y r) (add_months js y)"
  by (induction "is" arbitrary: r) (simp_all split: option.split)

lemma year_secs_Suc:
  assumes "1970 \<le> unat y" and "unat y < 65535"
  shows "year_secs (y + 1) = year_secs y + getLengthOfYear y * secPerDay"
proof -
  have "unat (y + 1) = Suc (unat y)"
    using assms(2) by (simp add: unat_word_ariths(1))
  then show ?thesis
    using assms(1) by (simp add: year_secs_def add_years_append)
qed

lemma month_secs_Suc:
  assumes "1 \<le> m" and "month_secs y m = Some s" and "getLengthOfMonth (word_of_nat m) y = Some l"
  shows "month_secs y (Suc m) = Some (s + l * secPerDay)"
  using assms by (simp add: month_secs_def add_months_append)

lemma month_secs_year: "month_secs y 13 = Some (getLengthOfYear y * secPerDay)"
proof -
  have "[1..<13] = [1, 2, 3, 4, 5, 6, 7, 8, 9, 10, 11, 12 :: nat]"
    by (simp add: upt_rec)
  then show ?thesis
    using getLengthOfYear_cases [of y]
    by (auto simp: month_secs_def getLengthOfMonth_def monthLength_def)
qed

lemma year_loop_spec:
  assumes "0 \<le> t" and "1970 \<le> unat y" and "int (unat y) * 31536000 + t < 32767 * 31536000"
    and "year_loop t y = (t', y')"
  shows "year_secs y' + t' = year_secs y + t \<and> 0 \<le> t' \<and> t' < getLengthOfYear y' * secPerDay \<and> 1970 \<le> unat y' \<and> unat y' < 32767"
  using assms
proof (induction t y rule: year_loop.induct)
  case (1 t y)
  show ?case
  proof (cases "getLengthOfYear y * secPerDay \<le> t")
    case True
    have y: "unat y < 32767"
      using 1(2,4) by linarith
    have u: "unat (y + 1) = Suc (unat y)"
      using y by (simp add: unat_word_ariths(1))
    have "int (unat (y + 1)) * 31536000 + (t - getLengthOfYear y * secPerDay) < 32767 * 31536000"
      using 1(4) getLengthOfYear_pos [of y] unfolding u by simp
    moreover have "year_loop (t - getLengthOfYear y * secPerDay) (y + 1) = (t', y')"
      using 1(5) True by (simp add: year_loop.simps [of t])
    ultimately show ?thesis
      using 1(1) [OF True] True u 1(3) year_secs_Suc [OF 1(3)] y by simp
  next
    case False
    moreover have "unat y < 32767"
      using 1(2,4) by linarith
    ultimately show ?thesis
      using 1(2,3,5) by (simp add: year_loop.simps [of t])
  qed
qed

lemma month_loop_spec:
  assumes "0 \<le> t" and "1 \<le> unat m" and "unat m \<le> 12"
    and "month_secs y (unat m) = Some s" and "s + t < getLengthOfYear y * secPerDay"
  shows "\<exists>t' m' s' l. month_loop t m y = Some (t', m') \<and> 1 \<le> unat m' \<and> unat m' \<le> 12 \<and>
    month_secs y (unat m') = Some s' \<and> s' + t' = s + t \<and> 0 \<le> t' \<and>
    getLengthOfMonth m' y = Some l \<and> t' < l * secPerDay"
  using assms
proof (induction t m y arbitrary: s rule: month_loop.induct)
  case (1 t m y)
  obtain l where l: "getLengthOfMonth m y = Some l"
    using getLengthOfMonth_some [OF 1(3,4)] by blast
  have nxt: "month_secs y (Suc (unat m)) = Some (s + l * secPerDay)"
    using month_secs_Suc [OF 1(3,5), of l] l by simp
  show ?case
  proof (cases "l * secPerDay \<le> t")
    case True
    have "unat m \<noteq> 12"
    proof
      assume "unat m = 12"
      then have "s + l * secPerDay = getLengthOfYear y * secPerDay"
        using nxt month_secs_year [of y] by simp
      then show False
        using True 1(6) by simp
    qed
    then have m: "unat m < 12"
      using 1(4) by simp
    then have u: "unat (m + 1) = Suc (unat m)"
      by (simp add: unat_word_ariths(1))
    have "month_loop t m y = month_loop (t - l * secPerDay) (m + 1) y"
      using True l by (simp add: month_loop.simps [of t])
    then show ?thesis
      using 1(1) [OF l True, of "s + l * secPerDay"] True m u nxt 1(6) by simp
  next
    case False
    then have "month_loop t m y = Some (t, m)"
      using l by (simp add: month_loop.simps [of t])
    then show ?thesis
      using False l 1(2-6) by (intro exI [of _ t] exI [of _ m] exI [of _ s] exI [of _ l]) simp
  qed
qed

lemma count_loop_spec:
  assumes "0 < d" and "0 \<le> t"
  shows "count_loop d t c = (t mod d, c + word_of_int (t div d))"
  using assms
proof (induction d t c rule: count_loop.induct)
  case (1 d t c)
  show ?case
  proof (cases "d \<le> t")
    case True
    have "t div d = (t - d) div d + 1" "(t - d) mod d = t mod d"
      using 1(2) True by (simp_all add: div_pos_geq)
    then show ?thesis
      using 1(1) True 1(2,3) by (simp add: count_loop.simps [of d t] wi_hom_syms)
  next
    case False
    then show ?thesis
      using 1(2,3) by (simp add: count_loop.simps [of d t] div_pos_pos_trivial mod_pos_pos_trivial)
  qed
qed

text \<open>
  The Gregorian calendar, independent of the code: the leap year rule on unbounded years, the days of
  the months, the number of leap days before a year (477 of them before 1970), and the seconds from
  the first of January 1970 to a date.
\<close>

definition leap :: "int \<Rightarrow> bool" where
  "leap y \<longleftrightarrow> 4 dvd y \<and> (100 dvd y \<longrightarrow> 400 dvd y)"

definition month_days :: "int \<Rightarrow> int list" where
  "month_days y = [31, if leap y then 29 else 28, 31, 30, 31, 30, 31, 31, 30, 31, 30, 31]"

definition leap_days :: "int \<Rightarrow> int" where
  "leap_days y = (y - 1) div 4 - (y - 1) div 100 + (y - 1) div 400 - 477"

definition date_ok :: "Date \<Rightarrow> bool" where
  "date_ok d \<longleftrightarrow> d_seconds d < 60 \<and> d_minutes d < 60 \<and> d_hours d < 24 \<and>
     1 \<le> d_month d \<and> d_month d \<le> 12 \<and> 1970 \<le> d_year d \<and>
     1 \<le> d_dayOfMonth d \<and> uint (d_dayOfMonth d) \<le> month_days (uint (d_year d)) ! (unat (d_month d) - 1)"

definition calendar_secs :: "Date \<Rightarrow> int" where
  "calendar_secs d =
     (365 * (uint (d_year d) - 1970) + leap_days (uint (d_year d))
      + sum_list (take (unat (d_month d) - 1) (month_days (uint (d_year d)))) + (uint (d_dayOfMonth d) - 1)) * secPerDay
     + uint (d_hours d) * 3600 + uint (d_minutes d) * 60 + uint (d_seconds d)"

lemma length_leap:
  assumes "unat y < 32768"
  shows "getLengthOfYear y = (if leap (uint y) then 366 else 365)"
proof -
  have "uint y < 32768" "0 \<le> uint y"
    using assms by (simp_all add: uint_nat del: of_nat_unat)
  then have "sint y = uint y"
    unfolding sint_uint using order_trans [of "- 32768" 0 "uint y"]
    by (intro signed_take_bit_int_eq_self) simp_all
  then show ?thesis
    by (auto simp: getLengthOfYear_def leap_def dvd_eq_mod_eq_0)
qed

lemma leap_days_Suc: "leap_days (y + 1) = leap_days y + (if leap y then 1 else 0)"
proof -
  have step: "y div n - (y - 1) div n = (if n dvd y then 1 else 0)" if "0 < n" for n :: int
  proof (cases "n dvd y")
    case True
    then have "y - 1 = n * (y div n - 1) + (n - 1)"
      by (simp add: algebra_simps)
    then have "(y - 1) div n = y div n - 1"
      using that by (intro int_div_pos_eq [of _ n _ "n - 1"]) simp_all
    then show ?thesis
      using True by simp
  next
    case False
    then have "0 < y mod n" "y mod n < n"
      using pos_mod_sign [OF that, of y] pos_mod_bound [OF that, of y] by (auto simp: dvd_eq_mod_eq_0)
    moreover have "y - 1 = n * (y div n) + (y mod n - 1)"
      by (simp add: algebra_simps)
    ultimately have "(y - 1) div n = y div n"
      by (intro int_div_pos_eq [of _ n _ "y mod n - 1"]) simp_all
    then show ?thesis
      using False by simp
  qed
  have "100 dvd y \<longrightarrow> 4 dvd y" "400 dvd y \<longrightarrow> 100 dvd y"
    using dvd_trans [of 4 100 y] dvd_trans [of 100 400 y] by simp_all
  moreover have "leap_days (y + 1) - leap_days y =
      y div 4 - (y - 1) div 4 - (y div 100 - (y - 1) div 100) + (y div 400 - (y - 1) div 400)"
    unfolding leap_days_def add_diff_cancel_right' by linarith
  then have "leap_days (y + 1) - leap_days y =
      (if 4 dvd y then 1 else 0) - (if 100 dvd y then 1 else 0) + (if 400 dvd y then 1 else 0)"
    by (simp only: step zero_less_numeral)
  ultimately show ?thesis
    by (auto simp: leap_def split: if_splits)
qed

lemma year_secs_calendar:
  assumes "1970 \<le> n" and "n < 32768"
  shows "year_secs (word_of_nat n) = (365 * (int n - 1970) + leap_days (int n)) * secPerDay"
  using assms
proof (induction n rule: nat_induct_at_least)
  case base
  then show ?case
    by (simp add: year_secs_def leap_days_def)
next
  case (Suc n)
  have u: "unat (word_of_nat n :: u16) = n" "uint (word_of_nat n :: u16) = int n"
    using Suc.prems by (simp_all add: unat_of_nat uint_word_of_int_eq take_bit_eq_mod unsigned_of_nat)
  have "year_secs (word_of_nat (Suc n)) = year_secs (word_of_nat n) + getLengthOfYear (word_of_nat n) * secPerDay"
    using year_secs_Suc [of "word_of_nat n"] Suc u by (simp add: add.commute)
  also have "\<dots> = (365 * (int n - 1970) + leap_days (int n) + (if leap (int n) then 366 else 365)) * secPerDay"
    using Suc length_leap [of "word_of_nat n"] u by simp
  also have "\<dots> = (365 * (int (Suc n) - 1970) + leap_days (int (Suc n))) * secPerDay"
    using leap_days_Suc [of "int n"] by (simp add: add.commute)
  finally show ?case .
qed

lemma month_calendar:
  assumes "unat y < 32768" and "1 \<le> unat m" and "unat m \<le> 12"
  shows "getLengthOfMonth m y = Some (month_days (uint y) ! (unat m - 1))"
    and "month_secs y (unat m) = Some (sum_list (take (unat m - 1) (month_days (uint y))) * secPerDay)"
  using month_cases [OF assms(2,3)] length_leap [OF assms(1)]
  by (auto simp: getLengthOfMonth_def monthLength_def month_days_def month_secs_def upt_rec)

lemma date_unix:
  assumes "0 \<le> t" and "t < 2 ^ 39"
  shows "\<exists>d. Date_ofUnixTime t = Some d \<and> date_ok d \<and> calendar_secs d = t \<and> getUnixTime d = Some t"
proof (cases "t = 0")
  case True
  then show ?thesis
    by (simp add: Date_ofUnixTime_def date_ok_def getUnixTime_def calendar_secs_def month_days_def leap_days_def
        word_le_nat_alt)
next
  case False
  obtain t1 y where yl: "year_loop t 1970 = (t1, y)"
    by fastforce
  have y: "year_secs y + t1 = t" "0 \<le> t1" "t1 < getLengthOfYear y * secPerDay" "1970 \<le> unat y" "unat y < 32768"
    using year_loop_spec [OF assms(1) _ _ yl] assms(2) by (simp_all add: year_secs_def)
  obtain t2 m s l where ml: "month_loop t1 1 y = Some (t2, m)" and m: "1 \<le> unat m" "unat m \<le> 12"
    and s: "month_secs y (unat m) = Some s" "s + t2 = t1" and t2: "0 \<le> t2" "t2 < l * secPerDay"
    and l: "getLengthOfMonth m y = Some l"
    using month_loop_spec [of t1 1 y 0] y by (auto simp: month_secs_def)
  define dd where "dd = t2 div secPerDay"
  define t3 where "t3 = t2 mod secPerDay"
  define h where "h = t3 div 3600"
  define t4 where "t4 = t3 mod 3600"
  define mi where "mi = t4 div 60"
  define se where "se = t4 mod 60"
  have t34: "0 \<le> t3" "t3 < secPerDay" "0 \<le> t4" "t4 < 3600"
    by (simp_all add: t3_def t4_def)
  have sum: "dd * secPerDay + t3 = t2" "h * 3600 + t4 = t3" "mi * 60 + se = t4"
    unfolding dd_def t3_def h_def t4_def mi_def se_def by (rule div_mult_mod_eq)+
  have "0 \<le> se" "se < 60"
    by (simp_all add: se_def)
  with sum t34 t2 have r: "0 \<le> dd" "dd < l" "0 \<le> h" "h < 24" "0 \<le> mi" "mi < 60" "0 \<le> se" "se < 60"
    by linarith+
  have loops: "count_loop secPerDay t2 1 = (t3, 1 + word_of_int dd)"
    "count_loop 3600 t3 0 = (t4, word_of_int h)" "count_loop 60 t4 0 = (se, word_of_int mi)"
    unfolding dd_def t3_def h_def t4_def mi_def se_def using t2 by (simp_all add: count_loop_spec)
  let ?date = "\<lparr>d_seconds = word_of_int se, d_minutes = word_of_int mi, d_hours = word_of_int h,
    d_dayOfMonth = 1 + word_of_int dd, d_month = m, d_year = y\<rparr>"
  have l31: "l \<le> 31"
    using getLengthOfMonth_bounds [OF l] by simp
  have u: "uint (word_of_int x :: u8) = x" if "0 \<le> x" "x < 60" for x
    using that by (simp add: uint_word_of_int_eq take_bit_int_eq_self)
  have dw: "(1 :: u8) + word_of_int dd = word_of_int (dd + 1)"
    by (simp add: wi_hom_syms)
  have f: "uint (1 + word_of_int dd :: u8) = dd + 1" "uint (word_of_int h :: u8) = h"
    "uint (word_of_int mi :: u8) = mi" "uint (word_of_int se :: u8) = se"
    unfolding dw by (rule u; use r l31 in linarith)+
  have of: "Date_ofUnixTime t = Some ?date"
    using False assms(1) yl ml loops by (simp add: Date_ofUnixTime_def)
  have "add_months [1..<unat m] y (year_secs y) = Some (year_secs y + s)"
    using add_months_shift [of "[1..<unat m]" y "year_secs y"] s(1) by (simp add: month_secs_def)
  then have "getUnixTime ?date =
      Some (year_secs y + s + dd * secPerDay + h * 3600 + mi * 60 + se)"
    using y(4) f by (simp add: getUnixTime_def word_less_nat_alt year_secs_def)
  moreover have "year_secs y + s + dd * secPerDay + h * 3600 + mi * 60 + se = t"
    using y(1) s(2) sum by linarith
  ultimately have "getUnixTime ?date = Some t"
    by (simp only:)
  moreover have "date_ok ?date"
    using r f l m y(4) month_calendar(1) [OF y(5) m] by (simp add: date_ok_def word_less_def word_le_def [of _ "_ + _"]
        word_le_nat_alt [of 1 m] word_le_nat_alt [of m 12] word_le_nat_alt [of _ y])
  moreover have "calendar_secs ?date = t"
  proof -
    have "year_secs y = (365 * (uint y - 1970) + leap_days (uint y)) * secPerDay"
      using year_secs_calendar [OF y(4,5)] by simp
    moreover have "s = sum_list (take (unat m - 1) (month_days (uint y))) * secPerDay"
      using month_calendar(2) [OF y(5) m] s(1) by simp
    ultimately show ?thesis
      using y(1) s(2) sum f by (simp add: calendar_secs_def distrib_right)
  qed
  ultimately show ?thesis
    using of by blast
qed

text \<open>
  C14. Every Unix time from 0 to 2^39 - 1 (years 1970 to 19391) is turned into the right date of the
  Gregorian calendar, without a read outside of the month table: seconds, minutes, hours, month and
  day are in the ranges of the calendar, leap years included, and the date is the given number of
  seconds after the first of January 1970. Converting the date back returns the same Unix time.
\<close>

theorem date_roundtrip:
  assumes "0 \<le> t" and "t < 2 ^ 39"
  shows "\<exists>d. Date_ofUnixTime t = Some d \<and> date_ok d \<and> calendar_secs d = t \<and> getUnixTime d = Some t"
  using date_unix [OF assms] .

theorem date_roundtrip_witness:
  "\<exists>d. Date_ofUnixTime 951825600 = Some d \<and> date_ok d \<and> calendar_secs d = 951825600 \<and> getUnixTime d = Some 951825600"
  using date_roundtrip [of 951825600] by simp

text \<open>
  The weekday of the date of a Unix time below 2^31 advances by one with each day, starting
  with Thursday (3) on the first of January 1970.
\<close>

theorem weekday_correct:
  assumes "0 \<le> t" and "t < 2 ^ 31"
  shows "Option.bind (Date_ofUnixTime t) getWeekday = Some ((3 + t div secPerDay) mod 7)"
proof -
  obtain d where d: "Date_ofUnixTime t = Some d" "getUnixTime d = Some t"
    using date_unix [of t] assms by auto
  have "sint (word_of_int t :: u32) = t"
    using assms by (simp add: signed_of_int signed_take_bit_int_eq_self)
  moreover have "0 \<le> t div secPerDay"
    using assms(1) by (simp add: pos_imp_zdiv_nonneg_iff)
  then have "0 < 3 + t div secPerDay"
    by linarith
  ultimately show ?thesis
    using d assms(1) by (simp add: getWeekday_def signed_divide_int_def signed_modulo_int_def sgn_if abs_if)
qed

theorem weekday_correct_witness:
  "Option.bind (Date_ofUnixTime 951825600) getWeekday = Some 1"
  using weekday_correct [of 951825600] by simp

text \<open>
  The day of the year is undefined for every date with a month: the loop starts with month
  zero, whose length is read in front of the table. The week numbers inherit this.
\<close>

theorem day_of_year_undefined:
  assumes "1 \<le> d_month d"
  shows "getDayOfYear d = None \<and> getWeekOfYear d = None \<and> getWeekOfYearSunday d = None"
proof -
  have "0 < unat (d_month d)"
    using assms by (simp add: word_le_nat_alt)
  then have "getDayOfYear d = None"
    by (simp add: getDayOfYear_def upt_rec [of 0] getLengthOfMonth_def)
  then show ?thesis
    by (simp add: getWeekOfYear_def getWeekOfYearSunday_def split: option.split)
qed

theorem day_of_year_undefined_witness:
  "getDayOfYear (Date_new 0 0 0 1 1 2024) = None"
  using day_of_year_undefined [of "Date_new 0 0 0 1 1 2024"] by (simp add: Date_new_def)

end
