(* ===== verification/Strings.thy ===== *)
theory Strings
  imports Arrays
begin

text \<open>
  \<^verbatim>\<open>Util::String\<close> (lib/util/base/String.cpp) and the character classes of
  \<^verbatim>\<open>CharacterTypes.cpp\<close>. A string owns a buffer of \<open>len + 1\<close> characters that ends in a zero
  byte; the buffer is a separate allocation, so it is modelled by the list of its bytes. A
  \<^verbatim>\<open>const char*\<close> argument is the list of the bytes from the pointer on, terminator included.
  The local \<^verbatim>\<open>ArrayList\<close> in which \<^verbatim>\<open>split\<close> collects its results is a list.
\<close>

section \<open>Construction\<close>

record Str =
  s_buffer :: "u8 list"
  s_len :: u32

definition Str_new :: Str where
  "Str_new = \<lparr>s_buffer = [0], s_len = 0\<rparr>"

definition Str_ofChar :: "u8 \<Rightarrow> Str" where
  "Str_ofChar c = \<lparr>s_buffer = [c, 0], s_len = 1\<rparr>"

definition Str_ofData :: "u8 list \<Rightarrow> u32 \<Rightarrow> Str" where
  "Str_ofData data n = \<lparr>s_buffer = take (unat n) data @ [0], s_len = n\<rparr>"

text \<open>\<open>None\<close> is the null pointer.\<close>

definition Str_ofCString :: "u8 list option \<Rightarrow> Str" where
  "Str_ofCString string =
     (case string of
        None \<Rightarrow> \<lparr>s_buffer = [0], s_len = 0\<rparr>
      | Some cs \<Rightarrow> (let s = takeWhile (\<lambda>c. c \<noteq> 0) cs in \<lparr>s_buffer = s @ [0], s_len = of_nat (length s)\<rparr>))"

definition Str_copy :: "Str \<Rightarrow> Str" where
  "Str_copy other = \<lparr>s_buffer = take (unat (s_len other)) (s_buffer other) @ [0], s_len = s_len other\<rparr>"

definition str_assign :: "Str \<Rightarrow> Str" where
  "str_assign other = \<lparr>s_buffer = take (unat (s_len other) + 1) (s_buffer other), s_len = s_len other\<rparr>"

text \<open>The appended string is another object than the extended one.\<close>

definition str_append :: "Str \<Rightarrow> Str \<Rightarrow> Str" where
  "str_append s other =
     \<lparr>s_buffer = take (unat (s_len s)) (s_buffer s) @ take (unat (s_len other) + 1) (s_buffer other),
      s_len = s_len s + s_len other\<rparr>"

definition str_plus :: "Str \<Rightarrow> Str \<Rightarrow> Str" where
  "str_plus first second = str_append (Str_copy first) second"

definition hashCode :: "Str \<Rightarrow> u32" where
  "hashCode s = fold (\<lambda>c hash. hash + scast c) (take (unat (s_len s)) (s_buffer s)) 0"

definition str_eq :: "Str \<Rightarrow> Str \<Rightarrow> bool" where
  "str_eq s t \<longleftrightarrow> takeWhile (\<lambda>c. c \<noteq> 0) (s_buffer s) = takeWhile (\<lambda>c. c \<noteq> 0) (s_buffer t)"

section \<open>Searching and cutting\<close>

definition substring :: "Str \<Rightarrow> u32 \<Rightarrow> u32 \<Rightarrow> Str" where
  "substring s begin end' =
     (if end' < begin \<or> s_len s \<le> begin then Str_ofCString (Some [0])
      else let e = (if s_len s < end' then s_len s else end');
               newLength = e - begin;
               newBuffer = take (unat newLength) (drop (unat begin) (s_buffer s)) @ [0]
           in Str_ofCString (Some newBuffer))"

definition str_isEmpty :: "Str \<Rightarrow> bool" where
  "str_isEmpty s = (s_len s = 0)"

function indexOf_char_from :: "Str \<Rightarrow> u8 \<Rightarrow> u32 \<Rightarrow> u32" where
  "indexOf_char_from s character i =
     (if i < s_len s
      then if s_buffer s ! unat i = character then i else indexOf_char_from s character (i + 1)
      else UINT32_MAX)"
  by auto
termination
  by (relation "measure (\<lambda>(s, c, i). unat (s_len s) - unat i)") (auto simp: word_nat word_less_nat_alt)

definition indexOf_char :: "Str \<Rightarrow> u8 \<Rightarrow> u32 \<Rightarrow> u32" where
  "indexOf_char s character start = indexOf_char_from s character start"

definition str_contains :: "Str \<Rightarrow> u8 \<Rightarrow> bool" where
  "str_contains s c = (indexOf_char s c 0 < UINT32_MAX)"

text \<open>
  The inner loop of the substring search, from \<open>j\<close> on: \<open>None\<close> is the early return, otherwise
  the value of \<open>j\<close> after the loop. The outer loop keeps \<open>j\<close> from one position to the next.
\<close>

function match_from :: "Str \<Rightarrow> Str \<Rightarrow> u32 \<Rightarrow> u32 \<Rightarrow> u32 option" where
  "match_from s other i j =
     (if j < s_len other
      then if s_len s \<le> i + j then None
           else if s_buffer s ! unat (i + j) \<noteq> s_buffer other ! unat j then Some j
           else match_from s other i (j + 1)
      else Some j)"
  by auto
termination
  by (relation "measure (\<lambda>(s, other, i, j). unat (s_len other) - unat j)") (auto simp: word_nat word_less_nat_alt)

function indexOf_from_j :: "Str \<Rightarrow> Str \<Rightarrow> u32 \<Rightarrow> u32 \<Rightarrow> u32" where
  "indexOf_from_j s other i j =
     (if i < s_len s
      then case (if s_buffer s ! unat i = s_buffer other ! 0 then match_from s other i 1 else Some j) of
             None \<Rightarrow> UINT32_MAX
           | Some j \<Rightarrow> if j = s_len other then i else indexOf_from_j s other (i + 1) j
      else UINT32_MAX)"
  by auto
termination
  by (relation "measure (\<lambda>(s, other, i, j). unat (s_len s) - unat i)") (auto simp: word_nat word_less_nat_alt)

definition str_indexOf :: "Str \<Rightarrow> Str \<Rightarrow> u32 \<Rightarrow> u32" where
  "str_indexOf s other start = indexOf_from_j s other start 0"

declare indexOf_char_from.simps [simp del] match_from.simps [simp del] indexOf_from_j.simps [simp del]

partial_function (option) split_from :: "Str \<Rightarrow> Str \<Rightarrow> u32 \<Rightarrow> u32 \<Rightarrow> u32 \<Rightarrow> Str list \<Rightarrow> Str list option" where
  [code]: "split_from s delimiter limit start end' result =
     (if end' \<noteq> UINT32_MAX \<and> of_nat (length result) + 1 \<noteq> limit
      then let element = str_assign (substring s start end');
               result = (if \<not> str_isEmpty element then result @ [element] else result);
               start = end' + s_len delimiter
           in split_from s delimiter limit start (str_indexOf s delimiter start) result
      else let element = str_assign (substring s start (s_len s))
           in Some (if \<not> str_isEmpty element then result @ [element] else result))"

definition str_split :: "Str \<Rightarrow> Str \<Rightarrow> u32 \<Rightarrow> Str list option" where
  "str_split s delimiter limit =
     (if s_len s = 0 then Some []
      else split_from s delimiter limit 0 (str_indexOf s delimiter 0) [])"

definition str_remove :: "Str \<Rightarrow> Str \<Rightarrow> Str" where
  "str_remove s string =
     (let index = str_indexOf s string 0
      in if index = UINT32_MAX then Str_ofCString (Some (s_buffer s))
         else str_plus (substring s 0 index) (substring s (index + s_len string) (s_len s)))"

definition str_removeAll :: "Str \<Rightarrow> Str \<Rightarrow> Str option" where
  "str_removeAll s string =
     map_option (\<lambda>tokens. fold (\<lambda>token tmp. str_append tmp token) tokens Str_new) (str_split s string 0)"

definition str_beginsWith :: "Str \<Rightarrow> Str \<Rightarrow> bool" where
  "str_beginsWith s string = str_eq (substring s 0 (s_len string)) string"

definition str_endsWith :: "Str \<Rightarrow> Str \<Rightarrow> bool" where
  "str_endsWith s string = str_eq (substring s (s_len s - s_len string) (s_len s)) string"

text \<open>The elements are read through the bounds-checked operator of \<^verbatim>\<open>Util::Array\<close>.\<close>

function join_from :: "Str \<Rightarrow> Str list \<Rightarrow> u32 \<Rightarrow> u32 \<Rightarrow> Str \<Rightarrow> Str result" where
  "join_from separator elements n i tmp =
     (if i < n
      then res_bind (arr_get elements i) (\<lambda>e.
             join_from separator elements n (i + 1) (str_append tmp (str_plus e separator)))
      else Inr tmp)"
  by auto
termination
  by (relation "measure (\<lambda>(sep, es, n, i, tmp). unat n - unat i)") (auto simp: word_nat word_less_nat_alt)

declare join_from.simps [simp del]

definition str_join :: "Str \<Rightarrow> Str list \<Rightarrow> Str result" where
  "str_join separator elements =
     (let size = arr_length elements
      in res_bind (join_from separator elements (size - 1) 0 (Str_ofCString (Some [0]))) (\<lambda>tmp.
         res_bind (arr_get elements (size - 1)) (\<lambda>e. Inr (str_append tmp e))))"

section \<open>Characters\<close>

text \<open>A \<^verbatim>\<open>char\<close> is signed.\<close>

definition isAlpha :: "u8 \<Rightarrow> bool" where
  "isAlpha c \<longleftrightarrow> (65 \<le> sint c \<and> sint c \<le> 90) \<or> (97 \<le> sint c \<and> sint c \<le> 122)"

definition isNumeric :: "u8 \<Rightarrow> bool" where
  "isNumeric c \<longleftrightarrow> 48 \<le> sint c \<and> sint c \<le> 57"

definition toUpperCase :: "Str \<Rightarrow> Str" where
  "toUpperCase s =
     (let tmp = Str_copy s; n = unat (s_len s)
      in tmp\<lparr>s_buffer := map (\<lambda>c. if isAlpha c then if sint c \<le> 90 then c else c - 32 else c) (take n (s_buffer tmp))
               @ drop n (s_buffer tmp)\<rparr>)"

definition toLowerCase :: "Str \<Rightarrow> Str" where
  "toLowerCase s =
     (let tmp = Str_copy s; n = unat (s_len s)
      in tmp\<lparr>s_buffer := map (\<lambda>c. if isAlpha c then if 97 \<le> sint c then c else c + 32 else c) (take n (s_buffer tmp))
               @ drop n (s_buffer tmp)\<rparr>)"

definition blank :: "u8 \<Rightarrow> bool" where
  "blank element \<longleftrightarrow> \<not> (element \<noteq> 9 \<and> element \<noteq> 10 \<and> element \<noteq> 32)"

text \<open>
  The two loops of \<^verbatim>\<open>strip\<close>. The first one stops at the first character that is not blank and
  tells whether it is the last one; the second one walks down and may leave the buffer, which is
  \<open>None\<close>.
\<close>

function strip_start :: "Str \<Rightarrow> u32 \<Rightarrow> u32 \<times> bool" where
  "strip_start s i =
     (if i < s_len s
      then if \<not> blank (s_buffer s ! unat i) then (i, i = s_len s - 1) else strip_start s (i + 1)
      else (i, False))"
  by auto
termination
  by (relation "measure (\<lambda>(s, i). unat (s_len s) - unat i)") (auto simp: word_nat word_less_nat_alt)

function strip_end :: "Str \<Rightarrow> u32 \<Rightarrow> u32 \<Rightarrow> u32 option" where
  "strip_end s startIndex i =
     (if startIndex < i
      then if length (s_buffer s) \<le> unat i then None
           else if \<not> blank (s_buffer s ! unat i) then Some i
           else strip_end s startIndex (i - 1)
      else Some i)"
  by auto
termination
proof (relation "measure (\<lambda>(s, startIndex, i). unat i)")
  fix s :: Str and startIndex i :: u32
  assume "startIndex < i"
  then have "i \<noteq> 0"
    by auto
  then show "((s, startIndex, i - 1), (s, startIndex, i)) \<in> measure (\<lambda>(s, startIndex, i). unat i)"
    by (simp add: unat_minus_one unat_gt_0)
qed simp

declare strip_start.simps [simp del] strip_end.simps [simp del]

definition strip :: "Str \<Rightarrow> Str option" where
  "strip s =
     (case strip_start s 0 of (startIndex, single) \<Rightarrow>
        if single then Some (Str_ofChar (s_buffer s ! unat startIndex))
        else case strip_end s startIndex (s_len s - 1) of
               None \<Rightarrow> None
             | Some endIndex \<Rightarrow>
                 Some (if startIndex = endIndex \<and> 1 < s_len s then Str_ofCString (Some [0])
                       else substring s startIndex (endIndex + 1)))"

section \<open>Numbers\<close>

text \<open>
  The digits are visited from the last to the first, so the loops run over the reversed text;
  signed overflow is written as wrap-around in 32 bits.
\<close>

fun parse_digits :: "u8 list \<Rightarrow> u32 \<Rightarrow> u32 \<Rightarrow> u32" where
  "parse_digits [] j result = result"
| "parse_digits (c # cs) j result =
     (if isNumeric c then parse_digits cs (j * 10) (result + (scast c - 48) * j)
      else parse_digits cs j result)"

definition parseInt :: "u8 list \<Rightarrow> u32" where
  "parseInt string =
     (let s = takeWhile (\<lambda>c. c \<noteq> 0) string
      in if s \<noteq> [] \<and> hd s = 45 then parse_digits (rev (drop 1 s)) 1 0 * - 1
         else parse_digits (rev s) 1 0 * 1)"

fun parse_hex_digits :: "u8 list \<Rightarrow> u32 \<Rightarrow> u32 \<Rightarrow> u32" where
  "parse_hex_digits [] j result = result"
| "parse_hex_digits (c # cs) j result =
     (if isNumeric c then parse_hex_digits cs (j * 16) (result + (scast c - 48) * j)
      else if 65 \<le> sint c \<and> sint c \<le> 70 then parse_hex_digits cs (j * 16) (result + (10 + scast c - 65) * j)
      else if 97 \<le> sint c \<and> sint c \<le> 102 then parse_hex_digits cs (j * 16) (result + (10 + scast c - 97) * j)
      else parse_hex_digits cs j result)"

definition parseHexInt :: "u8 list \<Rightarrow> u32" where
  "parseHexInt string = parse_hex_digits (rev (takeWhile (\<lambda>c. c \<noteq> 0) string)) 1 0"

section \<open>Character classes\<close>

definition isAlphaNumeric :: "int \<Rightarrow> bool" where
  "isAlphaNumeric c \<longleftrightarrow> (48 \<le> c \<and> c \<le> 57) \<or> (65 \<le> c \<and> c \<le> 90) \<or> (97 \<le> c \<and> c \<le> 122)"

definition isAlphabet :: "int \<Rightarrow> bool" where
  "isAlphabet c \<longleftrightarrow> (65 \<le> c \<and> c \<le> 90) \<or> (97 \<le> c \<and> c \<le> 122)"

definition isLower :: "int \<Rightarrow> bool" where
  "isLower c \<longleftrightarrow> 97 \<le> c \<and> c \<le> 122"

definition isUpper :: "int \<Rightarrow> bool" where
  "isUpper c \<longleftrightarrow> 65 \<le> c \<and> c \<le> 90"

definition isDigit :: "int \<Rightarrow> bool" where
  "isDigit c \<longleftrightarrow> 48 \<le> c \<and> c \<le> 57"

definition isHexDigit :: "int \<Rightarrow> bool" where
  "isHexDigit c \<longleftrightarrow> (48 \<le> c \<and> c \<le> 57) \<or> (65 \<le> c \<and> c \<le> 70) \<or> (97 \<le> c \<and> c \<le> 102)"

definition isControl :: "int \<Rightarrow> bool" where
  "isControl c \<longleftrightarrow> (0 \<le> c \<and> c \<le> 31) \<or> c = 127"

definition isGraphical :: "int \<Rightarrow> bool" where
  "isGraphical c \<longleftrightarrow> 33 \<le> c \<and> c \<le> 126"

definition isWhitespace :: "int \<Rightarrow> bool" where
  "isWhitespace c \<longleftrightarrow> (9 \<le> c \<and> c \<le> 13) \<or> c = 32"

definition isBlank :: "int \<Rightarrow> bool" where
  "isBlank c \<longleftrightarrow> c = 9 \<or> c = 32"

definition isPrintable :: "int \<Rightarrow> bool" where
  "isPrintable c \<longleftrightarrow> 32 \<le> c \<and> c \<le> 126"

definition isPunctuation :: "int \<Rightarrow> bool" where
  "isPunctuation c \<longleftrightarrow> (33 \<le> c \<and> c \<le> 47) \<or> (58 \<le> c \<and> c \<le> 64) \<or> (91 \<le> c \<and> c \<le> 96) \<or> (123 \<le> c \<and> c \<le> 126)"

section \<open>Strings as lists of bytes\<close>

text \<open>
  \<open>Str_of a\<close> is the string object that holds the bytes \<open>a\<close>. On such objects the operations are
  operations on lists.
\<close>

definition Str_of :: "u8 list \<Rightarrow> Str" where
  "Str_of a = \<lparr>s_buffer = a @ [0], s_len = of_nat (length a)\<rparr>"

lemma Str_of_sel [simp]: "s_buffer (Str_of a) = a @ [0]" "s_len (Str_of a) = of_nat (length a)"
  by (simp_all add: Str_of_def)

lemma takeWhile_clean: "0 \<notin> set a \<Longrightarrow> takeWhile (\<lambda>c. c \<noteq> 0) (a @ 0 # r) = a" for a :: "u8 list"
  by (induction a) auto

lemma Str_ofCString_of [simp]: "0 \<notin> set a \<Longrightarrow> Str_ofCString (Some (a @ 0 # r)) = Str_of a"
  by (simp add: Str_ofCString_def takeWhile_clean Str_of_def)

lemma Str_ofCString_Nil [simp]: "Str_ofCString (Some (0 # r)) = Str_of []"
  by (simp add: Str_ofCString_def Str_of_def)

lemma Str_copy_of [simp]: "length a < 2 ^ 32 \<Longrightarrow> Str_copy (Str_of a) = Str_of a"
  by (simp add: Str_copy_def Str_of_def)

lemma str_assign_of [simp]: "length a < 2 ^ 32 \<Longrightarrow> str_assign (Str_of a) = Str_of a"
  by (simp add: str_assign_def Str_of_def)

lemma str_append_of [simp]:
  "length a < 2 ^ 32 \<Longrightarrow> length b < 2 ^ 32 \<Longrightarrow> str_append (Str_of a) (Str_of b) = Str_of (a @ b)"
  by (simp add: str_append_def Str_of_def)

lemma str_plus_of [simp]:
  "length a < 2 ^ 32 \<Longrightarrow> length b < 2 ^ 32 \<Longrightarrow> str_plus (Str_of a) (Str_of b) = Str_of (a @ b)"
  by (simp add: str_plus_def)

lemma str_isEmpty_of [simp]: "length a < 2 ^ 32 \<Longrightarrow> str_isEmpty (Str_of a) \<longleftrightarrow> a = []"
  by (simp add: str_isEmpty_def word_unat_eq_iff)

lemma str_eq_of [simp]: "0 \<notin> set a \<Longrightarrow> 0 \<notin> set b \<Longrightarrow> str_eq (Str_of a) (Str_of b) \<longleftrightarrow> a = b"
  by (simp add: str_eq_def takeWhile_clean)

lemma substring_of:
  assumes "length a < 2 ^ 32" and "0 \<notin> set a"
  shows "substring (Str_of a) b e = Str_of (take (unat e - unat b) (drop (unat b) a))"
proof (cases "e < b \<or> of_nat (length a) \<le> b")
  case True
  then have nil: "take (unat e - unat b) (drop (unat b) a) = []"
    using assms(1) by (auto simp: word_less_nat_alt word_le_nat_alt)
  show ?thesis
    unfolding nil using True by (simp add: substring_def)
next
  case False
  define e' where "e' = (if of_nat (length a) < e then of_nat (length a) else e :: u32)"
  have b: "unat b < length a" "unat b \<le> unat e"
    using False assms(1) by (auto simp: word_less_nat_alt word_le_nat_alt)
  have "unat e' = min (length a) (unat e)"
    using assms(1) by (auto simp: e'_def word_less_nat_alt)
  moreover from this have "unat (e' - b) = unat e' - unat b"
    using b by (intro unat_sub) (simp add: word_le_nat_alt)
  ultimately have "unat (e' - b) = min (length a) (unat e) - unat b"
    by simp
  then have eq: "take (unat (e' - b)) (drop (unat b) (a @ [0])) = take (unat e - unat b) (drop (unat b) a)"
    using b by (auto simp: min_def)
  have "0 \<notin> set (take (unat e - unat b) (drop (unat b) a))"
    using assms(2) by (meson in_set_dropD in_set_takeD)
  moreover have "substring (Str_of a) b e =
      Str_ofCString (Some (take (unat (e' - b)) (drop (unat b) (a @ [0])) @ [0]))"
    using False by (simp add: substring_def Let_def e'_def del: take_append drop_append)
  ultimately show ?thesis
    unfolding eq by simp
qed

subsection \<open>Search\<close>

definition occurs :: "'a list \<Rightarrow> 'a list \<Rightarrow> nat \<Rightarrow> bool" where
  "occurs a b i \<longleftrightarrow> take (length b) (drop i a) = b"

lemma occurs_iff:
  "occurs a b i \<longleftrightarrow> length b \<le> length a - i \<and> (\<forall>m < length b. a ! (i + m) = b ! m)"
proof (cases "i \<le> length a")
  case True
  then show ?thesis
    by (auto simp: occurs_def list_eq_iff_nth_eq)
next
  case False
  then show ?thesis
    by (auto simp: occurs_def)
qed

lemma match_from_spec:
  assumes "length a < 2 ^ 32" and "i + length b < 2 ^ 32" and "j \<le> length b"
  shows "case match_from (Str_of a) (Str_of b) (of_nat i) (of_nat j) of
      None \<Rightarrow> length a < i + length b
    | Some k \<Rightarrow> unat k = length b \<and> (\<forall>m. j \<le> m \<longrightarrow> m < length b \<longrightarrow> i + m < length a \<and> a ! (i + m) = b ! m) \<or>
        unat k < length b \<and> (\<exists>m < length b. i + m < length a \<and> a ! (i + m) \<noteq> b ! m)"
  using assms(3)
proof (induction "length b - j" arbitrary: j)
  case 0
  then have "j = length b"
    by simp
  then show ?case
    using assms(2) by (subst match_from.simps) simp
next
  case (Suc n)
  then have j: "j < length b"
    by simp
  have u: "unat (of_nat j :: u32) = j" "unat (of_nat (length b) :: u32) = length b"
    "unat (of_nat (length a) :: u32) = length a" "unat (of_nat i + of_nat j :: u32) = i + j"
    using j assms by (simp_all add: of_nat_add [symmetric] del: of_nat_add)
  have nxt: "of_nat j + (1 :: u32) = of_nat (Suc j)"
    by simp
  show ?case
  proof (cases "i + j < length a \<and> a ! (i + j) = b ! j")
    case True
    then have eq: "match_from (Str_of a) (Str_of b) (of_nat i) (of_nat j) =
        match_from (Str_of a) (Str_of b) (of_nat i) (of_nat (Suc j))"
      unfolding nxt [symmetric] using j u by (subst match_from.simps) (simp add: word_less_nat_alt word_le_nat_alt nth_append)
    have all: "(\<forall>m. j \<le> m \<longrightarrow> m < length b \<longrightarrow> i + m < length a \<and> a ! (i + m) = b ! m) \<longleftrightarrow>
        (\<forall>m. Suc j \<le> m \<longrightarrow> m < length b \<longrightarrow> i + m < length a \<and> a ! (i + m) = b ! m)"
      using True by (metis Suc_leD le_antisym not_less_eq_eq)
    have "n = length b - Suc j"
      using Suc.hyps(2) by simp
    from Suc.hyps(1) [OF this] show ?thesis
      unfolding eq all using j by simp
  next
    case False
    then have "match_from (Str_of a) (Str_of b) (of_nat i) (of_nat j) = (if length a \<le> i + j then None else Some (of_nat j))"
      using j u by (subst match_from.simps) (simp add: word_less_nat_alt word_le_nat_alt nth_append)
    then show ?thesis
      using False j u by auto
  qed
qed

lemma indexOf_from_j_spec:
  assumes "length a < 2 ^ 32" and "length a + length b < 2 ^ 32" and "b \<noteq> []" and "unat j \<noteq> length b"
    and "i \<le> length a"
  shows "indexOf_from_j (Str_of a) (Str_of b) (of_nat i) j =
    (case find (occurs a b) [i..<length a] of None \<Rightarrow> UINT32_MAX | Some k \<Rightarrow> of_nat k)"
  using assms(4,5)
proof (induction "length a - i" arbitrary: i j)
  case 0
  then show ?case
    using assms(1) by (simp add: indexOf_from_j.simps word_less_nat_alt)
next
  case (Suc n)
  then have i: "i < length a"
    by simp
  have u: "unat (of_nat i :: u32) = i" "unat (of_nat (length b) :: u32) = length b"
    "unat (of_nat (length a) :: u32) = length a"
    using i assms by simp_all
  have len: "1 \<le> length b"
    using assms(3) by (cases b) auto
  have ends: "(a @ [0]) ! i = a ! i" "(b @ [0]) ! 0 = b ! 0"
    using i len by (auto simp: nth_append)
  have nxt: "of_nat i + (1 :: u32) = of_nat (Suc i)"
    by simp
  let ?m = "if a ! i = b ! 0 then match_from (Str_of a) (Str_of b) (of_nat i) 1 else Some j"
  have step: "indexOf_from_j (Str_of a) (Str_of b) (of_nat i) j =
      (case ?m of None \<Rightarrow> UINT32_MAX | Some j \<Rightarrow> if j = of_nat (length b) then of_nat i
         else indexOf_from_j (Str_of a) (Str_of b) (of_nat (Suc i)) j)"
    unfolding nxt [symmetric] using i u ends by (subst indexOf_from_j.simps) (simp add: word_less_nat_alt cong: option.case_cong)
  have m: "case match_from (Str_of a) (Str_of b) (of_nat i) 1 of
      None \<Rightarrow> length a < i + length b
    | Some k \<Rightarrow> unat k = length b \<and> (\<forall>m. 1 \<le> m \<longrightarrow> m < length b \<longrightarrow> i + m < length a \<and> a ! (i + m) = b ! m) \<or>
        unat k < length b \<and> (\<exists>m < length b. i + m < length a \<and> a ! (i + m) \<noteq> b ! m)"
    using match_from_spec [OF assms(1), of i b 1] assms(2) i len by simp
  have rng: "[i..<length a] = i # [Suc i..<length a]"
    using i by (simp add: upt_rec)
  have IH: "indexOf_from_j (Str_of a) (Str_of b) (of_nat (Suc i)) k =
      (case find (occurs a b) [Suc i..<length a] of None \<Rightarrow> UINT32_MAX | Some k \<Rightarrow> of_nat k)"
    if "unat k \<noteq> length b" for k
    using Suc.hyps(1) [of "Suc i" k] Suc.hyps(2) that i by simp
  show ?case
  proof (cases ?m)
    case None
    then have "length a < i + length b"
      using m by (auto split: if_splits)
    then have "\<forall>k \<in> set [i..<length a]. \<not> occurs a b k"
      by (auto simp: occurs_iff)
    then have "find (occurs a b) [i..<length a] = None"
      by (simp add: find_None_iff)
    then show ?thesis
      using step None by simp
  next
    case (Some k)
    show ?thesis
    proof (cases "unat k = length b")
      case True
      then have first: "a ! i = b ! 0" and "match_from (Str_of a) (Str_of b) (of_nat i) 1 = Some k"
        using Some Suc.prems(1) by (auto split: if_splits)
      then have rest: "\<forall>m. 1 \<le> m \<longrightarrow> m < length b \<longrightarrow> i + m < length a \<and> a ! (i + m) = b ! m"
        using m True by auto
      have "i + (length b - 1) < length a"
        using rest [rule_format, of "length b - 1"] i len by (cases "length b = 1") auto
      moreover have "a ! (i + x) = b ! x" if "x < length b" for x
        using rest first that by (cases x) auto
      ultimately have "occurs a b i"
        using len by (auto simp: occurs_iff)
      then show ?thesis
        using step Some True u rng by (simp add: word_unat_eq_iff)
    next
      case False
      have "\<not> occurs a b i"
      proof (cases "a ! i = b ! 0")
        case True
        then show ?thesis
          using m Some False by (auto simp: occurs_iff)
      next
        case False
        then show ?thesis
          using len by (auto simp: occurs_iff intro!: exI [of _ 0])
      qed
      then show ?thesis
        using step Some False u rng IH [OF False] by (simp add: word_unat_eq_iff)
    qed
  qed
qed

lemma str_indexOf_spec:
  assumes "length a + length b < 2 ^ 32" and "b \<noteq> []" and "i < 2 ^ 32"
  shows "str_indexOf (Str_of a) (Str_of b) (of_nat i) =
    (case find (occurs a b) [i..<length a] of None \<Rightarrow> UINT32_MAX | Some k \<Rightarrow> of_nat k)"
proof (cases "i \<le> length a")
  case True
  have "unat (0 :: u32) \<noteq> length b"
    using assms(2) by simp
  then show ?thesis
    unfolding str_indexOf_def using assms True by (intro indexOf_from_j_spec) simp_all
next
  case False
  then show ?thesis
    using assms(1,3) by (simp add: str_indexOf_def indexOf_from_j.simps word_less_nat_alt)
qed

text \<open>
  Substring search is correct: it returns the least position at or after \<open>start\<close> at which the
  searched string occurs, and UINT32_MAX when there is none.
\<close>

theorem indexOf_least:
  assumes "length a + length b < 2 ^ 32" and "b \<noteq> []" and "i < 2 ^ 32"
  shows "case find (\<lambda>k. take (length b) (drop k a) = b) [i..<length a] of
      None \<Rightarrow> str_indexOf (Str_of a) (Str_of b) (of_nat i) = UINT32_MAX
    | Some k \<Rightarrow> str_indexOf (Str_of a) (Str_of b) (of_nat i) = of_nat k"
  using str_indexOf_spec [OF assms] by (simp add: occurs_def [abs_def] split: option.split)

theorem indexOf_least_witness:
  "str_indexOf (Str_of [97, 98, 97, 97, 98]) (Str_of [97, 98]) 1 = 3"
  using indexOf_least [of "[97, 98, 97, 97, 98]" "[97, 98]" 1] by (simp add: upt_rec)

subsection \<open>Joining and splitting\<close>

fun joined :: "'a list \<Rightarrow> 'a list list \<Rightarrow> 'a list" where
  "joined c [] = []"
| "joined c [t] = t"
| "joined c (t # u # ts) = t @ c @ joined c (u # ts)"

lemma find_append_None: "find P xs = None \<Longrightarrow> find P (xs @ ys) = find P ys"
  by (induction xs) (auto split: if_splits)

lemma no_occ_before:
  assumes "c \<noteq> []" and "hd c \<notin> set t" and "length pre \<le> k" and "k < length pre + length t"
  shows "\<not> occurs (pre @ t @ post) c k"
proof
  assume "occurs (pre @ t @ post) c k"
  then have "(pre @ t @ post) ! k = hd c"
    using assms(1) by (cases c) (auto simp: occurs_iff)
  then have "t ! (k - length pre) = hd c"
    using assms(3,4) by (auto simp: nth_append split: if_splits)
  moreover have "k - length pre < length t"
    using assms(3,4) by linarith
  ultimately show False
    using assms(2) nth_mem by metis
qed

lemma find_first_occ:
  assumes "c \<noteq> []" and "hd c \<notin> set t"
  shows "find (occurs (pre @ t @ c @ rest) c) [length pre..<length (pre @ t @ c @ rest)] = Some (length pre + length t)"
proof -
  have "length pre + length t < length (pre @ t @ c @ rest)"
    using assms(1) by simp
  then have r: "[length pre..<length (pre @ t @ c @ rest)] =
      [length pre..<length pre + length t] @ (length pre + length t) # [Suc (length pre + length t)..<length (pre @ t @ c @ rest)]"
    using upt_add_eq_append [of "length pre" "length pre + length t" "length c + length rest"]
      upt_conv_Cons [of "length pre + length t" "length (pre @ t @ c @ rest)"] by (simp add: add.assoc del: upt_Suc)
  have "find (occurs (pre @ t @ c @ rest) c) [length pre..<length pre + length t] = None"
    using no_occ_before [OF assms, of pre _ "c @ rest"] by (auto simp: find_None_iff)
  moreover have "occurs (pre @ t @ c @ rest) c (length pre + length t)"
    by (simp add: occurs_def)
  ultimately show ?thesis
    unfolding r by (simp add: find_append_None)
qed

lemma find_no_occ:
  assumes "c \<noteq> []" and "hd c \<notin> set t"
  shows "find (occurs (pre @ t) c) [length pre..<length (pre @ t)] = None"
  using no_occ_before [OF assms, of pre _ "[]"] by (auto simp: find_None_iff)

lemma split_from_joined:
  assumes "a = pre @ joined c ts" and "ts \<noteq> []" and "\<forall>t \<in> set ts. t \<noteq> [] \<and> hd c \<notin> set t"
    and "0 \<notin> set a" and "length a + length c < 2 ^ 32" and "length result \<le> length pre" and "c \<noteq> []"
  shows "split_from (Str_of a) (Str_of c) 0 (of_nat (length pre))
      (str_indexOf (Str_of a) (Str_of c) (of_nat (length pre))) (map Str_of result) =
    Some (map Str_of (result @ ts))"
  using assms
proof (induction ts arbitrary: pre result rule: joined.induct)
  case (1 c)
  then show ?case by simp
next
  case (2 c t)
  have l: "length pre + length t < 2 ^ 32" "length a < 2 ^ 32"
    using 2 by simp_all
  have "str_indexOf (Str_of a) (Str_of c) (of_nat (length pre)) = UINT32_MAX"
    using str_indexOf_spec [of a c "length pre"] find_no_occ [of c t pre] 2 by simp
  moreover have "unat (s_len (Str_of a)) = length a"
    using l by (simp only: Str_of_sel unat_of_nat32)
  then have "substring (Str_of a) (of_nat (length pre)) (s_len (Str_of a)) = Str_of t"
    using substring_of [OF l(2) 2(4), of "of_nat (length pre)" "s_len (Str_of a)"] 2 l
    by (simp del: Str_of_sel)
  ultimately show ?case
    using 2 l by (subst split_from.simps) (simp add: Let_def)
next
  case (3 c t u ts)
  let ?rest = "joined c (u # ts)"
  have a: "a = pre @ t @ c @ ?rest"
    using 3(2) by simp
  have t: "t \<noteq> []" "hd c \<notin> set t"
    using 3(4) by auto
  have lc: "0 < length c"
    using 3(8) by simp
  have l: "length pre + length t + 1 < 2 ^ 32" "length a < 2 ^ 32" "length result + 1 < 2 ^ 32" "length t < 2 ^ 32"
    using 3(6,7) lc unfolding a by (simp_all only: length_append; linarith)+
  have idx: "str_indexOf (Str_of a) (Str_of c) (of_nat (length pre)) = of_nat (length pre + length t)"
    using str_indexOf_spec [of a c "length pre"] find_first_occ [OF 3(8) t(2), of pre ?rest] 3(6,8) a by simp
  have ne: "of_nat (length pre + length t) \<noteq> UINT32_MAX"
    using l(1) by (simp only: word_unat_eq_iff unat_of_nat32) simp
  have lim: "of_nat (length result) + 1 \<noteq> (0 :: u32)"
    using l(3) unat_of_nat32 [of "length result + 1"] by (metis add_is_0 of_nat_1 of_nat_add unat_0 zero_neq_one)
  have "substring (Str_of a) (of_nat (length pre)) (of_nat (length pre + length t)) =
      Str_of (take (unat (of_nat (length pre + length t) :: u32) - unat (of_nat (length pre) :: u32))
        (drop (unat (of_nat (length pre) :: u32)) a))"
    using l(2) 3(5) by (rule substring_of)
  also have "\<dots> = Str_of t"
    using l(1) a by (simp only: unat_of_nat32) simp
  finally have sub: "substring (Str_of a) (of_nat (length pre)) (of_nat (length pre + length t)) = Str_of t" .
  have start: "of_nat (length pre + length t) + s_len (Str_of c) = (of_nat (length (pre @ t @ c)) :: u32)"
    by simp
  have longer: "length (result @ [t]) \<le> length (pre @ t @ c)"
    using 3(7) lc unfolding length_append list.size by linarith
  have "split_from (Str_of a) (Str_of c) 0 (of_nat (length pre))
      (str_indexOf (Str_of a) (Str_of c) (of_nat (length pre))) (map Str_of result) =
    split_from (Str_of a) (Str_of c) 0 (of_nat (length (pre @ t @ c)))
      (str_indexOf (Str_of a) (Str_of c) (of_nat (length (pre @ t @ c)))) (map Str_of (result @ [t]))"
    unfolding idx using ne lim sub t(1) l(4) start
    by (subst split_from.simps) (simp add: Let_def add.commute [of 1] del: of_nat_add)
  also have "\<dots> = Some (map Str_of ((result @ [t]) @ u # ts))"
    by (rule 3(1)) (use 3(4-6,8) a t longer in \<open>auto\<close>)
  finally show ?case by simp
qed

lemma join_from_spec:
  assumes "n < length ts" and "length ts < 2 ^ 32" and "i \<le> n"
    and "length tmp + length (concat (drop i ts)) + (length ts - i) * length sep < 2 ^ 32"
  shows "join_from (Str_of sep) (map Str_of ts) (of_nat n) (of_nat i) (Str_of tmp) =
    Inr (Str_of (tmp @ concat (map (\<lambda>t. t @ sep) (take (n - i) (drop i ts)))))"
  using assms(3,4)
proof (induction "n - i" arbitrary: i tmp)
  case 0
  then show ?case
    by (subst join_from.simps) simp
next
  case (Suc k)
  then have i: "i < n" and k: "k = n - Suc i" and il: "i < length ts"
    using assms(1) by simp_all
  have d: "drop i ts = ts ! i # drop (Suc i) ts"
    using il by (simp add: Cons_nth_drop_Suc)
  have bound: "length tmp + (length (ts ! i) + length (concat (drop (Suc i) ts))) + (length sep + (length ts - Suc i) * length sep) < 2 ^ 32"
    using Suc.prems(2) d il by (simp add: Suc_diff_Suc [symmetric])
  have u: "unat (of_nat i :: u32) = i" "unat (of_nat n :: u32) = n"
    using i assms(1,2) by simp_all
  have get: "arr_get (map Str_of ts) (of_nat i) = Inr (Str_of (ts ! i))"
    using arr_get_ok [of "map Str_of ts" "of_nat i"] assms(2) il u by simp
  have nxt: "of_nat i + 1 = (of_nat (Suc i) :: u32)"
    by simp
  have "join_from (Str_of sep) (map Str_of ts) (of_nat n) (of_nat i) (Str_of tmp) =
      join_from (Str_of sep) (map Str_of ts) (of_nat n) (of_nat (Suc i)) (Str_of (tmp @ ts ! i @ sep))"
    unfolding nxt [symmetric] using i u get bound by (subst join_from.simps) (simp add: word_less_nat_alt)
  also have "\<dots> = Inr (Str_of ((tmp @ ts ! i @ sep) @ concat (map (\<lambda>t. t @ sep) (take (n - Suc i) (drop (Suc i) ts)))))"
    using Suc.hyps(1) [OF k, of "tmp @ ts ! i @ sep"] i bound by simp
  also have "take (n - i) (drop i ts) = ts ! i # take (n - Suc i) (drop (Suc i) ts)"
    using i d by (simp add: Suc_diff_Suc [symmetric])
  ultimately show ?case
    by simp
qed

lemma joined_snoc:
  "ts \<noteq> [] \<Longrightarrow> joined c ts = concat (map (\<lambda>t. t @ c) (take (length ts - 1) ts)) @ last ts"
  by (induction c ts rule: joined.induct) auto

lemma length_joined: "ts \<noteq> [] \<Longrightarrow> length (joined c ts) + length c = length (concat ts) + length ts * length c"
  by (induction c ts rule: joined.induct) auto

lemma str_join_spec:
  assumes "ts \<noteq> []" and "length (concat ts) + length ts * length c < 2 ^ 32" and "length ts < 2 ^ 32"
  shows "str_join (Str_of c) (map Str_of ts) = Inr (Str_of (joined c ts))"
proof -
  let ?n = "length ts - 1"
  have n: "?n < length ts" "length ts < 2 ^ 32"
    using assms by auto
  have un: "unat (of_nat ?n :: u32) = ?n"
    by (rule unat_of_nat32) (use n in simp)
  have size: "arr_length (map Str_of ts) - 1 = of_nat ?n"
    using assms(1) by (simp add: arr_length_def of_nat_diff Suc_le_eq)
  have "arr_get (map Str_of ts) (of_nat ?n) = Inr (Str_of (last ts))"
    using arr_get_ok [of "map Str_of ts" "of_nat ?n", unfolded un] n assms(1)
    by (simp only: length_map nth_map last_conv_nth [OF assms(1)])
  moreover have "join_from (Str_of c) (map Str_of ts) (of_nat ?n) 0 (Str_of []) =
      Inr (Str_of (concat (map (\<lambda>t. t @ c) (take ?n ts))))"
    using join_from_spec [OF n, of 0 "[]" c] assms(2) by simp
  moreover have "length (joined c ts) < 2 ^ 32"
    using length_joined [OF assms(1), of c] assms(2) by simp
  ultimately show ?thesis
    using joined_snoc [OF assms(1), of c] size by (simp add: str_join_def Let_def)
qed

lemma str_split_joined:
  assumes "ts \<noteq> []" and "\<forall>t \<in> set ts. t \<noteq> [] \<and> hd c \<notin> set t \<and> 0 \<notin> set t" and "c \<noteq> []" and "0 \<notin> set c"
    and "length (concat ts) + length ts * length c < 2 ^ 32"
  shows "str_split (Str_of (joined c ts)) (Str_of c) 0 = Some (map Str_of ts)"
proof -
  have z: "0 \<notin> set (joined c ts)"
    using assms(2,4) by (induction c ts rule: joined.induct) auto
  have len: "length (joined c ts) + length c < 2 ^ 32"
    using length_joined [OF assms(1), of c] assms(5) by simp
  have "joined c ts \<noteq> []"
    using assms(1,2) by (cases "(c, ts)" rule: joined.cases) auto
  then have "of_nat (length (joined c ts)) \<noteq> (0 :: u32)"
    using len by (simp add: word_unat_eq_iff)
  then show ?thesis
    using split_from_joined [of "joined c ts" "[]" c ts "[]"] assms(1-3) z len by (simp add: str_split_def)
qed

text \<open>
  C21. Splitting undoes joining, for a separator of any positive length: if the tokens are not empty
  and none of them contains the first byte of the separator, and neither tokens nor separator contain
  a zero byte, then split (without limit) terminates on the joined string and returns exactly the
  tokens, in order. The joined string has less than 2^32 bytes, with one more separator counted.
\<close>

theorem join_split_roundtrip:
  assumes "ts \<noteq> []" and "sep \<noteq> []" and "0 \<notin> set sep"
    and "\<forall>t \<in> set ts. t \<noteq> [] \<and> hd sep \<notin> set t \<and> 0 \<notin> set t"
    and "length (concat ts) + length ts * length sep < 2 ^ 32"
  shows "\<exists>s. str_join (Str_of sep) (map Str_of ts) = Inr s \<and>
    str_split s (Str_of sep) 0 = Some (map Str_of ts)"
proof -
  have "length ts * 1 \<le> length ts * length sep"
    using assms(2) by (intro mult_le_mono2) (simp add: Suc_le_eq)
  then have "length ts < 2 ^ 32"
    using assms(5) by linarith
  then show ?thesis
    using str_join_spec [OF assms(1,5)] str_split_joined [OF assms(1,4,2,3,5)] by blast
qed

theorem join_split_roundtrip_witness:
  "\<exists>s. str_join (Str_of [58, 47, 58]) [Str_of [98, 47, 110], Str_of [115, 104]] = Inr s \<and>
    str_split s (Str_of [58, 47, 58]) 0 = Some [Str_of [98, 47, 110], Str_of [115, 104]]"
  using join_split_roundtrip [of "[[98, 47, 110], [115, 104]]" "[58, 47, 58]"] by simp

text \<open>
  Joining an empty array throws OUT_OF_BOUNDS: the loop bound and the index of the last
  element wrap around.
\<close>

theorem join_empty_throws: "str_join separator [] = Inl OUT_OF_BOUNDS"
  by (simp add: str_join_def join_from.simps arr_get_def arr_length_def)

subsection \<open>Stripping\<close>

lemma strip_start_spec:
  assumes "a = pre @ xs @ m @ ys" and "\<forall>x \<in> set xs. blank x" and "m \<noteq> []" and "\<not> blank (hd m)"
    and "length a < 2 ^ 32"
  shows "strip_start (Str_of a) (of_nat (length pre)) =
    (of_nat (length pre + length xs), length m = 1 \<and> ys = [])"
  using assms
proof (induction xs arbitrary: pre)
  case Nil
  have l: "length pre < length a" and nth: "(a @ [0]) ! length pre = hd m"
    using Nil by (cases m; simp add: nth_append)+
  have "unat (of_nat (length a) - 1 :: u32) = length a - 1"
    using l assms(5) unat_arr_length_pred [of a] by (cases "a = []") (simp_all add: arr_length_def)
  then have "of_nat (length pre) = (of_nat (length a) - 1 :: u32) \<longleftrightarrow> length pre = length a - 1"
    using l assms(5) by (simp add: word_unat_eq_iff)
  moreover have "length pre = length a - 1 \<longleftrightarrow> length m = 1 \<and> ys = []"
    using Nil by (cases m; cases ys) auto
  moreover have "unat (of_nat (length a) :: u32) = length a" "unat (of_nat (length pre) :: u32) = length pre"
    by (rule unat_of_nat32; use l assms(5) in simp)+
  ultimately show ?case
    using l nth Nil(4) by (subst strip_start.simps) (simp add: word_less_nat_alt)
next
  case (Cons x xs)
  have l: "length pre < length a" and nth: "(a @ [0]) ! length pre = x"
    using Cons.prems by (simp_all add: nth_append)
  have nxt: "of_nat (length pre) + 1 = (of_nat (length (pre @ [x])) :: u32)"
    by simp
  have "unat (of_nat (length a) :: u32) = length a" "unat (of_nat (length pre) :: u32) = length pre"
    by (rule unat_of_nat32; use l assms(5) in simp)+
  then have "strip_start (Str_of a) (of_nat (length pre)) = strip_start (Str_of a) (of_nat (length (pre @ [x])))"
    unfolding nxt [symmetric] using l nth Cons.prems(2) by (subst strip_start.simps) (simp add: word_less_nat_alt)
  also have "\<dots> = (of_nat (length (pre @ [x]) + length xs), length m = 1 \<and> ys = [])"
    by (rule Cons.IH) (use Cons.prems in auto)
  finally show ?case
    by simp
qed

lemma strip_end_spec:
  assumes "\<forall>y \<in> set ys. blank y" and "st < length w" and "length (w @ ys @ zs) < 2 ^ 32"
  shows "strip_end (Str_of (w @ ys @ zs)) (of_nat st) (of_nat (length w + length ys - 1)) =
    strip_end (Str_of (w @ ys @ zs)) (of_nat st) (of_nat (length w - 1))"
  using assms
proof (induction ys arbitrary: zs rule: rev_induct)
  case (snoc y ys)
  let ?i = "length w + length ys"
  have l: "?i < 2 ^ 32" and nth: "(w @ (ys @ [y]) @ zs @ [0]) ! ?i = y"
    using snoc.prems by (simp_all add: nth_append)
  have u: "unat (of_nat ?i :: u32) = ?i" "unat (of_nat st :: u32) = st"
    by (rule unat_of_nat32; use l snoc.prems in simp)+
  have pred: "(of_nat ?i - 1 :: u32) = of_nat (?i - 1)"
    using snoc.prems(2) by (simp add: of_nat_diff)
  have "strip_end (Str_of (w @ (ys @ [y]) @ zs)) (of_nat st) (of_nat ?i) =
      strip_end (Str_of (w @ (ys @ [y]) @ zs)) (of_nat st) (of_nat (?i - 1))"
    unfolding pred [symmetric] using u nth snoc.prems(1,2)
    by (subst strip_end.simps) (simp add: word_less_nat_alt del: of_nat_add)
  also have "\<dots> = strip_end (Str_of (w @ (ys @ [y]) @ zs)) (of_nat st) (of_nat (length w - 1))"
    using snoc.IH [of "y # zs"] snoc.prems by simp
  finally show ?case
    by simp
qed simp

text \<open>
  Strip removes leading and trailing blanks, except that a single character followed by
  blanks is dropped altogether; and on the empty string it reads outside of its buffer.
\<close>

theorem strip_behaviour:
  assumes "m \<noteq> []" and "\<not> blank (hd m)" and "\<not> blank (last m)" and "\<forall>x \<in> set (xs @ ys). blank x"
    and "0 \<notin> set m" and "length (xs @ m @ ys) < 2 ^ 32"
  shows "strip (Str_of (xs @ m @ ys)) = Some (Str_of (if length m = 1 \<and> ys \<noteq> [] then [] else m)) \<and>
    strip (Str_of []) = None"
proof
  let ?a = "xs @ m @ ys"
  have "\<not> blank 0"
    by (simp add: blank_def)
  then have z: "0 \<notin> set ?a"
    using assms(4,5) by auto
  define e where "e = (of_nat (length (xs @ m) - 1) :: u32)"
  define st where "st = (of_nat (length xs) :: u32)"
  have start: "strip_start (Str_of ?a) 0 = (st, length m = 1 \<and> ys = [])"
    using strip_start_spec [of ?a "[]" xs m ys] assms by (simp add: st_def)
  have mlen: "0 < length m"
    using assms(1) by simp
  have last: "(of_nat (length ?a) - 1 :: u32) = of_nat (length (xs @ m) + length ys - 1)"
    using mlen by (simp add: of_nat_diff Suc_le_eq)
  have walk: "strip_end (Str_of ?a) st (of_nat (length ?a) - 1) = strip_end (Str_of ?a) st e"
    unfolding last e_def st_def
    by (rule strip_end_spec [of ys "length xs" "xs @ m" "[]", simplified append_assoc append_Nil2])
      (use assms(4,6) mlen in auto)
  have u: "unat e = length (xs @ m) - 1" "unat st = length xs" "unat (of_nat (length ?a) :: u32) = length ?a"
    unfolding e_def st_def by (rule unat_of_nat32; use assms(6) in simp)+
  have "length xs + length m - 1 = length xs + (length m - 1)"
    using mlen by linarith
  then have nth: "(?a @ [0]) ! (length xs + length m - 1) = last m"
    using mlen assms(1) by (simp only:) (simp add: nth_append last_conv_nth)
  have stop: "strip_end (Str_of ?a) st e = Some e"
    using u nth assms(3) by (subst strip_end.simps) (simp add: word_less_nat_alt del: append_assoc)
  show "strip (Str_of ?a) = Some (Str_of (if length m = 1 \<and> ys \<noteq> [] then [] else m))"
  proof (cases "length m = 1")
    case True
    then obtain c where c: "m = [c]"
      by (cases m) auto
    have "1 < (of_nat (length ?a) :: u32) \<longleftrightarrow> 1 < length ?a"
      using u(3) by (simp only: word_less_nat_alt) simp
    moreover have "1 < length ?a" if "ys \<noteq> []"
      using that mlen by (cases ys) auto
    moreover have "e = st"
      using u True by (simp add: word_unat_eq_iff)
    ultimately show ?thesis
      using True start walk stop c u(2)
      by (auto simp: strip_def Str_of_def Str_ofChar_def nth_append)
  next
    case False
    have e: "unat (e + 1) = length xs + length m"
      using u(1) assms(6) mlen by (simp add: unat_inc)
    have "unat st \<noteq> unat e"
      using u(1,2) False mlen unfolding length_append by linarith
    then have "st \<noteq> e"
      by blast
    moreover have "substring (Str_of ?a) st (e + 1) = Str_of m"
      using substring_of [OF assms(6) z, of st "e + 1", unfolded e u(2)] by simp
    ultimately show ?thesis
      using False start walk stop by (simp add: strip_def)
  qed
next
  have "strip_end (Str_of []) 0 UINT32_MAX = None"
    by (subst strip_end.simps) simp
  moreover have "s_len (Str_of []) - 1 = UINT32_MAX"
    by simp
  ultimately have "strip_end (Str_of []) 0 (s_len (Str_of []) - 1) = None"
    by (simp only:)
  moreover have "strip_start (Str_of []) 0 = (0, False)"
    by (subst strip_start.simps) simp
  ultimately show "strip (Str_of []) = None"
    by (simp add: strip_def del: Str_of_sel)
qed

theorem strip_behaviour_witness:
  "strip (Str_of [32, 97, 98, 9]) = Some (Str_of [97, 98]) \<and> strip (Str_of [32, 97, 32]) = Some (Str_of [])"
  using strip_behaviour [of "[97, 98]" "[32]" "[9]"] strip_behaviour [of "[97]" "[32]" "[32]"]
  by (simp add: blank_def)

end
