(* ===== verification/Input_Streams.thy ===== *)
theory Input_Streams
  imports Strings "HOL-Library.State_Monad"
begin

unbundle bit_operations_syntax

text \<open>
  \<^verbatim>\<open>Util::Io::ByteArrayInputStream\<close>, the operations \<^verbatim>\<open>Util::Io::InputStream\<close> builds on it
  (lib/util/io/stream) and the network byte order of \<^verbatim>\<open>Util::Network::NumberUtil\<close>. The buffer of a
  stream is the memory its pointer points to, so a read outside of it is a read of that memory. Code
  that takes its input from a stream is a computation in the state monad.
\<close>

section \<open>Byte array input stream\<close>

record ByteArrayInputStream =
  is_buffer :: "u32 \<Rightarrow> u8"
  is_size :: u32
  is_position :: u32
  is_enforceSizeLimit :: bool
  is_nullTerminated :: bool

definition ByteArrayInputStream_new :: "(u32 \<Rightarrow> u8) \<Rightarrow> u32 \<Rightarrow> ByteArrayInputStream" where
  "ByteArrayInputStream_new buffer n =
     \<lparr>is_buffer = buffer, is_size = n, is_position = 0, is_enforceSizeLimit = True, is_nullTerminated = False\<rparr>"

text \<open>\<^verbatim>\<open>read()\<close> returns an \<^verbatim>\<open>int16_t\<close>; at the end of the stream it is -1.\<close>

definition is_read :: "(ByteArrayInputStream, u16) state" where
  "is_read = State (\<lambda>s.
     if is_size s \<le> is_position s \<and> is_enforceSizeLimit s then (- 1, s)
     else if is_nullTerminated s \<and> is_buffer s (is_position s) = 0 then (0, s)
     else (ucast (is_buffer s (is_position s)), s\<lparr>is_position := is_position s + 1\<rparr>))"

definition is_peek :: "ByteArrayInputStream \<Rightarrow> u16" where
  "is_peek s = ucast (is_buffer s (is_position s))"

definition is_makeNullTerminated :: "ByteArrayInputStream \<Rightarrow> ByteArrayInputStream" where
  "is_makeNullTerminated s = s\<lparr>is_nullTerminated := True\<rparr>"

definition is_disableSizeLimit :: "ByteArrayInputStream \<Rightarrow> ByteArrayInputStream" where
  "is_disableSizeLimit s = s\<lparr>is_enforceSizeLimit := False\<rparr>"

text \<open>\<^verbatim>\<open>read(targetBuffer, offset, length)\<close>, with the contents of the target before and after.\<close>

definition is_readInto :: "u8 list \<Rightarrow> u32 \<Rightarrow> u32 \<Rightarrow> (ByteArrayInputStream, u32 \<times> u8 list) state" where
  "is_readInto target offset n = State (\<lambda>s.
     if is_size s \<le> is_position s \<and> is_enforceSizeLimit s then ((- 1, target), s)
     else let cnt = (if n < is_size s - is_position s then n else is_size s - is_position s);
              bytes = map (\<lambda>i. is_buffer s (is_position s + of_nat i)) [0..<unat cnt]
          in ((cnt, take (unat offset) target @ bytes @ drop (unat offset + unat cnt) target),
              s\<lparr>is_position := is_position s + cnt\<rparr>))"

definition is_getRemaining :: "ByteArrayInputStream \<Rightarrow> u32" where
  "is_getRemaining s = is_size s - is_position s"

definition is_isEmpty :: "ByteArrayInputStream \<Rightarrow> bool" where
  "is_isEmpty s \<longleftrightarrow> is_size s = 0"

section \<open>Input stream\<close>

text \<open>\<open>junk\<close> is what the temporary buffer of \<^verbatim>\<open>readString\<close> holds before it is filled.\<close>

definition readString :: "u8 list \<Rightarrow> u32 \<Rightarrow> (ByteArrayInputStream, Str) state" where
  "readString junk n = do {
     (cnt, tmpBuffer) \<leftarrow> is_readInto junk 0 n;
     State_Monad.return (if cnt = 0 \<or> bit cnt 31 then Str_new else Str_ofData tmpBuffer n)
   }"

text \<open>The loop of \<^verbatim>\<open>readLine\<close>; \<open>None\<close> when it never ends.\<close>

partial_function (option) readLine_from ::
    "ByteArrayInputStream \<Rightarrow> Str \<Rightarrow> u16 \<Rightarrow> (Str \<times> bool \<times> ByteArrayInputStream) option" where
  "readLine_from s line currentChar =
     (if currentChar \<noteq> - 1 \<and> currentChar \<noteq> 10
      then case run_state is_read s of
             (c, s') \<Rightarrow> readLine_from s' (str_append line (Str_ofChar (ucast currentChar))) c
      else Some (line, str_isEmpty line \<and> currentChar = - 1, s))"

definition readLine :: "ByteArrayInputStream \<Rightarrow> (Str \<times> bool \<times> ByteArrayInputStream) option" where
  "readLine s = (case run_state is_read s of (c, s') \<Rightarrow> readLine_from s' Str_new c)"

text \<open>The loop of \<^verbatim>\<open>skip\<close>: what remains when it ends. The contents of its buffer are not used.\<close>

function skip_from :: "ByteArrayInputStream \<Rightarrow> u32 \<Rightarrow> u32 \<Rightarrow> u32 \<times> ByteArrayInputStream" where
  "skip_from s bufferSize remaining =
     (if 0 < remaining
      then case run_state (is_readInto [] 0 (if remaining < bufferSize then remaining else bufferSize)) s of
             ((skipped, _), s') \<Rightarrow>
               if skipped = 0 \<or> bit skipped 31 then (remaining, s')
               else skip_from s' bufferSize (remaining - skipped)
      else (remaining, s))"
  by pat_completeness auto
termination
proof (relation "measure (\<lambda>(s, b, r). unat r)", goal_cases)
  case (2 s b r x s' skipped y)
  then have "skipped \<le> (if r < b then r else b)" "skipped \<noteq> 0"
    by (auto simp: is_readInto_def Let_def bit_simps split: if_splits prod.splits)
  then have "skipped \<le> r"
    by (auto split: if_splits)
  then show ?case
    using \<open>skipped \<noteq> 0\<close> unat_gt_0 [of skipped] by (simp add: unat_sub word_le_nat_alt)
qed simp

declare skip_from.simps [simp del]

definition SKIP_BUFFER_SIZE :: u32 where "SKIP_BUFFER_SIZE = 1024"

definition is_skip :: "ByteArrayInputStream \<Rightarrow> u32 \<Rightarrow> u32 \<times> ByteArrayInputStream" where
  "is_skip s amount =
     (if amount \<le> 0 then (0, s)
      else case skip_from s (if SKIP_BUFFER_SIZE < amount then SKIP_BUFFER_SIZE else amount) amount of
             (remaining, s') \<Rightarrow> (amount - remaining, s'))"

section \<open>Numbers in network byte order\<close>

text \<open>
  The code leaves the order of the calls in \<^verbatim>\<open>(stream.read() << 8) | stream.read()\<close> to the compiler;
  the model has them from left to right. \<^verbatim>\<open>read()\<close> is sign-extended to an \<^verbatim>\<open>int\<close> first.
\<close>

definition readUnsigned8BitValue :: "(ByteArrayInputStream, u8) state" where
  "readUnsigned8BitValue = do { b \<leftarrow> is_read; State_Monad.return (ucast b) }"

definition read8BitValue :: "(ByteArrayInputStream, u8) state" where
  "read8BitValue = do { b \<leftarrow> is_read; State_Monad.return (ucast b) }"

definition read16BitValue :: "(ByteArrayInputStream, u16) state" where
  "read16BitValue = do {
     a \<leftarrow> is_read; b \<leftarrow> is_read;
     State_Monad.return (ucast (push_bit 8 (scast a :: u32) OR scast b))
   }"

definition readUnsigned16BitValue :: "(ByteArrayInputStream, u16) state" where
  "readUnsigned16BitValue = read16BitValue"

definition read32BitValue :: "(ByteArrayInputStream, u32) state" where
  "read32BitValue = do {
     a \<leftarrow> is_read; b \<leftarrow> is_read; c \<leftarrow> is_read; d \<leftarrow> is_read;
     State_Monad.return (push_bit 24 (scast a) OR push_bit 16 (scast b) OR push_bit 8 (scast c) OR scast d)
   }"

definition readUnsigned32BitValue :: "(ByteArrayInputStream, u32) state" where
  "readUnsigned32BitValue = read32BitValue"

text \<open>The bytes a function writes to its output stream, in the order of the writes.\<close>

definition write8BitValue :: "u8 \<Rightarrow> u8 list" where
  "write8BitValue v = [v]"

definition writeUnsigned8BitValue :: "u8 \<Rightarrow> u8 list" where
  "writeUnsigned8BitValue v = [v]"

definition write16BitValue :: "u16 \<Rightarrow> u8 list" where
  "write16BitValue v = [ucast (signed_drop_bit 8 v), ucast v]"

definition writeUnsigned16BitValue :: "u16 \<Rightarrow> u8 list" where
  "writeUnsigned16BitValue v = write16BitValue v"

definition write32BitValue :: "u32 \<Rightarrow> u8 list" where
  "write32BitValue v = [ucast (signed_drop_bit 24 v), ucast (signed_drop_bit 16 v), ucast (signed_drop_bit 8 v), ucast v]"

definition writeUnsigned32BitValue :: "u32 \<Rightarrow> u8 list" where
  "writeUnsigned32BitValue v = write32BitValue v"

section \<open>Reading what lies ahead\<close>

text \<open>The bytes \<open>bs\<close> are the next ones of the stream; \<open>past s n\<close> is the stream \<open>n\<close> bytes later.\<close>

definition ahead :: "ByteArrayInputStream \<Rightarrow> u8 list \<Rightarrow> bool" where
  "ahead s bs \<longleftrightarrow> is_enforceSizeLimit s \<and> \<not> is_nullTerminated s \<and>
     unat (is_position s) + length bs \<le> unat (is_size s) \<and>
     (\<forall>i < length bs. is_buffer s (is_position s + of_nat i) = bs ! i)"

definition past :: "ByteArrayInputStream \<Rightarrow> nat \<Rightarrow> ByteArrayInputStream" where
  "past s n = s\<lparr>is_position := is_position s + of_nat n\<rparr>"

named_theorems stream_reads \<open>reads from a stream whose next bytes are known\<close>

lemma past_sel [simp]:
  "is_buffer (past s n) = is_buffer s" "is_size (past s n) = is_size s"
  "is_enforceSizeLimit (past s n) = is_enforceSizeLimit s" "is_nullTerminated (past s n) = is_nullTerminated s"
  "is_position (past s n) = is_position s + of_nat n"
  by (simp_all add: past_def)

lemma past_0 [simp]: "past s 0 = s"
  by (simp add: past_def)

lemma past_past [simp]: "past (past s m) n = past s (m + n)"
  by (simp add: past_def add.assoc)

lemma ahead_position:
  assumes "ahead s bs" and "n \<le> length bs"
  shows "unat (is_position s + of_nat n) = unat (is_position s) + n"
proof -
  have "unat (is_position s) + n < 2 ^ 32"
    using assms unat_lt_2_32 [of "is_size s"] unfolding ahead_def by linarith
  then show ?thesis
    by (simp add: unat_word_ariths(1) unat_of_nat)
qed

lemma ahead_drop: "ahead s bs \<Longrightarrow> n \<le> length bs \<Longrightarrow> ahead (past s n) (drop n bs)"
  using ahead_position [of s bs n] by (auto simp: ahead_def add.assoc simp flip: of_nat_add)

lemma is_read_ahead [stream_reads]:
  assumes "ahead s bs" and "n < length bs"
  shows "run_state is_read (past s n) = (ucast (bs ! n), past s (n + 1))"
proof -
  have "unat (is_position s + of_nat n) < unat (is_size s)"
    using ahead_position [of s bs n] assms by (simp add: ahead_def)
  then have "\<not> is_size s \<le> is_position s + of_nat n"
    by (simp add: word_le_nat_alt)
  then show ?thesis
    using assms by (simp add: is_read_def ahead_def past_def add.assoc)
qed

lemma is_readInto_ahead [stream_reads]:
  assumes "ahead s bs" and "n + unat k \<le> length bs" and "k \<noteq> 0"
  shows "run_state (is_readInto target offset k) (past s n) =
    ((k, take (unat offset) target @ take (unat k) (drop n bs) @ drop (unat offset + unat k) target), past s (n + unat k))"
proof -
  let ?p = "is_position s + of_nat n"
  have p: "unat ?p = unat (is_position s) + n" and "unat ?p + unat k \<le> unat (is_size s)"
    using ahead_position [of s bs n] assms by (simp_all add: ahead_def)
  then have d: "unat (is_size s - ?p) \<ge> unat k" and ne: "\<not> is_size s \<le> ?p"
    using unat_gt_0 [of k] assms(3) by (simp_all add: unat_sub word_le_nat_alt not_le)
  have "map (\<lambda>i. is_buffer s (?p + of_nat i)) [0..<unat k] = take (unat k) (drop n bs)"
    using assms by (intro nth_equalityI) (auto simp: ahead_def add.assoc simp flip: of_nat_add)
  moreover have c: "(if k < is_size s - ?p then k else is_size s - ?p) = k"
    using d by (simp add: word_less_nat_alt word_unat_eq_iff)
  ultimately show ?thesis
    using ne unfolding is_readInto_def Let_def state.sel past_sel c by (simp add: past_def add.assoc)
qed

text \<open>Two bytes in network byte order.\<close>

definition be16 :: "u8 \<Rightarrow> u8 \<Rightarrow> u16" where
  "be16 a b = push_bit 8 (ucast a) OR ucast b"

lemma scast_u8: "(scast (ucast (b :: u8) :: u16) :: u32) = ucast b"
proof (rule bit_word_eqI)
  fix n assume "n < LENGTH(32)"
  have "bit b n \<Longrightarrow> n < 8"
    using bit_imp_le_length [of b n] by simp
  moreover have "bit b (min 15 n) \<Longrightarrow> min 15 n < 8"
    using bit_imp_le_length [of b "min 15 n"] by simp
  ultimately show "bit (scast (ucast b :: u16) :: u32) n = bit (ucast b :: u32) n"
    using \<open>n < LENGTH(32)\<close> by (auto simp: bit_simps min_def split: if_splits)
qed

lemma ucast_ucast_u8 [simp]: "(ucast (ucast (b :: u8) :: u16) :: u8) = b"
  by (rule bit_word_eqI) (auto simp: bit_simps)

lemma ucast_be16: "(ucast (push_bit 8 (ucast a :: u32) OR ucast b) :: u16) = be16 a b"
  unfolding be16_def by (rule bit_word_eqI) (auto simp: bit_simps)

lemma be16_write [simp]: "be16 (ucast (signed_drop_bit 8 v)) (ucast v) = v"
  unfolding be16_def by (rule bit_word_eqI) (auto simp: bit_simps)

lemma read8_ahead [stream_reads]:
  assumes "ahead s bs" and "n < length bs"
  shows "run_state readUnsigned8BitValue (past s n) = (bs ! n, past s (n + 1))"
  using assms by (simp add: readUnsigned8BitValue_def stream_reads)

lemma read16_ahead [stream_reads]:
  assumes "ahead s bs" and "n + 1 < length bs"
  shows "run_state readUnsigned16BitValue (past s n) = (be16 (bs ! n) (bs ! (n + 1)), past s (n + 2))"
  using assms by (simp add: readUnsigned16BitValue_def read16BitValue_def stream_reads scast_u8 ucast_be16)

section \<open>Lines\<close>

text \<open>What is left of a stream that enforces its size and is not null-terminated.\<close>

definition rest :: "ByteArrayInputStream \<Rightarrow> u8 list" where
  "rest s = map (\<lambda>i. is_buffer s (is_position s + of_nat i)) [0..<unat (is_size s) - unat (is_position s)]"

definition sized :: "ByteArrayInputStream \<Rightarrow> bool" where
  "sized s \<longleftrightarrow> is_enforceSizeLimit s \<and> \<not> is_nullTerminated s"

lemma rest_ahead: "sized s \<Longrightarrow> is_position s \<le> is_size s \<Longrightarrow> ahead s (rest s)"
  by (simp add: sized_def rest_def ahead_def word_le_nat_alt)

lemma rest_Nil: "sized s \<Longrightarrow> rest s = [] \<Longrightarrow> run_state is_read s = (- 1, s)"
  by (simp add: rest_def sized_def is_read_def word_le_nat_alt)

lemma rest_Cons:
  assumes "sized s" and "rest s = b # bs"
  shows "run_state is_read s = (ucast b, past s 1) \<and> rest (past s 1) = bs"
proof -
  have "unat (is_position s) < unat (is_size s)"
    using assms(2) by (cases "unat (is_position s) < unat (is_size s)") (simp_all add: rest_def)
  then have a: "ahead s (b # bs)"
    using rest_ahead [OF assms(1)] assms(2) by (simp add: word_le_nat_alt)
  have "length (rest s) = unat (is_size s) - unat (is_position s)"
    by (simp add: rest_def)
  then have len: "Suc (length bs) = unat (is_size s) - unat (is_position s)"
    using assms(2) by simp
  have "rest (past s 1) = bs"
  proof (rule nth_equalityI)
    have p: "unat (is_position s + 1) = Suc (unat (is_position s))"
      using ahead_position [OF a, of 1] by simp
    then show l: "length (rest (past s 1)) = length bs"
      using len by (simp add: rest_def)
    show "rest (past s 1) ! i = bs ! i" if "i < length (rest (past s 1))" for i
    proof -
      have "bs ! i = is_buffer s (is_position s + of_nat (Suc i))"
        using a that l unfolding ahead_def by (metis Suc_less_eq length_Cons nth_Cons_Suc)
      then show ?thesis
        using that by (simp add: rest_def add.assoc)
    qed
  qed
  then show ?thesis
    using is_read_ahead [OF a, of 0] by simp
qed

lemma Str_ofChar_of: "Str_ofChar c = Str_of [c]"
  by (simp add: Str_ofChar_def Str_of_def)

lemma readLine_from_spec:
  assumes "sized s" and "length acc + length (rest s) < 2 ^ 32"
  shows "(case run_state is_read s of (c, s') \<Rightarrow> readLine_from s' (Str_of acc) c) =
    Some (Str_of (acc @ takeWhile (\<lambda>b. b \<noteq> 10) (rest s)), acc = [] \<and> rest s = [],
          past s (min (length (rest s)) (Suc (length (takeWhile (\<lambda>b. b \<noteq> 10) (rest s))))))"
  using assms
proof (induction "rest s" arbitrary: s acc)
  case Nil
  then have "rest s = []" "run_state is_read s = (- 1, s)"
    using rest_Nil by metis+
  then show ?case
    using Nil.prems by (simp add: readLine_from.simps)
next
  case (Cons b bs)
  have r: "run_state is_read s = (ucast b, past s 1)" "rest (past s 1) = bs"
    using rest_Cons [OF Cons.prems(1), of b bs] Cons.hyps(2) by simp_all
  have b: "(ucast b :: u16) \<noteq> - 1" "(ucast b :: u16) = 10 \<longleftrightarrow> b = 10"
    using unsigned_less [of b, where 'a = nat] by (simp_all add: word_unat_eq_iff unat_ucast_up unsigned_minus_1_eq_mask mask_eq_exp_minus_1)
  show ?case
  proof (cases "b = 10")
    case True
    then show ?thesis
      using r b Cons.hyps(2) [symmetric] Cons.prems(2) by (simp add: readLine_from.simps)
  next
    case False
    have len: "length acc < 2 ^ 32"
      using Cons.prems(2) by simp
    have "(case run_state is_read (past s 1) of (c, s') \<Rightarrow> readLine_from s' (Str_of (acc @ [b])) c) =
      Some (Str_of ((acc @ [b]) @ takeWhile (\<lambda>b. b \<noteq> 10) bs), False,
            past (past s 1) (min (length bs) (Suc (length (takeWhile (\<lambda>b. b \<noteq> 10) bs)))))"
      using Cons.hyps(1) [of "past s 1" "acc @ [b]"] Cons.prems r(2) Cons.hyps(2) [symmetric]
      by (simp add: sized_def)
    then show ?thesis
      using False r(1) b Cons.hyps(2) [symmetric] len
      by (subst readLine_from.simps) (simp add: readLine_from.simps Str_ofChar_of)
  qed
qed

text \<open>
  A line is read completely: on a stream that enforces its size, \<^verbatim>\<open>readLine\<close> ends, returns the
  bytes before the first line feed, consumes them together with the line feed, and reports the end
  of the file exactly when nothing is left.
\<close>

theorem read_line_splits:
  assumes "sized s" and "length (rest s) < 2 ^ 32"
  shows "readLine s = Some (Str_of (takeWhile (\<lambda>b. b \<noteq> 10) (rest s)), rest s = [],
    past s (min (length (rest s)) (Suc (length (takeWhile (\<lambda>b. b \<noteq> 10) (rest s))))))"
  using readLine_from_spec [of s "[]"] assms by (simp add: readLine_def Str_of_def Str_new_def)

text \<open>A stream over the bytes \<open>bs\<close>, with zeros behind them.\<close>

definition stream_of :: "u8 list \<Rightarrow> ByteArrayInputStream" where
  "stream_of bs = ByteArrayInputStream_new (\<lambda>i. if unat i < length bs then bs ! unat i else 0) (of_nat (length bs))"

lemma stream_of_ahead: "length bs < 2 ^ 32 \<Longrightarrow> ahead (stream_of bs) bs"
  by (simp add: stream_of_def ByteArrayInputStream_new_def ahead_def unat_of_nat)

lemma rest_stream_of: "length bs < 2 ^ 32 \<Longrightarrow> rest (stream_of bs) = bs"
  by (intro nth_equalityI) (simp_all add: stream_of_def ByteArrayInputStream_new_def rest_def)

theorem read_line_splits_witness:
  "readLine (stream_of [104, 105, 10, 33]) = Some (Str_of [104, 105], False, past (stream_of [104, 105, 10, 33]) 3)"
  using read_line_splits [of "stream_of [104, 105, 10, 33]"]
  by (simp add: rest_stream_of) (simp add: stream_of_def ByteArrayInputStream_new_def sized_def)

end
