(* ===== verification/Print_Streams.thy ===== *)
theory Print_Streams
  imports Strings
begin

text \<open>
  \<^verbatim>\<open>Util::Io::ByteArrayOutputStream\<close> and \<^verbatim>\<open>Util::Io::PrintStream\<close> (lib/util/io/stream). The byte
  array stream is a buffer that grows by doubling; the print stream formats numbers and hands
  bytes to an output stream, which is represented by the list of the bytes it received. Printing
  a number and parsing it with \<^verbatim>\<open>Util::String\<close> is shown to be a round trip.
\<close>

section \<open>Byte array output stream\<close>

record ByteArrayOutputStream =
  bs_buffer :: "u8 list"
  bs_size :: u32
  bs_position :: u32
  bs_allocatedBuffer :: bool
  bs_enforceSizeLimit :: bool

definition ByteArrayOutputStream_new :: "u8 \<Rightarrow> u32 \<Rightarrow> ByteArrayOutputStream" where
  "ByteArrayOutputStream_new d n =
     \<lparr>bs_buffer = replicate (unat n) d, bs_size = n, bs_position = 0, bs_allocatedBuffer = True,
      bs_enforceSizeLimit = False\<rparr>"

definition ByteArrayOutputStream_onBuffer :: "u8 list \<Rightarrow> u32 \<Rightarrow> ByteArrayOutputStream" where
  "ByteArrayOutputStream_onBuffer buffer n =
     \<lparr>bs_buffer = buffer, bs_size = n, bs_position = 0, bs_allocatedBuffer = False,
      bs_enforceSizeLimit = False\<rparr>"

partial_function (option) double_until :: "u32 \<Rightarrow> u32 \<Rightarrow> u32 option" where
  [code]: "double_until newSize needed =
     (if newSize < needed then double_until (newSize * 2) needed else Some newSize)"

text \<open>Growing returns the number of bytes that may be written; \<open>None\<close>: the doubling does not end.\<close>

definition ensureRemainingCapacity :: "u8 \<Rightarrow> ByteArrayOutputStream \<Rightarrow> u32 \<Rightarrow> (u32 \<times> ByteArrayOutputStream) option" where
  "ensureRemainingCapacity d s cnt =
     (if bs_position s + cnt < bs_size s then Some (cnt, s)
      else if bs_enforceSizeLimit s then Some (bs_size s - bs_position s, s)
      else if \<not> bs_enforceSizeLimit s \<and> \<not> bs_allocatedBuffer s then Some (cnt, s)
      else case double_until (bs_size s * 2) (bs_position s + cnt) of
             None \<Rightarrow> None
           | Some newSize \<Rightarrow>
               let n = unat (bs_position s)
               in Some (cnt, s\<lparr>bs_buffer := take n (bs_buffer s) @ drop n (replicate (unat newSize) d),
                                 bs_size := newSize\<rparr>))"

text \<open>A write behind the end of the buffer is undefined behaviour: \<open>None\<close>.\<close>

definition bs_write :: "u8 \<Rightarrow> ByteArrayOutputStream \<Rightarrow> u8 list \<Rightarrow> u32 \<Rightarrow> u32 \<Rightarrow> ByteArrayOutputStream option" where
  "bs_write d s source offset n =
     (case ensureRemainingCapacity d s n of
        None \<Rightarrow> None
      | Some (len, s) \<Rightarrow>
          let p = unat (bs_position s); bytes = take (unat len) (drop (unat offset) source)
          in if length (bs_buffer s) < p + unat len then None
             else Some (s\<lparr>bs_buffer := take p (bs_buffer s) @ bytes @ drop (p + unat len) (bs_buffer s),
                          bs_position := bs_position s + len\<rparr>))"

definition bs_write_byte :: "u8 \<Rightarrow> ByteArrayOutputStream \<Rightarrow> u8 \<Rightarrow> ByteArrayOutputStream option" where
  "bs_write_byte d s c =
     (case ensureRemainingCapacity d s 1 of
        None \<Rightarrow> None
      | Some (len, s) \<Rightarrow>
          if len = 0 then Some s
          else if length (bs_buffer s) \<le> unat (bs_position s) then None
          else Some (s\<lparr>bs_buffer := (bs_buffer s)[unat (bs_position s) := c],
                       bs_position := bs_position s + 1\<rparr>))"

definition bs_getContent :: "ByteArrayOutputStream \<Rightarrow> Str" where
  "bs_getContent s = Str_ofData (bs_buffer s) (bs_position s)"

definition bs_copyContent :: "ByteArrayOutputStream \<Rightarrow> u8 list \<Rightarrow> u32 \<Rightarrow> u8 list" where
  "bs_copyContent s target n =
     (let k = unat (if n < bs_size s then n else bs_size s) in take k (bs_buffer s) @ drop k target)"

definition bs_getLength :: "ByteArrayOutputStream \<Rightarrow> u32" where
  "bs_getLength s = bs_position s"

definition bs_isEmpty :: "ByteArrayOutputStream \<Rightarrow> bool" where
  "bs_isEmpty s = (bs_position s = 0)"

definition bs_reset :: "ByteArrayOutputStream \<Rightarrow> ByteArrayOutputStream" where
  "bs_reset s = s\<lparr>bs_position := 0\<rparr>"

definition bs_sizeLimitReached :: "ByteArrayOutputStream \<Rightarrow> bool" where
  "bs_sizeLimitReached s = (bs_enforceSizeLimit s \<and> bs_position s = bs_size s)"

definition bs_setEnforceSizeLimit :: "ByteArrayOutputStream \<Rightarrow> bool \<Rightarrow> ByteArrayOutputStream" where
  "bs_setEnforceSizeLimit s v = s\<lparr>bs_enforceSizeLimit := v\<rparr>"

subsection \<open>Writes append\<close>

definition bs_ok :: "ByteArrayOutputStream \<Rightarrow> bool" where
  "bs_ok s \<longleftrightarrow> length (bs_buffer s) = unat (bs_size s) \<and> bs_position s \<le> bs_size s \<and> 0 < unat (bs_size s) \<and>
     (bs_allocatedBuffer s \<or> bs_enforceSizeLimit s)"

definition bs_bytes :: "ByteArrayOutputStream \<Rightarrow> u8 list" where
  "bs_bytes s = take (unat (bs_position s)) (bs_buffer s)"

lemma double_until_ends:
  assumes "0 < unat n" and "unat needed \<le> 2 ^ 31" and "unat n \<le> 2 ^ 31"
  shows "\<exists>m. double_until n needed = Some m \<and> unat needed \<le> unat m \<and> unat n \<le> unat m"
  using assms(1,3)
proof (induction "2 ^ 31 - unat n" arbitrary: n rule: less_induct)
  case less
  show ?case
  proof (cases "n < needed")
    case True
    have lt: "unat n < 2 ^ 31"
      using True assms(2) by (simp add: word_less_nat_alt)
    have d: "unat (n * 2) = unat n * 2"
      using lt by (simp add: unat_word_ariths(2))
    show ?thesis
    proof (cases "unat n * 2 \<le> 2 ^ 31")
      case True
      then have "\<exists>m. double_until (n * 2) needed = Some m \<and> unat needed \<le> unat m \<and> unat (n * 2) \<le> unat m"
        using less.prems lt d by (intro less.hyps) auto
      then show ?thesis
        using \<open>n < needed\<close> d by (subst double_until.simps) auto
    next
      case False
      then have "\<not> n * 2 < needed"
        using assms(2) d by (simp add: word_less_nat_alt)
      then have "double_until (n * 2) needed = Some (n * 2)"
        by (subst double_until.simps) simp
      then show ?thesis
        using \<open>n < needed\<close> d False assms(2) by (subst double_until.simps) simp
    qed
  next
    case False
    then show ?thesis
      by (subst double_until.simps) (simp add: word_less_nat_alt)
  qed
qed

text \<open>
  C22. Writing to a byte array stream appends. For a stream with a non-empty buffer that it owns or
  whose size limit is enforced, a buffer and a content of at most 2^30 bytes, and \<open>n\<close> bytes of the
  source from \<open>offset\<close> on: the doubling ends, no write leaves the buffer, the stream keeps its
  invariant, and the content afterwards is the old content followed by the written bytes. Without size
  limit these are all \<open>n\<close> bytes, with it as many of them as fit into the buffer.
\<close>

theorem byte_stream_appends:
  assumes "bs_ok s" and "unat (bs_size s) \<le> 2 ^ 30" and "unat (bs_position s) + unat n \<le> 2 ^ 30"
    and "unat offset + unat n \<le> length source"
  defines "k \<equiv> if bs_enforceSizeLimit s then min (unat n) (unat (bs_size s) - unat (bs_position s)) else unat n"
  shows "\<exists>s'. bs_write d s source offset n = Some s' \<and> bs_ok s' \<and>
    bs_bytes s' = bs_bytes s @ take k (drop (unat offset) source)"
proof -
  have sum: "unat (bs_position s + n) = unat (bs_position s) + unat n"
    using assms(3) by (simp add: unat_word_ariths(1))
  have pos: "unat (bs_position s) \<le> unat (bs_size s)" and len: "length (bs_buffer s) = unat (bs_size s)" "0 < unat (bs_size s)"
    using assms(1) by (simp_all add: bs_ok_def word_le_nat_alt)
  consider (fits) "bs_position s + n < bs_size s" | (limit) "\<not> bs_position s + n < bs_size s" "bs_enforceSizeLimit s"
    | (grow) "\<not> bs_position s + n < bs_size s" "\<not> bs_enforceSizeLimit s"
    by blast
  then show ?thesis
  proof cases
    case fits
    then have "unat (bs_position s) + unat n < unat (bs_size s)"
      using sum by (simp add: word_less_nat_alt)
    then show ?thesis
      using fits assms(1,4) sum
      by (auto simp: k_def bs_write_def ensureRemainingCapacity_def Let_def bs_ok_def bs_bytes_def word_le_nat_alt)
  next
    case limit
    let ?r = "bs_size s - bs_position s"
    have r: "unat ?r = unat (bs_size s) - unat (bs_position s)" "bs_position s + ?r = bs_size s"
      using pos by (simp_all add: unat_sub word_le_nat_alt)
    have "unat (bs_size s) \<le> unat (bs_position s) + unat n"
      using limit(1) sum by (simp add: word_less_nat_alt)
    then show ?thesis
      using limit assms(1,4) r pos len
      by (auto simp: k_def bs_write_def ensureRemainingCapacity_def Let_def bs_ok_def bs_bytes_def)
  next
    case grow
    have "unat (bs_size s * 2) = unat (bs_size s) * 2"
      using assms(2) by (simp add: unat_word_ariths(2))
    then obtain m where m: "double_until (bs_size s * 2) (bs_position s + n) = Some m"
      "unat (bs_position s) + unat n \<le> unat m" "unat (bs_size s) * 2 \<le> unat m"
      using double_until_ends [of "bs_size s * 2" "bs_position s + n"] assms(1-3) sum by (auto simp: bs_ok_def)
    have own: "bs_allocatedBuffer s"
      using assms(1) grow(2) by (simp add: bs_ok_def)
    have c: "ensureRemainingCapacity d s n =
        Some (n, s\<lparr>bs_buffer := take (unat (bs_position s)) (bs_buffer s) @ drop (unat (bs_position s)) (replicate (unat m) d),
                    bs_size := m\<rparr>)"
      using grow own m(1) by (simp add: ensureRemainingCapacity_def Let_def)
    then show ?thesis
      using m(2,3) sum pos own len grow(2) assms(4)
      by (auto simp: k_def bs_write_def Let_def bs_ok_def bs_bytes_def word_le_nat_alt min_absorb2)
  qed
qed

theorem byte_stream_appends_witness:
  "(\<exists>s'. bs_write 0 (ByteArrayOutputStream_new 0 2) [6, 7, 8, 9] 1 3 = Some s' \<and> bs_ok s' \<and> bs_bytes s' = [7, 8, 9]) \<and>
   (\<exists>s'. bs_write 0 (bs_setEnforceSizeLimit (ByteArrayOutputStream_onBuffer [0, 0] 2) True) [6, 7, 8, 9] 1 3 = Some s' \<and>
      bs_bytes s' = [7, 8])"
  using byte_stream_appends [of "ByteArrayOutputStream_new 0 2" 3 1 "[6, 7, 8, 9]" 0]
    byte_stream_appends [of "bs_setEnforceSizeLimit (ByteArrayOutputStream_onBuffer [0, 0] 2) True" 3 1 "[6, 7, 8, 9]" 0]
  by (auto simp: ByteArrayOutputStream_new_def ByteArrayOutputStream_onBuffer_def bs_setEnforceSizeLimit_def bs_ok_def bs_bytes_def)

section \<open>Print stream\<close>

record PrintStream =
  ps_out :: "u8 list"
  ps_base :: u8
  ps_numberPadding :: u8
  ps_rightPadding :: bool
  ps_negativeSign :: u8
  ps_positiveSign :: u8
  ps_hexNumericBase :: u8
  ps_minimumIntegerPrecision :: int
  ps_bytesWritten :: u32
  ps_integerPrefix :: Str

definition PrintStream_new :: "u8 list \<Rightarrow> PrintStream" where
  "PrintStream_new out =
     \<lparr>ps_out = out, ps_base = 10, ps_numberPadding = 0, ps_rightPadding = False, ps_negativeSign = 45,
      ps_positiveSign = 0, ps_hexNumericBase = 65, ps_minimumIntegerPrecision = 1, ps_bytesWritten = 0,
      ps_integerPrefix = Str_ofCString (Some [0])\<rparr>"

definition ps_write :: "PrintStream \<Rightarrow> u8 list \<Rightarrow> u32 \<Rightarrow> u32 \<Rightarrow> PrintStream" where
  "ps_write ps source offset n =
     ps\<lparr>ps_out := ps_out ps @ take (unat n) (drop (unat offset) source),
        ps_bytesWritten := ps_bytesWritten ps + n\<rparr>"

definition ps_write_byte :: "PrintStream \<Rightarrow> u8 \<Rightarrow> PrintStream" where
  "ps_write_byte ps c =
     (let ps = ps_write ps [c] 0 1 in ps\<lparr>ps_bytesWritten := ps_bytesWritten ps + 1\<rparr>)"

definition setBase :: "PrintStream \<Rightarrow> u8 \<Rightarrow> PrintStream" where
  "setBase ps newBase = ps\<lparr>ps_base := newBase\<rparr>"

definition setNumberJustification :: "PrintStream \<Rightarrow> bool \<Rightarrow> PrintStream" where
  "setNumberJustification ps leftJustified = ps\<lparr>ps_rightPadding := leftJustified\<rparr>"

definition setNumberPadding :: "PrintStream \<Rightarrow> int \<Rightarrow> PrintStream" where
  "setNumberPadding ps padding =
     (if padding < 0 then (setNumberJustification ps True)\<lparr>ps_numberPadding := word_of_int (padding * - 1)\<rparr>
      else ps\<lparr>ps_numberPadding := word_of_int padding\<rparr>)"

definition setPositiveSign :: "PrintStream \<Rightarrow> u8 \<Rightarrow> PrintStream" where
  "setPositiveSign ps s = ps\<lparr>ps_positiveSign := s\<rparr>"

definition setNegativeSign :: "PrintStream \<Rightarrow> u8 \<Rightarrow> PrintStream" where
  "setNegativeSign ps s = ps\<lparr>ps_negativeSign := s\<rparr>"

definition setIntegerPrecision :: "PrintStream \<Rightarrow> u32 \<Rightarrow> PrintStream" where
  "setIntegerPrecision ps v = ps\<lparr>ps_minimumIntegerPrecision := sint v\<rparr>"

definition setIntegerPrefix :: "PrintStream \<Rightarrow> Str \<Rightarrow> PrintStream" where
  "setIntegerPrefix ps str = ps\<lparr>ps_integerPrefix := str\<rparr>"

definition setHexNumericBase :: "PrintStream \<Rightarrow> u8 \<Rightarrow> PrintStream" where
  "setHexNumericBase ps b = ps\<lparr>ps_hexNumericBase := b\<rparr>"

definition print_cstr :: "PrintStream \<Rightarrow> u8 list \<Rightarrow> u32 \<Rightarrow> PrintStream" where
  "print_cstr ps string maxBytes =
     (let len = of_nat (length (takeWhile (\<lambda>c. c \<noteq> 0) string)) :: u32
      in ps_write ps string 0 (if maxBytes < len then maxBytes else len))"

definition print_str :: "PrintStream \<Rightarrow> Str \<Rightarrow> PrintStream" where
  "print_str ps string = ps_write ps (s_buffer string) 0 (s_len string)"

definition print_bool :: "PrintStream \<Rightarrow> bool \<Rightarrow> PrintStream" where
  "print_bool ps b = print_cstr ps (if b then [116, 114, 117, 101, 0] else [102, 97, 108, 115, 101, 0]) UINT32_MAX"

text \<open>
  The divisor of the leading digit, and the loop over the digits; the divisor has 32 bits and the
  number 64. \<open>None\<close> is a division by zero or a loop that does not end.
\<close>

partial_function (option) div_loop :: "u64 \<Rightarrow> u32 \<Rightarrow> u8 \<Rightarrow> u32 option" where
  [code]: "div_loop number d base =
     (if d = 0 then None
      else if ucast base \<le> number div ucast d then div_loop number (d * ucast base) base
      else Some d)"

partial_function (option) digit_loop :: "u64 \<Rightarrow> u32 \<Rightarrow> u8 \<Rightarrow> u8 \<Rightarrow> u8 list \<Rightarrow> u8 list option" where
  [code]: "digit_loop number d base hexBase out =
     (if d = 0 then Some out
      else if base = 0 then None
      else let digit = ucast (number div ucast d) :: u8;
               c = (if sint digit < 10 then 48 + digit else hexBase + digit - 10)
           in digit_loop (number mod ucast d) (d div ucast base) base hexBase (out @ [c]))"

primrec write_times :: "nat \<Rightarrow> PrintStream \<Rightarrow> u8 \<Rightarrow> PrintStream" where
  "write_times 0 ps c = ps"
| "write_times (Suc n) ps c = write_times n (ps_write_byte ps c) c"

definition print_u64 :: "PrintStream \<Rightarrow> u64 \<Rightarrow> u8 \<Rightarrow> PrintStream option" where
  "print_u64 ps number sign =
     (case div_loop number 1 (ps_base ps) of
        None \<Rightarrow> None
      | Some d \<Rightarrow>
     (case digit_loop number d (ps_base ps) (ps_hexNumericBase ps) [] of
        None \<Rightarrow> None
      | Some digits \<Rightarrow>
          let n = int (length digits);
              full = (if n < ps_minimumIntegerPrecision ps then ps_minimumIntegerPrecision ps else n)
                     + uint (s_len (ps_integerPrefix ps)) + (if sign \<noteq> 0 then 1 else 0);
              padding = uint (ps_numberPadding ps);
              ps1 = (if \<not> ps_rightPadding ps then write_times (nat (padding - full)) ps 32 else ps);
              ps2 = (if sign \<noteq> 0 then ps_write_byte ps1 sign else ps1);
              ps3 = print_str ps2 (ps_integerPrefix ps);
              ps4 = write_times (nat (ps_minimumIntegerPrecision ps - n)) ps3 48;
              ps5 = print_str ps4 (Str_ofData digits (of_nat (length digits)))
          in Some (if ps_rightPadding ps then write_times (nat (padding - n)) ps5 32 else ps5)))"

text \<open>The signed printer narrows the absolute value to 32 bits.\<close>

definition print_i64 :: "PrintStream \<Rightarrow> u64 \<Rightarrow> PrintStream option" where
  "print_i64 ps number =
     (if sint number < 0 then print_u64 ps (ucast (ucast (- number) :: u32)) (ps_negativeSign ps)
      else print_u64 ps (ucast (ucast number :: u32)) (ps_positiveSign ps))"

definition print_i32 :: "PrintStream \<Rightarrow> u32 \<Rightarrow> PrintStream option" where
  "print_i32 ps number = print_i64 ps (scast number)"

definition print_u32 :: "PrintStream \<Rightarrow> u32 \<Rightarrow> PrintStream option" where
  "print_u32 ps number = print_u64 ps (ucast number) 0"

definition print_i16 :: "PrintStream \<Rightarrow> u16 \<Rightarrow> PrintStream option" where
  "print_i16 ps number = print_i64 ps (scast number)"

definition print_u16 :: "PrintStream \<Rightarrow> u16 \<Rightarrow> PrintStream option" where
  "print_u16 ps number = print_u64 ps (ucast number) 0"

definition print_i8 :: "PrintStream \<Rightarrow> u8 \<Rightarrow> PrintStream option" where
  "print_i8 ps number = print_i64 ps (scast number)"

definition print_u8 :: "PrintStream \<Rightarrow> u8 \<Rightarrow> PrintStream option" where
  "print_u8 ps number = print_u64 ps (ucast number) 0"

definition print_pointer :: "PrintStream \<Rightarrow> u32 \<Rightarrow> PrintStream option" where
  "print_pointer ps p = print_u32 ps p"

definition ps_println :: "PrintStream \<Rightarrow> PrintStream" where
  "ps_println ps = ps_write_byte ps 10"

definition println_str :: "PrintStream \<Rightarrow> Str \<Rightarrow> PrintStream" where
  "println_str ps string = ps_println (print_str ps string)"

definition println_cstr :: "PrintStream \<Rightarrow> u8 list \<Rightarrow> PrintStream" where
  "println_cstr ps string = ps_println (print_cstr ps string UINT32_MAX)"

definition println_bool :: "PrintStream \<Rightarrow> bool \<Rightarrow> PrintStream" where
  "println_bool ps b = ps_println (print_bool ps b)"

definition println_i64 :: "PrintStream \<Rightarrow> u64 \<Rightarrow> PrintStream option" where
  "println_i64 ps number = map_option ps_println (print_i64 ps number)"

definition println_u64 :: "PrintStream \<Rightarrow> u64 \<Rightarrow> PrintStream option" where
  "println_u64 ps number = map_option ps_println (print_u64 ps number 0)"

definition println_i32 :: "PrintStream \<Rightarrow> u32 \<Rightarrow> PrintStream option" where
  "println_i32 ps number = map_option ps_println (print_i32 ps number)"

definition println_u32 :: "PrintStream \<Rightarrow> u32 \<Rightarrow> PrintStream option" where
  "println_u32 ps number = map_option ps_println (print_u32 ps number)"

definition ps_bin :: "PrintStream \<Rightarrow> PrintStream" where
  "ps_bin ps = setBase ps 2"

definition ps_oct :: "PrintStream \<Rightarrow> PrintStream" where
  "ps_oct ps = setBase ps 8"

definition ps_dec :: "PrintStream \<Rightarrow> PrintStream" where
  "ps_dec ps = setBase ps 10"

definition ps_hex :: "PrintStream \<Rightarrow> PrintStream" where
  "ps_hex ps = setBase ps 16"

section \<open>Formatted output\<close>

text \<open>
  \<^verbatim>\<open>String::vformat\<close>. The variable arguments are a list; reading an argument of another kind or
  behind the end is undefined behaviour (\<open>None\<close>), an invalid format throws (\<open>Some (Inl _)\<close>).
  \<open>format_step\<close> is the switch over the specifier, \<open>vformat_from\<close> the loop over the format.
\<close>

datatype Arg = ArgInt u32 | ArgStr "u8 list"

fun format_step :: "PrintStream \<Rightarrow> u8 \<Rightarrow> Arg list \<Rightarrow> (PrintStream \<times> Arg list) result option" where
  "format_step ps specifier args =
     (if specifier = 99 then (case args of ArgInt v # rest \<Rightarrow> Some (Inr (ps_write_byte ps (ucast v), rest)) | _ \<Rightarrow> None)
      else if specifier = 100 then (case args of ArgInt v # rest \<Rightarrow> map_option (\<lambda>ps. Inr (ps, rest)) (print_i32 (ps_dec ps) v) | _ \<Rightarrow> None)
      else if specifier = 117 then (case args of ArgInt v # rest \<Rightarrow> map_option (\<lambda>ps. Inr (ps, rest)) (print_u32 (ps_dec ps) v) | _ \<Rightarrow> None)
      else if specifier = 111 then (case args of ArgInt v # rest \<Rightarrow> map_option (\<lambda>ps. Inr (ps, rest)) (print_u32 (ps_oct ps) v) | _ \<Rightarrow> None)
      else if specifier = 115 then (case args of ArgStr s # rest \<Rightarrow> Some (Inr (print_cstr ps s UINT32_MAX, rest)) | _ \<Rightarrow> None)
      else if specifier = 120 then (case args of ArgInt v # rest \<Rightarrow> map_option (\<lambda>ps. Inr (ps, rest)) (print_u32 (ps_hex ps) v) | _ \<Rightarrow> None)
      else if specifier = 98 then (case args of ArgInt v # rest \<Rightarrow> map_option (\<lambda>ps. Inr (ps, rest)) (print_u32 (ps_bin ps) v) | _ \<Rightarrow> None)
      else if specifier = 66 then (case args of ArgInt v # rest \<Rightarrow> Some (Inr (print_bool ps (v \<noteq> 0), rest)) | _ \<Rightarrow> None)
      else Some (Inl INVALID_ARGUMENT))"

text \<open>
  The format is consumed from the front: literal characters up to the next percent sign, an
  optional padding \<^verbatim>\<open>0n\<close>, the specifier. The list ends where the terminator stands; reading
  behind it yields the terminator.
\<close>

definition peek :: "u8 list \<Rightarrow> nat \<Rightarrow> u8" where
  "peek fmt i = (if i < length fmt then fmt ! i else 0)"

function vformat_from :: "PrintStream \<Rightarrow> u8 list \<Rightarrow> Arg list \<Rightarrow> PrintStream result option" where
  "vformat_from ps fmt args =
     (if fmt = [] then Some (Inr ps)
      else let j = length (takeWhile (\<lambda>c. c \<noteq> 37) fmt);
               ps = ps_write ps fmt 0 (of_nat j)
           in if peek fmt j = 37
              then let ps = setIntegerPrecision ps 0
                   in if peek fmt (j + 1) = 48
                      then let padding = peek fmt (j + 2) - 48
                           in if padding < 1 \<or> 9 < padding then Some (Inl INVALID_ARGUMENT)
                              else case format_step (setIntegerPrecision ps (ucast padding)) (peek fmt (j + 3)) args of
                                     None \<Rightarrow> None
                                   | Some (Inl e) \<Rightarrow> Some (Inl e)
                                   | Some (Inr (ps, args)) \<Rightarrow> vformat_from (setNumberPadding ps 0) (drop (j + 4) fmt) args
                      else case format_step ps (peek fmt (j + 1)) args of
                             None \<Rightarrow> None
                           | Some (Inl e) \<Rightarrow> Some (Inl e)
                           | Some (Inr (ps, args)) \<Rightarrow> vformat_from (setNumberPadding ps 0) (drop (j + 2) fmt) args
              else Some (Inr ps))"
  by auto
termination
  by (relation "measure (\<lambda>(ps, fmt, args). length fmt)") auto

declare vformat_from.simps [simp del] format_step.simps [simp del]

definition vformat :: "u8 list \<Rightarrow> Arg list \<Rightarrow> u8 list result option" where
  "vformat format args =
     map_option (map_sum id ps_out)
       (vformat_from (PrintStream_new []) (takeWhile (\<lambda>c. c \<noteq> 0) format) args)"

section \<open>Printed numbers\<close>

text \<open>The digits of \<open>n\<close> to the base \<open>b\<close>, from position \<open>k\<close> down, and their characters.\<close>

primrec digits :: "nat \<Rightarrow> nat \<Rightarrow> nat \<Rightarrow> nat list" where
  "digits b 0 n = [n]"
| "digits b (Suc k) n = n div b ^ Suc k # digits b k (n mod b ^ Suc k)"

definition digit_char :: "u8 \<Rightarrow> nat \<Rightarrow> u8" where
  "digit_char h d = (if d < 10 then 48 + of_nat d else h + of_nat d - 10)"

lemma length_digits [simp]: "length (digits b k n) = Suc k"
  by (induction k arbitrary: n) simp_all

text \<open>
  What a parser has to do with one digit in order to read back printed numbers; the parsers of
  \<^verbatim>\<open>Util::String\<close> visit the digits from the last to the first.
\<close>

locale digit_parser =
  fixes parse :: "u8 list \<Rightarrow> u32 \<Rightarrow> u32 \<Rightarrow> u32" and b :: nat and h :: u8
  assumes b_pos: "0 < b"
    and parse_Nil: "parse [] j r = r"
    and parse_digit: "d < b \<Longrightarrow> parse (digit_char h d # cs) j r = parse cs (j * of_nat b) (r + of_nat d * j)"
begin

lemma parse_digits_app:
  assumes "n < b ^ Suc k"
  shows "parse (rev (map (digit_char h) (digits b k n)) @ xs) j r =
    parse xs (j * of_nat (b ^ Suc k)) (r + of_nat n * j)"
  using assms
proof (induction k arbitrary: n xs j r)
  case 0
  then show ?case
    by (simp add: parse_digit)
next
  case (Suc k)
  have q: "n div b ^ Suc k < b"
    using Suc.prems by (simp add: less_mult_imp_div_less mult.commute)
  have m: "n mod b ^ Suc k < b ^ Suc k"
    using b_pos by simp
  have split: "(of_nat n :: u32) = of_nat (n mod b ^ Suc k) + of_nat (n div b ^ Suc k) * of_nat (b ^ Suc k)"
    by (metis add.commute div_mult_mod_eq of_nat_add of_nat_mult)
  have "parse (rev (map (digit_char h) (digits b (Suc k) n)) @ xs) j r =
      parse (digit_char h (n div b ^ Suc k) # xs) (j * of_nat (b ^ Suc k)) (r + of_nat (n mod b ^ Suc k) * j)"
    using Suc.IH [OF m, of "digit_char h (n div b ^ Suc k) # xs" j r] by simp
  also have "\<dots> = parse xs (j * of_nat (b ^ Suc k) * of_nat b)
      (r + of_nat (n mod b ^ Suc k) * j + of_nat (n div b ^ Suc k) * (j * of_nat (b ^ Suc k)))"
    using q by (rule parse_digit)
  also have "r + of_nat (n mod b ^ Suc k) * j + of_nat (n div b ^ Suc k) * (j * of_nat (b ^ Suc k)) = r + of_nat n * j"
    by (simp only: split algebra_simps)
  also have "j * of_nat (b ^ Suc k) * of_nat b = j * (of_nat (b ^ Suc (Suc k)) :: u32)"
    by (simp add: algebra_simps)
  finally show ?case .
qed

lemma parse_printed:
  "n < b ^ Suc k \<Longrightarrow> parse (rev (map (digit_char h) (digits b k n))) 1 0 = of_nat n"
  using parse_digits_app [of n k "[]" 1 0] by (simp add: parse_Nil)

end

lemma sint_small:
  assumes "unat (c :: u8) < 128"
  shows "sint c = int (unat c)"
proof -
  have t: "signed_take_bit 7 (int k) = int k" if "k < 128" for k
    using that by (intro signed_take_bit_int_eq_self) simp_all
  have "sint c = signed_take_bit 7 (uint c)"
    by (simp add: sint_uint)
  then show ?thesis
    unfolding uint_nat using t [OF assms] by (rule trans)
qed

lemma digit_char_cases:
  assumes "d < 16"
  shows "unat (digit_char 65 d) = (if d < 10 then 48 + d else 55 + d)"
    and "sint (digit_char 65 d) = int (unat (digit_char 65 d))"
    and "(scast (digit_char 65 d) :: u32) = of_nat (if d < 10 then 48 + d else 55 + d)"
proof -
  have "unat (48 + of_nat d :: u8) = 48 + d" "unat (65 + of_nat d - 10 :: u8) = 55 + d" if "d < 16"
    using that by (simp_all add: unat_word_ariths unat_of_nat unat_sub_if_size word_size)
  then show u: "unat (digit_char 65 d) = (if d < 10 then 48 + d else 55 + d)"
    using assms by (simp add: digit_char_def)
  show s: "sint (digit_char 65 d) = int (unat (digit_char 65 d))"
    using u assms by (intro sint_small) simp
  have "(scast (digit_char 65 d) :: u32) = word_of_int (sint (digit_char 65 d))"
    by simp
  also have "\<dots> = of_nat (if d < 10 then 48 + d else 55 + d)"
    unfolding s u by simp
  finally show "(scast (digit_char 65 d) :: u32) = of_nat (if d < 10 then 48 + d else 55 + d)" .
qed

interpretation dec: digit_parser parse_digits 10 65
proof
  fix d :: nat and cs j r
  assume d: "d < 10"
  then show "parse_digits (digit_char 65 d # cs) j r = parse_digits cs (j * of_nat 10) (r + of_nat d * j)"
    using digit_char_cases [of d] by (simp add: isNumeric_def)
qed simp_all

interpretation hexa: digit_parser parse_hex_digits 16 65
proof
  fix d :: nat and cs j r
  assume d: "d < 16"
  show "parse_hex_digits (digit_char 65 d # cs) j r = parse_hex_digits cs (j * of_nat 16) (r + of_nat d * j)"
    using digit_char_cases [OF d] d by (simp add: isNumeric_def)
qed simp_all

subsection \<open>The loops of the printer\<close>

lemma div_loop_spec:
  assumes "2 \<le> unat b" and "unat number < 2 ^ 32" and "unat b ^ k \<le> max 1 (unat number)"
  shows "\<exists>K. div_loop number (of_nat (unat b ^ k)) b = Some (of_nat (unat b ^ K)) \<and>
    unat b ^ K \<le> max 1 (unat number) \<and> unat number < unat b ^ Suc K"
  using assms(3)
proof (induction "unat number - unat b ^ k" arbitrary: k rule: less_induct)
  case less
  let ?B = "unat b" and ?n = "unat number"
  let ?d = "of_nat (?B ^ k) :: u32"
  have d: "unat ?d = ?B ^ k"
    using less.prems assms(2) by (intro unat_of_nat32) (auto simp: max_def split: if_splits)
  have dpos: "0 < ?B ^ k"
    using assms(1) by simp
  have dne: "?d \<noteq> 0"
    using d dpos by (metis unat_0 less_irrefl)
  have wide: "unat (number div ucast ?d) = ?n div ?B ^ k" "unat (ucast b :: u64) = ?B"
    using d by (simp_all add: unat_div_distrib unat_ucast_up del: of_nat_power)
  have mul: "?d * ucast b = of_nat (?B ^ Suc k)"
    by (simp only: ucast_of_nat_unat power_Suc of_nat_mult mult.commute)
  show ?case
  proof (cases "?B \<le> ?n div ?B ^ k")
    case True
    then have le: "?B ^ Suc k \<le> ?n"
      using dpos by (simp add: less_eq_div_iff_mult_less_eq mult.commute)
    have step: "div_loop number ?d b = div_loop number (of_nat (?B ^ Suc k)) b"
      unfolding mul [symmetric] using True wide dne
      by (subst div_loop.simps) (simp add: word_le_nat_alt del: of_nat_power)
    have "?B ^ k < ?B ^ Suc k"
      using assms(1) by simp
    then have "?n - ?B ^ Suc k < ?n - ?B ^ k"
      using le by linarith
    then show ?thesis
      unfolding step using le by (intro less.hyps) auto
  next
    case False
    have "div_loop number ?d b = Some ?d"
      using False wide dne by (subst div_loop.simps) (simp add: word_le_nat_alt del: of_nat_power)
    moreover have "?n < ?B ^ Suc k"
      using False div_less_iff_less_mult [OF dpos, of ?n ?B] by (simp add: not_le)
    ultimately show ?thesis
      using less.prems by blast
  qed
qed

lemma digit_char_of:
  assumes "unat q < 16"
  shows "(if sint q < 10 then 48 + q else h + q - 10) = digit_char h (unat q)"
proof -
  have s: "sint q = int (unat q)"
    using assms by (intro sint_small) simp
  have "sint q < 10 \<longleftrightarrow> unat q < 10"
    unfolding s by linarith
  then show ?thesis
    by (simp add: digit_char_def)
qed

lemma digit_loop_zero: "digit_loop number 0 b h out = Some out"
  by (subst digit_loop.simps) simp

lemma digit_loop_spec:
  assumes "2 \<le> unat b" and "unat b \<le> 16" and "unat b ^ k < 2 ^ 32" and "unat number < unat b ^ Suc k"
  shows "digit_loop number (of_nat (unat b ^ k)) b h out =
    Some (out @ map (digit_char h) (digits (unat b) k (unat number)))"
  using assms(3,4)
proof (induction k arbitrary: number out)
  case (0 number out)
  have n: "unat number < 16"
    using 0 assms(2) by simp
  define q8 where "q8 = (ucast number :: u8)"
  have "unat q8 = unat number"
    unfolding q8_def using n by (simp add: unat_ucast_mod)
  then have ch: "(if sint q8 < 10 then 48 + q8 else h + q8 - 10) = digit_char h (unat number)"
    using digit_char_of [of q8 h] n by simp
  have "(1 :: u32) div ucast b = 0"
    using assms(1) by (simp add: word_unat_eq_iff unat_div_distrib unat_ucast_up)
  moreover have "b \<noteq> 0"
    using assms(1) by auto
  ultimately show ?case
    using ch unfolding q8_def by (subst digit_loop.simps) (simp add: Let_def digit_loop_zero)
next
  case (Suc k)
  let ?B = "unat b" and ?n = "unat number"
  let ?d = "of_nat (?B ^ Suc k) :: u32"
  have d: "unat ?d = ?B ^ Suc k"
    using Suc.prems by (intro unat_of_nat32) simp
  have q: "?n div ?B ^ Suc k < ?B"
    using Suc.prems(2) by (simp add: less_mult_imp_div_less mult.commute)
  have wide: "unat (number div ucast ?d) = ?n div ?B ^ Suc k" "unat (number mod ucast ?d) = ?n mod ?B ^ Suc k"
    using d by (simp_all add: unat_div_distrib unat_mod_distrib unat_ucast_up del: power_Suc of_nat_power)
  define q8 where "q8 = (ucast (number div ucast ?d) :: u8)"
  have q8: "unat q8 = ?n div ?B ^ Suc k"
    unfolding q8_def using q assms(2) wide by (simp add: unat_ucast_mod del: power_Suc of_nat_power)
  then have ch: "(if sint q8 < 10 then 48 + q8 else h + q8 - 10) = digit_char h (?n div ?B ^ Suc k)"
    using digit_char_of [of q8 h] q assms(2) by (simp del: power_Suc)
  have dd: "?d div ucast b = of_nat (?B ^ k)"
  proof -
    have "?B ^ k \<le> ?B ^ Suc k"
      using assms(1) by simp
    then have "unat (of_nat (?B ^ k) :: u32) = ?B ^ k"
      using Suc.prems(1) by (intro unat_of_nat32) linarith
    moreover have "unat (?d div ucast b) = ?B ^ Suc k div ?B"
      using d by (simp add: unat_div_distrib unat_ucast_up del: power_Suc of_nat_power)
    ultimately show ?thesis
      using assms(1) by (simp only: word_unat_eq_iff) simp
  qed
  have ne: "?d \<noteq> 0" "b \<noteq> 0"
    using d assms(1) by auto
  have "digit_loop number ?d b h out =
      digit_loop (number mod ucast ?d) (of_nat (?B ^ k)) b h (out @ [digit_char h (?n div ?B ^ Suc k)])"
    using ne by (subst digit_loop.simps) (simp only: Let_def if_False q8_def [symmetric] ch dd)
  also have "\<dots> = Some ((out @ [digit_char h (?n div ?B ^ Suc k)]) @
      map (digit_char h) (digits ?B k (unat (number mod ucast ?d))))"
  proof (rule Suc.IH)
    have "?B ^ k \<le> ?B ^ Suc k"
      using assms(1) by simp
    then show "?B ^ k < 2 ^ 32"
      using Suc.prems(1) by linarith
    show "unat (number mod ucast ?d) < ?B ^ Suc k"
      unfolding wide using assms(1) by (intro mod_less_divisor) simp
  qed
  finally show ?case
    using wide by simp
qed

text \<open>
  What printing a number below 2^32 appends to the output of a stream without padding, prefix
  and minimum precision.
\<close>

definition plain :: "PrintStream \<Rightarrow> bool" where
  "plain ps \<longleftrightarrow> ps_numberPadding ps = 0 \<and> ps_minimumIntegerPrecision ps \<le> 1 \<and> ps_integerPrefix ps = Str_of [] \<and>
     \<not> ps_rightPadding ps \<and> 2 \<le> unat (ps_base ps) \<and> unat (ps_base ps) \<le> 16"

lemma print_u64_plain:
  assumes "plain ps" and "unat number < 2 ^ 32"
  shows "\<exists>k ps'. print_u64 ps number sign = Some ps' \<and> k < 32 \<and> unat number < unat (ps_base ps) ^ Suc k \<and>
    ps_out ps' = ps_out ps @ (if sign \<noteq> 0 then [sign] else []) @
      map (digit_char (ps_hexNumericBase ps)) (digits (unat (ps_base ps)) k (unat number)) \<and>
    (\<exists>w. ps' = ps\<lparr>ps_out := ps_out ps', ps_bytesWritten := w\<rparr>)"
proof -
  let ?b = "ps_base ps"
  have b: "2 \<le> unat ?b" "unat ?b \<le> 16"
    using assms(1) by (simp_all add: plain_def)
  obtain k where k: "div_loop number 1 ?b = Some (of_nat (unat ?b ^ k))" "unat ?b ^ k \<le> max 1 (unat number)"
      "unat number < unat ?b ^ Suc k"
    using div_loop_spec [OF b(1) assms(2), of 0] by auto
  let ?ds = "map (digit_char (ps_hexNumericBase ps)) (digits (unat ?b) k (unat number))"
  have lt: "unat ?b ^ k < 2 ^ 32"
    using k(2) assms(2) by (simp add: max_def split: if_splits)
  have dl: "digit_loop number (of_nat (unat ?b ^ k)) ?b (ps_hexNumericBase ps) [] = Some ?ds"
    using digit_loop_spec [OF b lt k(3)] by simp
  have "2 ^ k \<le> unat ?b ^ k"
    using b(1) by (rule power_mono) simp
  then have "2 ^ k < (2 :: nat) ^ 32"
    using lt by linarith
  then have k32: "k < 32"
    by (rule power_less_imp_less_exp [rotated]) simp
  then have l: "unat (of_nat (length ?ds) :: u32) = length ?ds"
    by (intro unat_of_nat32) simp
  have z: "nat (ps_minimumIntegerPrecision ps - int (length ?ds)) = 0"
    using assms(1) by (simp add: plain_def)
  have "\<exists>ps'. print_u64 ps number sign = Some ps' \<and> ps_out ps' = ps_out ps @ (if sign \<noteq> 0 then [sign] else []) @ ?ds \<and>
      (\<exists>w. ps' = ps\<lparr>ps_out := ps_out ps', ps_bytesWritten := w\<rparr>)"
    using assms(1) l z
    by (simp add: print_u64_def k(1) dl plain_def print_str_def ps_write_def ps_write_byte_def Let_def
        Str_ofData_def del: map_map length_map of_nat_power) blast
  then show ?thesis
    using k(3) k32 by blast
qed

lemma digit_char_clean: "d < 16 \<Longrightarrow> digit_char 65 d \<noteq> 0 \<and> digit_char 65 d \<noteq> 45"
  using digit_char_cases(1) [of d] by (auto split: if_splits)

lemma digits_small: "0 < b \<Longrightarrow> n < b ^ Suc k \<Longrightarrow> \<forall>d \<in> set (digits b k n). d < b"
proof (induction k arbitrary: n)
  case (Suc k)
  have "n div b ^ Suc k < b"
    using Suc.prems by (simp add: less_mult_imp_div_less mult.commute)
  moreover have "\<forall>d \<in> set (digits b k (n mod b ^ Suc k)). d < b"
    using Suc.prems(1) by (intro Suc.IH) simp_all
  ultimately show ?case
    by simp
qed simp

lemma printed_clean:
  assumes "0 < b" and "b \<le> 16" and "n < b ^ Suc k"
  shows "0 \<notin> set (map (digit_char 65) (digits b k n))" and "45 \<notin> set (map (digit_char 65) (digits b k n))"
  using digits_small [OF assms(1,3)] assms(2) digit_char_clean by fastforce+

lemma parseInt_printed:
  assumes "n < 10 ^ Suc k"
  shows "parseInt (map (digit_char 65) (digits 10 k n) @ [0]) = of_nat n"
    and "parseInt (45 # map (digit_char 65) (digits 10 k n) @ [0]) = - of_nat n"
proof -
  let ?ds = "map (digit_char 65) (digits 10 k n)"
  note clean = printed_clean [of 10 n k, OF _ _ assms, simplified]
  have tw: "takeWhile (\<lambda>c. c \<noteq> 0) (?ds @ [0]) = ?ds"
    using clean(1) by (intro takeWhile_clean) simp
  have "?ds \<noteq> []"
    by (cases k) simp_all
  then have "hd ?ds \<noteq> 45"
    using clean(2) list.set_sel(1) [of ?ds] by fastforce
  then show "parseInt (?ds @ [0]) = of_nat n"
    using dec.parse_printed [OF assms] tw by (simp add: parseInt_def Let_def)
  show "parseInt (45 # ?ds @ [0]) = - of_nat n"
    using dec.parse_printed [OF assms] tw by (simp add: parseInt_def Let_def)
qed

lemma parseHexInt_printed:
  assumes "n < 16 ^ Suc k"
  shows "parseHexInt (map (digit_char 65) (digits 16 k n) @ [0]) = of_nat n"
proof -
  let ?ds = "map (digit_char 65) (digits 16 k n)"
  have "takeWhile (\<lambda>c. c \<noteq> 0) (?ds @ [0]) = ?ds"
    using printed_clean(1) [of 16 n k, OF _ _ assms] by (intro takeWhile_clean) simp
  then show ?thesis
    using hexa.parse_printed [OF assms] by (simp add: parseHexInt_def)
qed

lemma ucast_down_wi: "(ucast (word_of_int k :: u64) :: u32) = word_of_int k"
  by (rule bit_word_eqI) (auto simp: bit_ucast_iff bit_word_of_int_iff)

lemma ucast_neg_scast: "(ucast (- (scast (x :: u32) :: u64)) :: u32) = - x"
proof -
  have "- (scast x :: u64) = word_of_int (- sint x)"
    by (simp add: wi_hom_syms)
  then show ?thesis
    by (simp only: ucast_down_wi) (simp add: wi_hom_syms)
qed

lemma ucast_scast: "(ucast (scast (x :: u32) :: u64) :: u32) = x"
proof -
  have "(scast x :: u64) = word_of_int (sint x)"
    by simp
  then show ?thesis
    by (simp only: ucast_down_wi) simp
qed

lemma print_i32_parse:
  assumes "plain ps" and "ps_base ps = 10" and "ps_hexNumericBase ps = 65"
    and "ps_negativeSign ps = 45" and "ps_positiveSign ps = 0"
  shows "\<exists>ps' cs. print_i32 ps x = Some ps' \<and> ps_out ps' = ps_out ps @ cs \<and> parseInt (cs @ [0]) = x"
proof (cases "sint (scast x :: u64) < 0")
  case True
  let ?n = "ucast (ucast (- (scast x :: u64)) :: u32) :: u64"
  have u: "unat ?n = unat (- x)"
    unfolding ucast_neg_scast by (simp add: unat_ucast_up)
  obtain k ps' where p: "print_u64 ps ?n 45 = Some ps'" "unat ?n < 10 ^ Suc k"
      "ps_out ps' = ps_out ps @ [45] @ map (digit_char 65) (digits 10 k (unat ?n))"
    using print_u64_plain [OF assms(1), of ?n 45] assms(2,3) u by auto
  then have "parseInt (([45] @ map (digit_char 65) (digits 10 k (unat ?n))) @ [0]) = x"
    using parseInt_printed(2) [OF p(2)] u by simp
  then show ?thesis
    using True p(1,3) assms(4) by (auto simp: print_i32_def print_i64_def)
next
  case False
  let ?n = "ucast (ucast (scast x :: u64) :: u32) :: u64"
  have u: "unat ?n = unat x"
    unfolding ucast_scast by (simp add: unat_ucast_up)
  obtain k ps' where p: "print_u64 ps ?n 0 = Some ps'" "unat ?n < 10 ^ Suc k"
      "ps_out ps' = ps_out ps @ map (digit_char 65) (digits 10 k (unat ?n))"
    using print_u64_plain [OF assms(1), of ?n 0] assms(2,3) u by auto
  then have "parseInt (map (digit_char 65) (digits 10 k (unat ?n)) @ [0]) = x"
    using parseInt_printed(1) [OF p(2)] u by simp
  then show ?thesis
    using False p(1,3) assms(5) by (auto simp: print_i32_def print_i64_def)
qed

text \<open>
  C20. Formatting and parsing are inverse: for every 32-bit integer \<open>x\<close>, formatting it with "%d"
  gives a text that parseInt reads as \<open>x\<close> (negative numbers included), and formatting it with "%x"
  gives a text that parseHexInt reads as \<open>x\<close>. In particular the digit loops terminate.
\<close>

theorem format_parse_roundtrip:
  "(\<exists>cs. vformat [37, 100, 0] [ArgInt x] = Some (Inr cs) \<and> parseInt (cs @ [0]) = x) \<and>
   (\<exists>cs. vformat [37, 120, 0] [ArgInt x] = Some (Inr cs) \<and> parseHexInt (cs @ [0]) = x)"
proof
  have empty: "vformat_from ps [] args = Some (Inr ps)" for ps args
    by (subst vformat_from.simps) simp
  let ?ps = "setIntegerPrecision (ps_write (PrintStream_new []) [37, 100] 0 0) 0"
  have "plain (ps_dec ?ps)" "ps_base (ps_dec ?ps) = 10" "ps_hexNumericBase (ps_dec ?ps) = 65"
      "ps_negativeSign (ps_dec ?ps) = 45" "ps_positiveSign (ps_dec ?ps) = 0" "ps_out (ps_dec ?ps) = []"
    by (simp_all add: plain_def setIntegerPrecision_def ps_dec_def setBase_def ps_write_def PrintStream_new_def)
  then obtain ps' where p: "print_i32 (ps_dec ?ps) x = Some ps'" "parseInt (ps_out ps' @ [0]) = x"
    using print_i32_parse [of "ps_dec ?ps" x] by auto
  have "vformat [37, 100, 0] [ArgInt x] = Some (Inr (ps_out ps'))"
    using p(1) by (simp add: vformat_def vformat_from.simps [of "PrintStream_new []"] Let_def peek_def
        format_step.simps empty setNumberPadding_def)
  then show "\<exists>cs. vformat [37, 100, 0] [ArgInt x] = Some (Inr cs) \<and> parseInt (cs @ [0]) = x"
    using p(2) by blast
next
  have empty: "vformat_from ps [] args = Some (Inr ps)" for ps args
    by (subst vformat_from.simps) simp
  let ?ps = "setIntegerPrecision (ps_write (PrintStream_new []) [37, 120] 0 0) 0"
  have "plain (ps_hex ?ps)" and f: "ps_base (ps_hex ?ps) = 16" "ps_hexNumericBase (ps_hex ?ps) = 65" "ps_out (ps_hex ?ps) = []"
    by (simp_all add: plain_def setIntegerPrecision_def ps_hex_def setBase_def ps_write_def PrintStream_new_def)
  then obtain k ps' where p: "print_u32 (ps_hex ?ps) x = Some ps'" "unat x < 16 ^ Suc k"
      "ps_out ps' = map (digit_char 65) (digits 16 k (unat x))"
    using print_u64_plain [of "ps_hex ?ps" "ucast x" 0] by (auto simp: print_u32_def unat_ucast_up)
  have "vformat [37, 120, 0] [ArgInt x] = Some (Inr (ps_out ps'))"
    using p(1) by (simp add: vformat_def vformat_from.simps [of "PrintStream_new []"] Let_def peek_def
        format_step.simps empty setNumberPadding_def)
  then show "\<exists>cs. vformat [37, 120, 0] [ArgInt x] = Some (Inr cs) \<and> parseHexInt (cs @ [0]) = x"
    using parseHexInt_printed [OF p(2)] p(3) by simp
qed

text \<open>
  The printer of signed 64-bit numbers cannot tell apart two non-negative numbers that agree
  modulo 2^32: whatever the state of the stream, they produce the same output.
\<close>

theorem print_i64_truncates:
  assumes "0 \<le> sint a" and "0 \<le> sint b" and "unat a mod 2 ^ 32 = unat b mod 2 ^ 32"
  shows "print_i64 ps a = print_i64 ps b"
proof -
  have "(ucast a :: u32) = ucast b"
    using assms(3) by (simp add: word_unat_eq_iff unat_ucast_mod)
  then show ?thesis
    using assms(1,2) by (simp add: print_i64_def)
qed

theorem print_i64_truncates_witness:
  "print_i64 (PrintStream_new []) 4294967297 = print_i64 (PrintStream_new []) 1"
  using print_i64_truncates [of 4294967297 1] by simp

end
