(* ===== verification/Network_Addresses.thy ===== *)
theory Network_Addresses
  imports Input_Streams Print_Streams
begin

unbundle bit_operations_syntax

text \<open>
  \<^verbatim>\<open>Util::Network::NetworkAddress\<close> and its subclasses for IPv4 addresses, subnets and ports and for
  hardware addresses (lib/util/network). An address is a buffer with its length and type; the loops
  that compare addresses of different lengths read behind the end of the shorter buffer, and
  \<open>junk\<close> is what they find there.
\<close>

section \<open>Addresses\<close>

datatype AddressType = MAC | IP4 | IP4_PORT | IP4_SUBNET

record NetworkAddress =
  na_buffer :: "u8 list"
  na_length :: u8
  na_type :: AddressType

definition NetworkAddress_new :: "u8 \<Rightarrow> AddressType \<Rightarrow> NetworkAddress" where
  "NetworkAddress_new n t = \<lparr>na_buffer = replicate (unat n) 0, na_length = n, na_type = t\<rparr>"

definition setAddress :: "NetworkAddress \<Rightarrow> u8 list \<Rightarrow> NetworkAddress" where
  "setAddress a buffer =
     a\<lparr>na_buffer := take (unat (na_length a)) buffer @ drop (unat (na_length a)) (na_buffer a)\<rparr>"

definition NetworkAddress_ofBuffer :: "u8 list \<Rightarrow> u8 \<Rightarrow> AddressType \<Rightarrow> NetworkAddress" where
  "NetworkAddress_ofBuffer buffer n t = setAddress (NetworkAddress_new n t) buffer"

definition NetworkAddress_copy :: "NetworkAddress \<Rightarrow> NetworkAddress" where
  "NetworkAddress_copy other = setAddress (NetworkAddress_new (na_length other) (na_type other)) (na_buffer other)"

text \<open>The assignment keeps the old buffer; \<open>None\<close> when the new address does not fit into it.\<close>

definition na_assign :: "NetworkAddress \<Rightarrow> NetworkAddress \<Rightarrow> NetworkAddress option" where
  "na_assign a other =
     (if length (na_buffer a) < unat (na_length other) then None
      else Some (setAddress (a\<lparr>na_length := na_length other, na_type := na_type other\<rparr>) (na_buffer other)))"

definition na_eq :: "NetworkAddress \<Rightarrow> NetworkAddress \<Rightarrow> bool" where
  "na_eq a other \<longleftrightarrow> na_length a = na_length other \<and>
     take (unat (na_length a)) (na_buffer a) = take (unat (na_length a)) (na_buffer other)"

definition na_read :: "NetworkAddress \<Rightarrow> (ByteArrayInputStream, NetworkAddress) state" where
  "na_read a = do {
     (_, buffer) \<leftarrow> is_readInto (na_buffer a) 0 (ucast (na_length a));
     State_Monad.return (a\<lparr>na_buffer := buffer\<rparr>)
   }"

definition na_write :: "NetworkAddress \<Rightarrow> u8 list" where
  "na_write a = take (unat (na_length a)) (na_buffer a)"

definition getAddress :: "NetworkAddress \<Rightarrow> u8 list \<Rightarrow> u8 list" where
  "getAddress a buffer = take (unat (na_length a)) (na_buffer a) @ drop (unat (na_length a)) buffer"

definition byte_at :: "(u8 \<Rightarrow> u8) \<Rightarrow> NetworkAddress \<Rightarrow> u8 \<Rightarrow> u8" where
  "byte_at junk a i = (if unat i < length (na_buffer a) then na_buffer a ! unat i else junk i)"

text \<open>The two loops of \<^verbatim>\<open>compareTo\<close>; the inner one is a search for the first bit that differs.\<close>

function compareTo_from :: "(u8 \<Rightarrow> u8) \<Rightarrow> (u8 \<Rightarrow> u8) \<Rightarrow> NetworkAddress \<Rightarrow> NetworkAddress \<Rightarrow> u8 \<Rightarrow> u8 \<Rightarrow> u8" where
  "compareTo_from junk junk' a other i j =
     (if i < na_length a \<or> i < na_length other
      then case find (\<lambda>j. bit (byte_at junk a i) j \<noteq> bit (byte_at junk' other i) j) [0..<8] of
             Some j \<Rightarrow> i * 8 + of_nat j
           | None \<Rightarrow> compareTo_from junk junk' a other (i + 1) 8
      else i * 8 + j)"
  by pat_completeness auto
termination
  by (relation "measure (\<lambda>(p, q, a, b, i, j). max (unat (na_length a)) (unat (na_length b)) - unat i)")
     (auto simp: word_nat word_less_nat_alt)

declare compareTo_from.simps [simp del]

definition compareTo :: "(u8 \<Rightarrow> u8) \<Rightarrow> (u8 \<Rightarrow> u8) \<Rightarrow> NetworkAddress \<Rightarrow> NetworkAddress \<Rightarrow> u8" where
  "compareTo junk junk' a other = compareTo_from junk junk' a other 0 0"

section \<open>IPv4 addresses\<close>

abbreviation IP4_ADDRESS_LENGTH :: u8 where "IP4_ADDRESS_LENGTH \<equiv> 4"

definition Ip4Address_new :: NetworkAddress where
  "Ip4Address_new = NetworkAddress_new IP4_ADDRESS_LENGTH IP4"

definition Ip4Address_ofBuffer :: "u8 list \<Rightarrow> NetworkAddress" where
  "Ip4Address_ofBuffer buffer = NetworkAddress_ofBuffer buffer IP4_ADDRESS_LENGTH IP4"

text \<open>
  \<open>parts n parse split\<close>: the first \<open>n\<close> strings of an array, parsed and narrowed to a byte. A
  missing one throws. \<open>None\<close> is a \<^verbatim>\<open>split\<close> that does not end.
\<close>

primrec parts :: "(u8 list \<Rightarrow> u32) \<Rightarrow> Str list \<Rightarrow> nat \<Rightarrow> u32 \<Rightarrow> u8 list result" where
  "parts parse split 0 i = Inr []"
| "parts parse split (Suc n) i =
     res_bind (arr_get split i) (\<lambda>s. res_bind (parts parse split n (i + 1)) (\<lambda>bs. Inr (ucast (parse (s_buffer s)) # bs)))"

definition Ip4Address_ofString :: "Str \<Rightarrow> NetworkAddress result option" where
  "Ip4Address_ofString string =
     map_option (\<lambda>split. res_bind (parts parseInt split 4 0) (\<lambda>buffer. Inr (setAddress Ip4Address_new buffer)))
       (str_split string (Str_of [46]) 0)"

definition Ip4_ANY :: NetworkAddress where
  "Ip4_ANY = \<lparr>na_buffer = [0, 0, 0, 0], na_length = 4, na_type = IP4\<rparr>"

definition Ip4Address_toString :: "NetworkAddress \<Rightarrow> u8 list result option" where
  "Ip4Address_toString a =
     vformat [37, 117, 46, 37, 117, 46, 37, 117, 46, 37, 117, 0]
       [ArgInt (ucast (na_buffer a ! 0)), ArgInt (ucast (na_buffer a ! 1)), ArgInt (ucast (na_buffer a ! 2)),
        ArgInt (ucast (na_buffer a ! 3))]"

definition Ip4Address_createBroadcastAddress :: NetworkAddress where
  "Ip4Address_createBroadcastAddress = Ip4Address_ofBuffer [0xff, 0xff, 0xff, 0xff]"

definition Ip4Address_isBroadcastAddress :: "NetworkAddress \<Rightarrow> bool" where
  "Ip4Address_isBroadcastAddress a \<longleftrightarrow> list_all (\<lambda>i. na_buffer a ! i = 0xff) [0..<4]"

section \<open>Subnets\<close>

definition Ip4SubnetAddress_ofBuffer :: "u8 list \<Rightarrow> NetworkAddress" where
  "Ip4SubnetAddress_ofBuffer buffer = NetworkAddress_ofBuffer buffer 5 IP4_SUBNET"

definition Ip4SubnetAddress_ofAddress :: "NetworkAddress \<Rightarrow> u8 \<Rightarrow> NetworkAddress" where
  "Ip4SubnetAddress_ofAddress address bitCount =
     (let a = NetworkAddress_new 5 IP4_SUBNET; addressBuffer = getAddress address (replicate 4 0)
      in a\<lparr>na_buffer := (take 4 addressBuffer @ drop 4 (na_buffer a))[4 := bitCount]\<rparr>)"

definition Ip4SubnetAddress_ofBitCount :: "u8 \<Rightarrow> NetworkAddress" where
  "Ip4SubnetAddress_ofBitCount bitCount = Ip4SubnetAddress_ofAddress Ip4_ANY bitCount"

definition Ip4SubnetAddress_ofString :: "Str \<Rightarrow> NetworkAddress result option" where
  "Ip4SubnetAddress_ofString string =
     (let a = NetworkAddress_new 5 IP4_SUBNET;
          done = (\<lambda>ip4Address bitCount. a\<lparr>na_buffer := (getAddress ip4Address (na_buffer a))[4 := bitCount]\<rparr>)
      in if str_beginsWith string (Str_of [47])
         then Some (Inr (done Ip4Address_new (ucast (parseInt (s_buffer (substring string 1 (s_len string)))))))
         else case str_split string (Str_of [47]) 0 of
                None \<Rightarrow> None
              | Some split \<Rightarrow>
             (case arr_get split 0 of
                Inl e \<Rightarrow> Some (Inl e)
              | Inr first \<Rightarrow>
                  map_option (\<lambda>r. res_bind r (\<lambda>ip4Address.
                    if 1 < arr_length split
                    then res_bind (arr_get split 1) (\<lambda>s. Inr (done ip4Address (ucast (parseInt (s_buffer s)))))
                    else Inr (done ip4Address 32))) (Ip4Address_ofString first)))"

definition getIp4Address :: "NetworkAddress \<Rightarrow> NetworkAddress" where
  "getIp4Address a = Ip4Address_ofBuffer (na_buffer a)"

definition getBitCount :: "NetworkAddress \<Rightarrow> u8" where
  "getBitCount a = na_buffer a ! 4"

text \<open>
  The bit masks: \<open>0xffffffff\<close> shifted right, read as bytes in the order of the memory (the least
  significant first). \<open>None\<close> when the shift distance is not below the width of the type.
\<close>

definition mask_bytes :: "u32 \<Rightarrow> u8 list" where
  "mask_bytes base = map (\<lambda>i. ucast (drop_bit (8 * i) base)) [0..<4]"

definition shifted_mask :: "u8 \<Rightarrow> u32 option" where
  "shifted_mask bitCount = (if bitCount = 0 \<or> 32 < bitCount then None else Some (drop_bit (32 - unat bitCount) 0xffffffff))"

definition getSubnetAddress :: "NetworkAddress \<Rightarrow> NetworkAddress option" where
  "getSubnetAddress a =
     (let bitCount = getBitCount a
      in map_option (\<lambda>base.
           Ip4SubnetAddress_ofBuffer (map2 (AND) (getAddress (getIp4Address a) (replicate 4 0)) (mask_bytes base) @ [bitCount]))
         (if bitCount = 0 then Some 0 else shifted_mask bitCount))"

definition getBroadcastAddress :: "NetworkAddress \<Rightarrow> NetworkAddress option" where
  "getBroadcastAddress a =
     map_option (\<lambda>base. Ip4Address_ofBuffer (map2 (OR) (getAddress (getIp4Address a) (replicate 4 0)) (mask_bytes base)))
       (shifted_mask (getBitCount a))"

definition Ip4SubnetAddress_toString :: "NetworkAddress \<Rightarrow> u8 list result option" where
  "Ip4SubnetAddress_toString a =
     vformat [37, 117, 46, 37, 117, 46, 37, 117, 46, 37, 117, 47, 37, 117, 0]
       [ArgInt (ucast (na_buffer a ! 0)), ArgInt (ucast (na_buffer a ! 1)), ArgInt (ucast (na_buffer a ! 2)),
        ArgInt (ucast (na_buffer a ! 3)), ArgInt (ucast (getBitCount a))]"

section \<open>Ports\<close>

text \<open>\<^verbatim>\<open>setShort\<close> and \<^verbatim>\<open>getShort\<close> store a port in the byte order of the processor.\<close>

definition put_port :: "u8 list \<Rightarrow> u16 \<Rightarrow> u8 list" where
  "put_port buffer port = buffer[4 := ucast port, 5 := ucast (drop_bit 8 port)]"

definition Ip4PortAddress_ofAddress :: "NetworkAddress \<Rightarrow> u16 \<Rightarrow> NetworkAddress" where
  "Ip4PortAddress_ofAddress address port =
     (let a = NetworkAddress_new 6 IP4_PORT; addressBuffer = getAddress address (replicate 4 0)
      in a\<lparr>na_buffer := put_port (take 4 addressBuffer @ drop 4 (na_buffer a)) port\<rparr>)"

definition Ip4PortAddress_ofBuffer :: "u8 list \<Rightarrow> NetworkAddress" where
  "Ip4PortAddress_ofBuffer buffer = NetworkAddress_ofBuffer buffer 6 IP4_PORT"

definition Ip4PortAddress_ofPort :: "u16 \<Rightarrow> NetworkAddress" where
  "Ip4PortAddress_ofPort port = Ip4PortAddress_ofAddress Ip4_ANY port"

definition Ip4PortAddress_ofString :: "Str \<Rightarrow> NetworkAddress result option" where
  "Ip4PortAddress_ofString string =
     (let a = NetworkAddress_new 6 IP4_PORT;
          done = (\<lambda>ip4Address port. a\<lparr>na_buffer := put_port (getAddress ip4Address (na_buffer a)) port\<rparr>)
      in if str_beginsWith string (Str_of [58])
         then Some (Inr (done Ip4Address_new (ucast (parseInt (s_buffer (substring string 1 (s_len string)))))))
         else case str_split string (Str_of [58]) 0 of
                None \<Rightarrow> None
              | Some split \<Rightarrow>
             (case arr_get split 0 of
                Inl e \<Rightarrow> Some (Inl e)
              | Inr first \<Rightarrow>
                  map_option (\<lambda>r. res_bind r (\<lambda>ip4Address.
                    if 1 < arr_length split
                    then res_bind (arr_get split 1) (\<lambda>s. Inr (done ip4Address (ucast (parseInt (s_buffer s)))))
                    else Inr (done ip4Address 0))) (Ip4Address_ofString first)))"

definition getPort :: "NetworkAddress \<Rightarrow> u16" where
  "getPort a = push_bit 8 (ucast (na_buffer a ! 5)) OR ucast (na_buffer a ! 4)"

definition setPort :: "NetworkAddress \<Rightarrow> u16 \<Rightarrow> NetworkAddress" where
  "setPort a port = a\<lparr>na_buffer := put_port (na_buffer a) port\<rparr>"

definition Ip4PortAddress_toString :: "NetworkAddress \<Rightarrow> u8 list result option" where
  "Ip4PortAddress_toString a =
     vformat [37, 117, 46, 37, 117, 46, 37, 117, 46, 37, 117, 58, 37, 117, 0]
       [ArgInt (ucast (na_buffer a ! 0)), ArgInt (ucast (na_buffer a ! 1)), ArgInt (ucast (na_buffer a ! 2)),
        ArgInt (ucast (na_buffer a ! 3)), ArgInt (ucast (getPort a))]"

section \<open>Hardware addresses\<close>

definition MacAddress_new :: NetworkAddress where
  "MacAddress_new = NetworkAddress_new 6 MAC"

definition MacAddress_ofBuffer :: "u8 list \<Rightarrow> NetworkAddress" where
  "MacAddress_ofBuffer buffer = NetworkAddress_ofBuffer buffer 6 MAC"

definition MacAddress_ofString :: "Str \<Rightarrow> NetworkAddress result option" where
  "MacAddress_ofString string =
     map_option (\<lambda>split. res_bind (parts parseHexInt split 6 0) (\<lambda>buffer. Inr (setAddress MacAddress_new buffer)))
       (str_split string (Str_of [58]) 0)"

definition MacAddress_createBroadcastAddress :: NetworkAddress where
  "MacAddress_createBroadcastAddress = MacAddress_ofBuffer [0xff, 0xff, 0xff, 0xff, 0xff, 0xff]"

definition MacAddress_isBroadcastAddress :: "NetworkAddress \<Rightarrow> bool" where
  "MacAddress_isBroadcastAddress a \<longleftrightarrow> list_all (\<lambda>i. na_buffer a ! i = 0xff) [0..<6]"

definition MacAddress_toString :: "NetworkAddress \<Rightarrow> u8 list result option" where
  "MacAddress_toString a =
     vformat (concat (replicate 5 [37, 48, 50, 120, 58]) @ [37, 48, 50, 120, 0])
       (map (\<lambda>i. ArgInt (ucast (na_buffer a ! i))) [0..<6])"

section \<open>Comparing addresses\<close>

text \<open>
  \<^verbatim>\<open>compareTo\<close> returns the length of the common prefix, where the bits of a byte count from the least
  significant one on.
\<close>

definition same_bits :: "(u8 \<Rightarrow> u8) \<Rightarrow> (u8 \<Rightarrow> u8) \<Rightarrow> NetworkAddress \<Rightarrow> NetworkAddress \<Rightarrow> nat \<Rightarrow> nat \<Rightarrow> bool" where
  "same_bits junk junk' a b k n \<longleftrightarrow>
     (\<forall>i j. k \<le> i \<longrightarrow> j < 8 \<longrightarrow> 8 * i + j < n \<longrightarrow>
        bit (byte_at junk a (of_nat i)) j = bit (byte_at junk' b (of_nat i)) j)"

lemma same_bits_Suc:
  assumes "\<forall>j < 8. bit (byte_at junk a (of_nat k)) j = bit (byte_at junk' b (of_nat k)) j"
  shows "same_bits junk junk' a b k n \<longleftrightarrow> same_bits junk junk' a b (Suc k) n"
  using assms unfolding same_bits_def by (metis Suc_leD le_antisym not_less_eq_eq)

lemma compareTo_from_spec:
  assumes "unat (na_length a) \<le> 30" and "unat (na_length b) \<le> 30"
    and "n \<le> 8 * max (unat (na_length a)) (unat (na_length b))"
    and "unat i \<le> max (unat (na_length a)) (unat (na_length b))" and "unat j \<le> 8"
  shows "n \<le> unat (compareTo_from junk junk' a b i j) \<longleftrightarrow> same_bits junk junk' a b (unat i) n"
  using assms
proof (induction junk junk' a b i j rule: compareTo_from.induct)
  case (1 junk junk' a b i j)
  let ?m = "max (unat (na_length a)) (unat (na_length b))"
  let ?P = "\<lambda>j. bit (byte_at junk a i) j \<noteq> bit (byte_at junk' b i) j"
  have inv: "of_nat (unat i) = i"
    by simp
  have m: "?m \<le> 30"
    using "1.prems"(1,2) by simp
  have i30: "unat i \<le> 30"
    using "1.prems"(4) m by linarith
  then have sum: "unat (i * 8 + x) = 8 * unat i + unat x" if "unat x \<le> 8" for x :: u8
    using that by (simp add: unat_word_ariths)
  show ?case
  proof (cases "i < na_length a \<or> i < na_length b")
    case True
    then have i: "unat i < ?m"
      by (auto simp: word_less_nat_alt)
    show ?thesis
    proof (cases "find ?P [0..<8]")
      case None
      then have eq: "\<forall>j < 8. bit (byte_at junk a (of_nat (unat i))) j = bit (byte_at junk' b (of_nat (unat i))) j"
        by (simp add: find_None_iff)
      have "unat (i + 1) = Suc (unat i)"
        using i30 by (simp add: unat_word_ariths)
      then show ?thesis
        using True None "1.IH" [OF True None] "1.prems" i same_bits_Suc [OF eq]
        by (subst compareTo_from.simps) simp
    next
      case (Some k)
      then have k: "k < 8" "?P k" "\<forall>l < k. \<not> ?P l"
        by (auto simp: find_Some_iff)
      then have "unat (of_nat k :: u8) = k"
        by (simp add: unat_of_nat)
      then have u: "unat (compareTo_from junk junk' a b i j) = 8 * unat i + k"
        using True Some k(1) sum [of "of_nat k"] by (subst compareTo_from.simps) simp
      show ?thesis
      proof
        assume "n \<le> unat (compareTo_from junk junk' a b i j)"
        then have "x = unat i \<and> y < k" if "unat i \<le> x" "y < 8" "8 * x + y < n" for x y
          using that u k(1) by auto
        then show "same_bits junk junk' a b (unat i) n"
          using k(3) unfolding same_bits_def by (metis inv)
      next
        assume "same_bits junk junk' a b (unat i) n"
        then have "8 * unat i + k < n \<Longrightarrow> \<not> ?P k"
          using k(1) unfolding same_bits_def by (metis order_refl inv)
        then show "n \<le> unat (compareTo_from junk junk' a b i j)"
          using k(2) u by linarith
      qed
    qed
  next
    case False
    then have i: "unat i = ?m"
      using "1.prems"(4) by (auto simp: word_less_nat_alt)
    have "same_bits junk junk' a b (unat i) n"
      using "1.prems"(3) i unfolding same_bits_def by auto
    moreover have "unat (compareTo_from junk junk' a b i j) = 8 * unat i + unat j"
      using False sum [OF "1.prems"(5)] by (subst compareTo_from.simps) simp
    ultimately show ?thesis
      using "1.prems"(3) i by simp
  qed
qed

lemma compareTo_spec:
  assumes "unat (na_length a) \<le> 30" and "unat (na_length b) \<le> 30"
    and "n \<le> 8 * max (unat (na_length a)) (unat (na_length b))"
  shows "n \<le> unat (compareTo junk junk' a b) \<longleftrightarrow> same_bits junk junk' a b 0 n"
  using compareTo_from_spec [OF assms, of 0 0] by (simp add: compareTo_def)

section \<open>Well-formed addresses\<close>

definition ip4_ok :: "NetworkAddress \<Rightarrow> bool" where
  "ip4_ok a \<longleftrightarrow> length (na_buffer a) = 4 \<and> na_length a = 4 \<and> na_type a = IP4"

definition mac_ok :: "NetworkAddress \<Rightarrow> bool" where
  "mac_ok a \<longleftrightarrow> length (na_buffer a) = 6 \<and> na_length a = 6 \<and> na_type a = MAC"

definition subnet_ok :: "NetworkAddress \<Rightarrow> bool" where
  "subnet_ok a \<longleftrightarrow> length (na_buffer a) = 5 \<and> na_length a = 5 \<and> na_type a = IP4_SUBNET \<and> getBitCount a \<le> 32"

lemma na_eq_iff: "length (na_buffer a) = unat (na_length a) \<Longrightarrow> length (na_buffer b) = unat (na_length b) \<Longrightarrow>
    na_type a = na_type b \<Longrightarrow> na_eq a b \<longleftrightarrow> a = b"
  by (cases a; cases b) (auto simp: na_eq_def)

lemma ip4_eq_iff: "ip4_ok a \<Longrightarrow> ip4_ok b \<Longrightarrow> na_eq a b \<longleftrightarrow> a = b"
  by (rule na_eq_iff) (simp_all add: ip4_ok_def)

lemma ip4_ofBuffer: "4 \<le> length b \<Longrightarrow> Ip4Address_ofBuffer b = \<lparr>na_buffer = take 4 b, na_length = 4, na_type = IP4\<rparr>"
  by (simp add: Ip4Address_ofBuffer_def NetworkAddress_ofBuffer_def setAddress_def NetworkAddress_new_def)

lemma getIp4Address_subnet: "subnet_ok a \<Longrightarrow> getIp4Address a = \<lparr>na_buffer = take 4 (na_buffer a), na_length = 4, na_type = IP4\<rparr>"
  by (simp add: getIp4Address_def ip4_ofBuffer subnet_ok_def)

section \<open>Network addresses of subnets\<close>

lemma mask_bytes_nth: "i < 4 \<Longrightarrow> bit (mask_bytes base ! i) j \<longleftrightarrow> j < 8 \<and> bit base (8 * i + j)"
  by (auto simp: mask_bytes_def bit_simps add.commute)

lemma length_mask_bytes [simp]: "length (mask_bytes base) = 4"
  by (simp add: mask_bytes_def)

lemma shifted_mask_bit:
  assumes "bitCount \<noteq> 0" and "bitCount \<le> 32"
  shows "\<exists>base. shifted_mask bitCount = Some base \<and> (\<forall>n. bit base n \<longleftrightarrow> n < unat bitCount)"
proof -
  have u: "unat bitCount \<le> 32"
    using assms(2) by (simp add: word_le_nat_alt)
  have m: "(0xffffffff :: u32) = mask 32"
    by (simp add: mask_eq_exp_minus_1)
  have "bit (drop_bit (32 - unat bitCount) (0xffffffff :: u32)) n \<longleftrightarrow> n < unat bitCount" for n
    unfolding m using u by (auto simp: bit_simps)
  then show ?thesis
    using assms by (simp add: shifted_mask_def not_less)
qed

lemma getSubnetAddress_spec:
  assumes "subnet_ok a"
  shows "\<exists>net. getSubnetAddress a = Some net \<and> subnet_ok net \<and> getBitCount net = getBitCount a \<and>
    (\<forall>i < 4. \<forall>j. bit (na_buffer net ! i) j \<longleftrightarrow> bit (na_buffer a ! i) j \<and> 8 * i + j < unat (getBitCount a))"
proof -
  have l: "length (na_buffer a) = 5" "getBitCount a \<le> 32"
    using assms by (simp_all add: subnet_ok_def)
  obtain base where base: "(if getBitCount a = 0 then Some 0 else shifted_mask (getBitCount a)) = Some base"
      "\<forall>n. bit base n \<longleftrightarrow> n < unat (getBitCount a)"
    using shifted_mask_bit [OF _ l(2)] by (cases "getBitCount a = 0") auto
  define bs where "bs = map2 (AND) (take 4 (na_buffer a)) (mask_bytes base) @ [getBitCount a]"
  define net where "net = \<lparr>na_buffer = bs, na_length = 5, na_type = IP4_SUBNET\<rparr>"
  have len: "length bs = 5"
    using l by (simp add: bs_def)
  have 1: "getSubnetAddress a = Some net"
    using base(1) l len
    by (simp add: getSubnetAddress_def Let_def getIp4Address_subnet [OF assms] getAddress_def Ip4SubnetAddress_ofBuffer_def
        NetworkAddress_ofBuffer_def setAddress_def NetworkAddress_new_def net_def flip: bs_def)
  have c: "getBitCount net = getBitCount a"
    using l by (simp add: getBitCount_def net_def bs_def nth_append)
  moreover have "bit (na_buffer net ! i) j \<longleftrightarrow> bit (na_buffer a ! i) j \<and> 8 * i + j < unat (getBitCount a)"
    if "i < 4" for i j
    using that l base(2) bit_imp_le_length [of "na_buffer a ! i" j]
    by (auto simp: net_def bs_def nth_append bit_and_iff mask_bytes_nth)
  ultimately show ?thesis
    using 1 l len by (simp add: subnet_ok_def net_def)
qed

text \<open>The network address of RFC 4632: the first \<open>n\<close> bits, from the most significant bit of each byte on.\<close>

definition cidr_network :: "u8 list \<Rightarrow> nat \<Rightarrow> u8 list" where
  "cidr_network bs n = map (\<lambda>i. bs ! i AND NOT (mask (8 - min 8 (n - 8 * i)))) [0..<4]"

lemma cidr_network_bit:
  "i < 4 \<Longrightarrow> bit (cidr_network bs n ! i) j \<longleftrightarrow> bit (bs ! i) j \<and> 8 - min 8 (n - 8 * i) \<le> j"
  using bit_imp_le_length [of "bs ! i" j] by (auto simp: cidr_network_def bit_simps)

text \<open>A subnet with the address bytes \<open>bs\<close> and \<open>n\<close> prefix bits.\<close>

abbreviation subnet :: "u8 list \<Rightarrow> u8 \<Rightarrow> NetworkAddress" where
  "subnet bs n \<equiv> \<lparr>na_buffer = bs @ [n], na_length = 5, na_type = IP4_SUBNET\<rparr>"

lemma subnet_bytes:
  assumes "length bs = 4" and "n \<le> 32"
  shows "\<exists>cs. getSubnetAddress (subnet bs n) = Some (subnet cs n) \<and> length cs = 4 \<and>
    (\<forall>i < 4. \<forall>j. bit (cs ! i) j \<longleftrightarrow> bit (bs ! i) j \<and> 8 * i + j < unat n)"
proof -
  have c: "getBitCount (subnet bs n) = n"
    using assms(1) by (simp add: getBitCount_def nth_append)
  then have "subnet_ok (subnet bs n)"
    using assms by (simp add: subnet_ok_def)
  then obtain net where net: "getSubnetAddress (subnet bs n) = Some net" "subnet_ok net" "getBitCount net = n"
      "\<forall>i < 4. \<forall>j. bit (na_buffer net ! i) j \<longleftrightarrow> bit ((bs @ [n]) ! i) j \<and> 8 * i + j < unat n"
    using getSubnetAddress_spec [of "subnet bs n"] c by auto
  have "na_buffer net = take 4 (na_buffer net) @ [n]"
    using net(2,3) id_take_nth_drop [of 4 "na_buffer net"] by (simp add: subnet_ok_def getBitCount_def)
  then have "net = subnet (take 4 (na_buffer net)) n"
    using net(2) by (cases net) (simp add: subnet_ok_def)
  moreover have "bit (take 4 (na_buffer net) ! i) j \<longleftrightarrow> bit (bs ! i) j \<and> 8 * i + j < unat n" if "i < 4" for i j
    using net(4) that assms(1) by (simp add: nth_append)
  ultimately show ?thesis
    using net(1,2) by (intro exI [of _ "take 4 (na_buffer net)"]) (auto simp: subnet_ok_def)
qed

lemma whole_byte_bits: "j < 8 \<Longrightarrow> 8 * i + j < 8 * q \<longleftrightarrow> 8 - min 8 (8 * q - 8 * i) \<le> j" for i j q :: nat
  by (simp add: min_def) presburger

text \<open>
  C37. Which subnets are computed correctly: the network address of every IPv4 address with \<open>n\<close> prefix
  bits is the one of RFC 4632 exactly when \<open>n\<close> is a multiple of eight, because the code counts the
  bits of a byte from the least significant one on.
\<close>

theorem subnet_cidr_iff:
  assumes "n \<le> 32"
  shows "(\<forall>bs. length bs = 4 \<longrightarrow> getSubnetAddress (subnet bs n) = Some (subnet (cidr_network bs (unat n)) n))
    \<longleftrightarrow> unat n mod 8 = 0"
proof (intro iffI allI impI)
  fix bs :: "u8 list" assume m: "unat n mod 8 = 0" and l: "length bs = 4"
  obtain q where q: "unat n = 8 * q"
    using m by (metis mod_0_imp_dvd dvdE)
  obtain cs where cs: "getSubnetAddress (subnet bs n) = Some (subnet cs n)" "length cs = 4"
      "\<forall>i < 4. \<forall>j. bit (cs ! i) j \<longleftrightarrow> bit (bs ! i) j \<and> 8 * i + j < unat n"
    using subnet_bytes [OF l assms] by blast
  have "cs ! i = cidr_network bs (unat n) ! i" if "i < 4" for i
    using cs(3) that whole_byte_bits [of _ i q] by (intro bit_word_eqI) (simp add: cidr_network_bit q)
  then have "cs = cidr_network bs (unat n)"
    using cs(2) by (intro nth_equalityI) (simp_all add: cidr_network_def)
  then show "getSubnetAddress (subnet bs n) = Some (subnet (cidr_network bs (unat n)) n)"
    using cs(1) by simp
next
  assume all: "\<forall>bs. length bs = 4 \<longrightarrow> getSubnetAddress (subnet bs n) = Some (subnet (cidr_network bs (unat n)) n)"
  show "unat n mod 8 = 0"
  proof (rule ccontr)
    assume r: "unat n mod 8 \<noteq> 0"
    let ?k = "unat n div 8" and ?bs = "replicate 4 (1 :: u8)"
    have "unat n \<le> 32"
      using assms by (simp add: word_le_nat_alt)
    then have k: "?k < 4" "8 * ?k < unat n" "unat n < 8 * ?k + 8"
      using r by presburger+
    then have "bit (cidr_network ?bs (unat n) ! ?k) 0"
      using subnet_bytes [of ?bs, OF _ assms] all by auto
    then show False
      using k by (simp add: cidr_network_bit)
  qed
qed

theorem subnet_cidr_iff_witness:
  "getSubnetAddress (subnet [192, 168, 7, 9] 24) = Some (subnet [192, 168, 7, 0] 24)"
proof -
  have "cidr_network [192, 168, 7, 9] 24 = [192, 168, 7, 0]"
    by (simp add: cidr_network_def upt_rec mask_eq_exp_minus_1)
  then show ?thesis
    using subnet_cidr_iff [of 24] by (auto dest: spec [of _ "[192, 168, 7, 9]"])
qed

text \<open>
  C38. The broadcast address is wrong: for a subnet with \<open>k\<close> network bytes the code sets the network
  bytes and keeps the host bytes, so that 192.168.7.9/24 gives 255.255.255.9.
\<close>

theorem broadcast_sets_network:
  assumes "length bs = 4" and "0 < k" and "k \<le> 4"
  shows "getBroadcastAddress (subnet bs (of_nat (8 * k))) =
    Some \<lparr>na_buffer = replicate k 0xff @ drop k bs, na_length = 4, na_type = IP4\<rparr>"
proof -
  let ?a = "subnet bs (of_nat (8 * k))"
  have u: "unat (of_nat (8 * k) :: u8) = 8 * k"
    using assms(3) by (simp only: unat_of_nat) simp
  then have b: "getBitCount ?a = of_nat (8 * k)" "(of_nat (8 * k) :: u8) \<noteq> 0" "(of_nat (8 * k) :: u8) \<le> 32"
    using assms by (simp_all add: getBitCount_def nth_append word_unat_eq_iff word_le_nat_alt)
  have ok: "subnet_ok ?a"
    using b(1,3) assms(1) by (simp add: subnet_ok_def)
  obtain base where base: "shifted_mask (of_nat (8 * k)) = Some base" "\<forall>n. bit base n \<longleftrightarrow> n < 8 * k"
    using shifted_mask_bit [OF b(2,3)] u by auto
  have "map2 (OR) bs (mask_bytes base) = replicate k 0xff @ drop k bs"
  proof (rule nth_equalityI)
    fix i assume "i < length (map2 (OR) bs (mask_bytes base))"
    then have i: "i < 4"
      using assms(1) by simp
    have ff: "(0xff :: u8) = mask 8"
      by (simp add: mask_eq_exp_minus_1)
    have "bit (bs ! i OR mask_bytes base ! i) j = bit ((replicate k 0xff @ drop k bs) ! i) j" if "j < 8" for j
      unfolding ff using i that assms base(2) by (auto simp: bit_or_iff mask_bytes_nth nth_append bit_mask_iff)
    then have "bs ! i OR mask_bytes base ! i = (replicate k 0xff @ drop k bs) ! i"
      by (intro bit_word_eqI) simp
    then show "map2 (OR) bs (mask_bytes base) ! i = (replicate k 0xff @ drop k bs) ! i"
      using i assms(1) by simp
  qed (use assms in simp)
  then show ?thesis
    using assms(1) base(1) unfolding getBroadcastAddress_def b(1) getIp4Address_subnet [OF ok]
    by (simp add: getAddress_def ip4_ofBuffer)
qed

theorem broadcast_sets_network_witness:
  "getBroadcastAddress (subnet [192, 168, 7, 9] 24) =
     Some \<lparr>na_buffer = [255, 255, 255, 9], na_length = 4, na_type = IP4\<rparr>"
  using broadcast_sets_network [of "[192, 168, 7, 9]" 3] by (simp add: eval_nat_numeral)

section \<open>Addresses as text\<close>

definition ready :: "PrintStream \<Rightarrow> bool" where
  "ready ps \<longleftrightarrow> ps_numberPadding ps = 0 \<and> ps_integerPrefix ps = Str_of [] \<and> \<not> ps_rightPadding ps \<and> ps_hexNumericBase ps = 65"

definition decimal :: "u32 \<Rightarrow> u8 list \<Rightarrow> bool" where
  "decimal x ds \<longleftrightarrow> (\<exists>k. ds = map (digit_char 65) (digits 10 k (unat x)) \<and> unat x < 10 ^ Suc k \<and> k < 32)"

lemma vformat_from_u:
  assumes "ready ps" and "37 \<notin> set lit" and "length lit < 2 ^ 32"
  shows "\<exists>ds ps'. decimal x ds \<and> ready ps' \<and> ps_out ps' = ps_out ps @ lit @ ds \<and>
    vformat_from ps (lit @ 37 # 117 # fmt) (ArgInt x # args) = vformat_from ps' fmt args"
proof -
  let ?fmt = "lit @ 37 # 117 # fmt"
  let ?ps = "ps_dec (setIntegerPrecision (ps_write ps ?fmt 0 (of_nat (length lit))) 0)"
  have tw: "takeWhile (\<lambda>c. c \<noteq> 37) ?fmt = lit"
    using assms(2) by (induction lit) auto
  have out: "ps_out ?ps = ps_out ps @ lit"
    using assms(3) by (simp add: ps_dec_def setBase_def setIntegerPrecision_def ps_write_def)
  have "plain ?ps" "ps_base ?ps = 10" "ps_hexNumericBase ?ps = 65" and rd: "ready ?ps"
    using assms(1) by (simp_all add: plain_def ready_def ps_dec_def setBase_def setIntegerPrecision_def ps_write_def)
  then obtain k ps' w where p: "print_u32 ?ps x = Some ps'" "unat x < 10 ^ Suc k" "k < 32"
      "ps_out ps' = ps_out ?ps @ map (digit_char 65) (digits 10 k (unat x))"
      "ps' = ?ps\<lparr>ps_out := ps_out ps', ps_bytesWritten := w\<rparr>"
    using print_u64_plain [of ?ps "ucast x" 0] by (auto simp: print_u32_def unat_ucast_up)
  define ds where "ds = map (digit_char 65) (digits 10 k (unat x))"
  have ps': "ps' = ?ps\<lparr>ps_out := ps_out ps @ lit @ ds, ps_bytesWritten := w\<rparr>"
    using p(4,5) out by (simp add: ds_def)
  have "ready (setNumberPadding ps' 0)" "ps_out (setNumberPadding ps' 0) = ps_out ps @ lit @ ds"
    using rd by (simp_all add: ps' ready_def setNumberPadding_def)
  moreover have "decimal x ds"
    using p(2,3) by (auto simp: decimal_def ds_def)
  moreover have "vformat_from ps ?fmt (ArgInt x # args) = vformat_from (setNumberPadding ps' 0) fmt args"
    using p(1) by (subst vformat_from.simps) (simp add: tw Let_def peek_def nth_append format_step.simps del: takeWhile_eq_all_conv)
  ultimately show ?thesis
    by blast
qed

lemma vformat_from_Nil: "vformat_from ps [] args = Some (Inr ps)"
  by (subst vformat_from.simps) simp

lemma decimal_parse: "decimal (ucast (b :: u8)) ds \<Longrightarrow> ucast (parseInt (ds @ [0])) = b"
proof -
  assume "decimal (ucast b) ds"
  then obtain k where k: "ds = map (digit_char 65) (digits 10 k (unat b))" "unat b < 10 ^ Suc k"
    by (auto simp: decimal_def unat_ucast_up)
  have "parseInt (ds @ [0]) = of_nat (unat b)"
    unfolding k(1) by (rule parseInt_printed(1) [OF k(2)])
  then show ?thesis
    using unsigned_less [of b, where 'a = nat] by (simp add: word_unat_eq_iff unat_ucast_mod unat_of_nat)
qed

lemma decimal_clean:
  assumes "decimal x ds"
  shows "ds \<noteq> []" "0 \<notin> set ds" "46 \<notin> set ds" "length ds < 100"
proof -
  obtain k where k: "ds = map (digit_char 65) (digits 10 k (unat x))" "unat x < 10 ^ Suc k" "k < 32"
    using assms by (auto simp: decimal_def)
  have c: "\<exists>d < 10. c = 48 + of_nat d" if "c \<in> set ds" for c
    using that digits_small [OF _ k(2)] by (auto simp: k(1) digit_char_def)
  have ne: "48 + of_nat d \<noteq> (0 :: u8)" "48 + of_nat d \<noteq> (46 :: u8)" if "d < 10" for d
    using that by (simp_all add: word_unat_eq_iff unat_word_ariths(1) unat_of_nat)
  show "0 \<notin> set ds"
    using c [of 0] ne(1) by auto
  show "46 \<notin> set ds"
    using c [of 46] ne(2) by metis
  show "ds \<noteq> []" "length ds < 100"
    using k(3) by (cases k; simp add: k(1))+
qed

lemma ip4_toString:
  assumes "ip4_ok a"
  shows "\<exists>d0 d1 d2 d3. Ip4Address_toString a = Some (Inr (joined [46] [d0, d1, d2, d3])) \<and>
    decimal (ucast (na_buffer a ! 0)) d0 \<and> decimal (ucast (na_buffer a ! 1)) d1 \<and>
    decimal (ucast (na_buffer a ! 2)) d2 \<and> decimal (ucast (na_buffer a ! 3)) d3"
proof -
  let ?x = "\<lambda>i. ucast (na_buffer a ! i) :: u32"
  have r: "ready (PrintStream_new [])"
    by (simp add: ready_def PrintStream_new_def)
  have new: "ps_out (PrintStream_new []) = []"
    by (simp add: PrintStream_new_def)
  obtain d0 p0 where 0: "decimal (?x 0) d0" "ready p0" "ps_out p0 = d0"
      "vformat_from (PrintStream_new []) (37 # 117 # [46, 37, 117, 46, 37, 117, 46, 37, 117]) [ArgInt (?x 0), ArgInt (?x 1), ArgInt (?x 2), ArgInt (?x 3)] =
       vformat_from p0 [46, 37, 117, 46, 37, 117, 46, 37, 117] [ArgInt (?x 1), ArgInt (?x 2), ArgInt (?x 3)]"
    using vformat_from_u [OF r, of "[]" "?x 0"] new by fastforce
  obtain d1 p1 where 1: "decimal (?x 1) d1" "ready p1" "ps_out p1 = d0 @ 46 # d1"
      "vformat_from p0 [46, 37, 117, 46, 37, 117, 46, 37, 117] [ArgInt (?x 1), ArgInt (?x 2), ArgInt (?x 3)] =
       vformat_from p1 [46, 37, 117, 46, 37, 117] [ArgInt (?x 2), ArgInt (?x 3)]"
    using vformat_from_u [OF 0(2), of "[46]" "?x 1" "[46, 37, 117, 46, 37, 117]" "[ArgInt (?x 2), ArgInt (?x 3)]"] 0(3) by auto
  obtain d2 p2 where 2: "decimal (?x 2) d2" "ready p2" "ps_out p2 = d0 @ 46 # d1 @ 46 # d2"
      "vformat_from p1 [46, 37, 117, 46, 37, 117] [ArgInt (?x 2), ArgInt (?x 3)] = vformat_from p2 [46, 37, 117] [ArgInt (?x 3)]"
    using vformat_from_u [OF 1(2), of "[46]" "?x 2" "[46, 37, 117]" "[ArgInt (?x 3)]"] 1(3) by auto
  obtain d3 p3 where 3: "decimal (?x 3) d3" "ps_out p3 = d0 @ 46 # d1 @ 46 # d2 @ 46 # d3"
      "vformat_from p2 [46, 37, 117] [ArgInt (?x 3)] = Some (Inr p3)"
    using vformat_from_u [OF 2(2), of "[46]" "?x 3" "[]" "[]"] 2(3) by (auto simp: vformat_from_Nil)
  have "Ip4Address_toString a = Some (Inr (joined [46] [d0, d1, d2, d3]))"
    using 0(4) 1(4) 2(4) 3(2,3) by (simp add: Ip4Address_toString_def vformat_def)
  then show ?thesis
    using 0(1) 1(1) 2(1) 3(1) by blast
qed

text \<open>
  C39. An IPv4 address survives the way through text: formatting an address succeeds, and parsing the
  text gives the address back.
\<close>

theorem ip4_text_roundtrip:
  assumes "ip4_ok a"
  shows "\<exists>cs. Ip4Address_toString a = Some (Inr cs) \<and> Ip4Address_ofString (Str_of cs) = Some (Inr a)"
proof -
  obtain d0 d1 d2 d3 where d: "Ip4Address_toString a = Some (Inr (joined [46] [d0, d1, d2, d3]))"
      "decimal (ucast (na_buffer a ! 0)) d0" "decimal (ucast (na_buffer a ! 1)) d1"
      "decimal (ucast (na_buffer a ! 2)) d2" "decimal (ucast (na_buffer a ! 3)) d3"
    using ip4_toString [OF assms] by blast
  note clean = decimal_clean [OF d(2)] decimal_clean [OF d(3)] decimal_clean [OF d(4)] decimal_clean [OF d(5)]
  have "str_split (Str_of (joined [46] [d0, d1, d2, d3])) (Str_of [46]) 0 = Some (map Str_of [d0, d1, d2, d3])"
    by (rule str_split_joined) (use clean in auto)
  moreover have "parts parseInt (map Str_of [d0, d1, d2, d3]) 4 0 = Inr (na_buffer a)"
  proof -
    have four: "(4 :: nat) = Suc (Suc (Suc (Suc 0)))"
      by simp
    have "na_buffer a = [na_buffer a ! 0, na_buffer a ! 1, na_buffer a ! 2, na_buffer a ! 3]"
      using assms by (intro nth_equalityI) (auto simp: ip4_ok_def nth_Cons' less_Suc_eq numeral_eq_Suc)
    then show ?thesis
      using decimal_parse [OF d(2)] decimal_parse [OF d(3)] decimal_parse [OF d(4)] decimal_parse [OF d(5)]
      by (simp only: four parts.simps) (simp add: arr_get_ok)
  qed
  ultimately show ?thesis
    using d(1) assms by (simp add: Ip4Address_ofString_def setAddress_def Ip4Address_new_def NetworkAddress_new_def ip4_ok_def)
qed

theorem ip4_text_roundtrip_witness:
  "\<exists>cs. Ip4Address_toString \<lparr>na_buffer = [192, 168, 7, 9], na_length = 4, na_type = IP4\<rparr> = Some (Inr cs) \<and>
     Ip4Address_ofString (Str_of cs) = Some (Inr \<lparr>na_buffer = [192, 168, 7, 9], na_length = 4, na_type = IP4\<rparr>)"
  using ip4_text_roundtrip [of "\<lparr>na_buffer = [192, 168, 7, 9], na_length = 4, na_type = IP4\<rparr>"] by (simp add: ip4_ok_def)

end
