(* ===== verification/Network_Headers.thy ===== *)
theory Network_Headers
  imports Network_Addresses
begin

unbundle bit_operations_syntax

text \<open>
  The headers of the network protocols (lib/util/network, kernel/network/arp, kernel/network/udp) with
  their readers and writers, and the checksums of \<^verbatim>\<open>Ip4Module\<close> and \<^verbatim>\<open>UdpModule\<close>. The enumerations of
  the protocols are the numbers that travel on the wire.
\<close>

section \<open>Headers\<close>

record EthernetHeader =
  eh_destinationAddress :: NetworkAddress
  eh_sourceAddress :: NetworkAddress
  eh_etherType :: u16

definition ETHERTYPE_IP4 :: u16 where "ETHERTYPE_IP4 = 0x0800"
definition ETHERTYPE_ARP :: u16 where "ETHERTYPE_ARP = 0x0806"

definition EthernetHeader_new :: EthernetHeader where
  "EthernetHeader_new =
     \<lparr>eh_destinationAddress = MacAddress_new, eh_sourceAddress = MacAddress_new, eh_etherType = 0\<rparr>"

definition eh_read :: "EthernetHeader \<Rightarrow> (ByteArrayInputStream, EthernetHeader) state" where
  "eh_read h = do {
     destinationAddress \<leftarrow> na_read (eh_destinationAddress h);
     sourceAddress \<leftarrow> na_read (eh_sourceAddress h);
     etherType \<leftarrow> readUnsigned16BitValue;
     State_Monad.return \<lparr>eh_destinationAddress = destinationAddress, eh_sourceAddress = sourceAddress,
       eh_etherType = etherType\<rparr>
   }"

definition eh_write :: "EthernetHeader \<Rightarrow> u8 list" where
  "eh_write h = na_write (eh_destinationAddress h) @ na_write (eh_sourceAddress h) @ writeUnsigned16BitValue (eh_etherType h)"

record ArpHeader =
  ah_hardwareAddressType :: u16
  ah_hardwareAddressSize :: u8
  ah_protocolAddressType :: u16
  ah_protocolAddressSize :: u8
  ah_operation :: u16

definition ARP_ETHERNET :: u16 where "ARP_ETHERNET = 0x0001"
definition ARP_IP4 :: u16 where "ARP_IP4 = 0x0800"
definition ARP_REQUEST :: u16 where "ARP_REQUEST = 0x0001"
definition ARP_REPLY :: u16 where "ARP_REPLY = 0x0002"

definition ArpHeader_new :: ArpHeader where
  "ArpHeader_new =
     \<lparr>ah_hardwareAddressType = ARP_ETHERNET, ah_hardwareAddressSize = 6, ah_protocolAddressType = ARP_IP4,
      ah_protocolAddressSize = 4, ah_operation = 0\<rparr>"

definition ah_read :: "(ByteArrayInputStream, ArpHeader) state" where
  "ah_read = do {
     hardwareAddressType \<leftarrow> readUnsigned16BitValue;
     protocolAddressType \<leftarrow> readUnsigned16BitValue;
     hardwareAddressSize \<leftarrow> readUnsigned8BitValue;
     protocolAddressSize \<leftarrow> readUnsigned8BitValue;
     operation \<leftarrow> readUnsigned16BitValue;
     State_Monad.return \<lparr>ah_hardwareAddressType = hardwareAddressType, ah_hardwareAddressSize = hardwareAddressSize,
       ah_protocolAddressType = protocolAddressType, ah_protocolAddressSize = protocolAddressSize, ah_operation = operation\<rparr>
   }"

definition ah_write :: "ArpHeader \<Rightarrow> u8 list" where
  "ah_write h = writeUnsigned16BitValue (ah_hardwareAddressType h) @ writeUnsigned16BitValue (ah_protocolAddressType h) @
     writeUnsigned8BitValue (ah_hardwareAddressSize h) @ writeUnsigned8BitValue (ah_protocolAddressSize h) @
     writeUnsigned16BitValue (ah_operation h)"

record Ip4Header =
  ih_version :: u8
  ih_headerLength :: u8
  ih_payloadLength :: u16
  ih_timeToLive :: u8
  ih_protocol :: u8
  ih_sourceAddress :: NetworkAddress
  ih_destinationAddress :: NetworkAddress

definition PROTOCOL_ICMP :: u8 where "PROTOCOL_ICMP = 0x01"
definition PROTOCOL_UDP :: u8 where "PROTOCOL_UDP = 0x11"
definition MIN_HEADER_LENGTH :: u8 where "MIN_HEADER_LENGTH = 20"
definition IP4_CHECKSUM_OFFSET :: u32 where "IP4_CHECKSUM_OFFSET = 10"

definition Ip4Header_new :: Ip4Header where
  "Ip4Header_new =
     \<lparr>ih_version = 4, ih_headerLength = MIN_HEADER_LENGTH, ih_payloadLength = 0, ih_timeToLive = 64, ih_protocol = 0,
      ih_sourceAddress = Ip4Address_new, ih_destinationAddress = Ip4Address_new\<rparr>"

text \<open>\<open>n\<close> calls of \<^verbatim>\<open>stream.read()\<close> whose results are dropped.\<close>

primrec discard :: "nat \<Rightarrow> (ByteArrayInputStream, unit) state" where
  "discard 0 = State_Monad.return ()"
| "discard (Suc n) = do { _ \<leftarrow> is_read; discard n }"

definition ih_read :: "Ip4Header \<Rightarrow> (ByteArrayInputStream, Ip4Header) state" where
  "ih_read h = do {
     versionAndLength \<leftarrow> readUnsigned8BitValue;
     let version = drop_bit 4 versionAndLength;
     let headerLength = (versionAndLength AND 0x0f) * 4;
     _ \<leftarrow> discard 1;
     totalLength \<leftarrow> readUnsigned16BitValue;
     let payloadLength = totalLength - ucast headerLength;
     _ \<leftarrow> discard 4;
     timeToLive \<leftarrow> readUnsigned8BitValue;
     protocol \<leftarrow> readUnsigned8BitValue;
     _ \<leftarrow> discard 2;
     sourceAddress \<leftarrow> na_read (ih_sourceAddress h);
     destinationAddress \<leftarrow> na_read (ih_destinationAddress h);
     _ \<leftarrow> discard (unat headerLength - unat MIN_HEADER_LENGTH);
     State_Monad.return \<lparr>ih_version = version, ih_headerLength = headerLength, ih_payloadLength = payloadLength,
       ih_timeToLive = timeToLive, ih_protocol = protocol, ih_sourceAddress = sourceAddress,
       ih_destinationAddress = destinationAddress\<rparr>
   }"

definition ih_write :: "Ip4Header \<Rightarrow> u8 list" where
  "ih_write h = writeUnsigned8BitValue (push_bit 4 (ih_version h) OR MIN_HEADER_LENGTH div 4) @
     writeUnsigned8BitValue 0 @
     writeUnsigned16BitValue (ucast (ih_headerLength h) + ih_payloadLength h) @
     writeUnsigned32BitValue 0 @
     writeUnsigned8BitValue (ih_timeToLive h) @
     writeUnsigned8BitValue (ih_protocol h) @
     writeUnsigned16BitValue 0 @
     na_write (ih_sourceAddress h) @
     na_write (ih_destinationAddress h)"

record UdpHeader =
  uh_sourcePort :: u16
  uh_destinationPort :: u16
  uh_datagramLength :: u16
  uh_checksum :: u16

definition UDP_HEADER_SIZE :: u32 where "UDP_HEADER_SIZE = 8"

definition uh_read :: "(ByteArrayInputStream, UdpHeader) state" where
  "uh_read = do {
     sourcePort \<leftarrow> readUnsigned16BitValue;
     destinationPort \<leftarrow> readUnsigned16BitValue;
     datagramLength \<leftarrow> readUnsigned16BitValue;
     checksum \<leftarrow> readUnsigned16BitValue;
     State_Monad.return \<lparr>uh_sourcePort = sourcePort, uh_destinationPort = destinationPort,
       uh_datagramLength = datagramLength, uh_checksum = checksum\<rparr>
   }"

definition uh_write :: "UdpHeader \<Rightarrow> u8 list" where
  "uh_write h = writeUnsigned16BitValue (uh_sourcePort h) @ writeUnsigned16BitValue (uh_destinationPort h) @
     writeUnsigned16BitValue (uh_datagramLength h) @ writeUnsigned16BitValue (uh_checksum h)"

record IcmpHeader =
  ch_type :: u8
  ch_code :: u8
  ch_checksum :: u16

definition ECHO_REPLY :: u8 where "ECHO_REPLY = 0"
definition ECHO_REQUEST :: u8 where "ECHO_REQUEST = 8"
definition ICMP_CHECKSUM_OFFSET :: u32 where "ICMP_CHECKSUM_OFFSET = 2"
definition ICMP_HEADER_LENGTH :: u32 where "ICMP_HEADER_LENGTH = 4"

definition ch_read :: "(ByteArrayInputStream, IcmpHeader) state" where
  "ch_read = do {
     type \<leftarrow> readUnsigned8BitValue;
     code \<leftarrow> readUnsigned8BitValue;
     checksum \<leftarrow> readUnsigned16BitValue;
     State_Monad.return \<lparr>ch_type = type, ch_code = code, ch_checksum = checksum\<rparr>
   }"

definition ch_write :: "IcmpHeader \<Rightarrow> u8 list" where
  "ch_write h = writeUnsigned8BitValue (ch_type h) @ writeUnsigned8BitValue (ch_code h) @ writeUnsigned16BitValue (ch_checksum h)"

record EchoHeader =
  oh_identifier :: u16
  oh_sequenceNumber :: u16

definition ECHO_HEADER_LENGTH :: u32 where "ECHO_HEADER_LENGTH = 4"

definition oh_read :: "(ByteArrayInputStream, EchoHeader) state" where
  "oh_read = do {
     identifier \<leftarrow> readUnsigned16BitValue;
     sequenceNumber \<leftarrow> readUnsigned16BitValue;
     State_Monad.return \<lparr>oh_identifier = identifier, oh_sequenceNumber = sequenceNumber\<rparr>
   }"

definition oh_write :: "EchoHeader \<Rightarrow> u8 list" where
  "oh_write h = writeUnsigned16BitValue (oh_identifier h) @ writeUnsigned16BitValue (oh_sequenceNumber h)"

record Ip4PseudoHeader =
  ph_sourceAddress :: NetworkAddress
  ph_destinationAddress :: NetworkAddress
  ph_datagramLength :: u16

definition ph_write :: "Ip4PseudoHeader \<Rightarrow> u8 list" where
  "ph_write h = na_write (ph_sourceAddress h) @ na_write (ph_destinationAddress h) @
     writeUnsigned16BitValue (ucast PROTOCOL_UDP) @ writeUnsigned16BitValue (ph_datagramLength h)"

section \<open>Checksums\<close>

text \<open>The sum loop of \<^verbatim>\<open>Ip4Module::calculateChecksum\<close>, whose index has eight bits; \<open>None\<close> when it never ends.\<close>

partial_function (option) ip4_sum :: "(u32 \<Rightarrow> u8) \<Rightarrow> u32 \<Rightarrow> u32 \<Rightarrow> u8 \<Rightarrow> u32 \<Rightarrow> u32 option" where
  "ip4_sum buffer offset n i checksum =
     (if ucast i < n
      then if ucast i = offset then ip4_sum buffer offset n (i + 2) checksum
           else ip4_sum buffer offset n (i + 2)
                  (checksum + (push_bit 8 (ucast (buffer (ucast i))) OR ucast (buffer (ucast i + 1))))
      else Some checksum)"

definition ip4_calculateChecksum :: "(u32 \<Rightarrow> u8) \<Rightarrow> u32 \<Rightarrow> u32 \<Rightarrow> u16 option" where
  "ip4_calculateChecksum buffer offset n =
     map_option (\<lambda>checksum. NOT (ucast (checksum + drop_bit 16 checksum))) (ip4_sum buffer offset n 0 0)"

text \<open>The loops of \<^verbatim>\<open>UdpModule::calculateChecksum\<close>; the index over the datagram has sixteen bits.\<close>

partial_function (option) udp_sum :: "(u32 \<Rightarrow> u8) \<Rightarrow> u16 \<Rightarrow> u16 \<Rightarrow> u32 \<Rightarrow> u32 option" where
  "udp_sum datagram n i checksum =
     (if i < n
      then if i = 6 then udp_sum datagram n (i + 2) checksum
           else if i = n - 1 then udp_sum datagram n (i + 2) (checksum + push_bit 8 (ucast (datagram (ucast i))))
           else udp_sum datagram n (i + 2)
                  (checksum + (push_bit 8 (ucast (datagram (ucast i))) OR ucast (datagram (ucast i + 1))))
      else Some checksum)"

lemma unat_fold_step:
  "unat (drop_bit 16 c + (c AND 0xffff)) = unat c div 65536 + unat c mod 65536" for c :: u32
proof -
  have "c AND 0xffff = take_bit 16 c"
    by (simp add: take_bit_eq_mask mask_eq_exp_minus_1)
  then have "unat (c AND 0xffff) = unat c mod 65536"
    by (simp only: unsigned_take_bit_eq) (simp add: take_bit_eq_mod)
  moreover have "unat (drop_bit 16 c) = unat c div 65536"
    by (simp add: drop_bit_eq_div unat_div_distrib)
  moreover have "unat c div 65536 < 65536"
    using unat_lt_2_32 [of c] by (simp add: div_less_iff_less_mult)
  moreover have "unat c mod 65536 < 65536"
    by simp
  ultimately show ?thesis
    by (simp add: unat_word_ariths(1))
qed

lemma fold_step_less: "drop_bit 16 c > 0 \<Longrightarrow> unat (drop_bit 16 c + (c AND 0xffff)) < unat c" for c :: u32
proof -
  assume "drop_bit 16 c > 0"
  then have "0 < unat c div 65536"
    by (simp add: word_less_nat_alt drop_bit_eq_div unat_div_distrib)
  moreover have "unat c = unat c div 65536 * 65536 + unat c mod 65536"
    by simp
  ultimately show ?thesis
    unfolding unat_fold_step by linarith
qed

function fold_carry :: "u32 \<Rightarrow> u32" where
  "fold_carry checksum = (if drop_bit 16 checksum > 0 then fold_carry (drop_bit 16 checksum + (checksum AND 0xffff)) else checksum)"
  by pat_completeness auto
termination
  by (relation "measure unat") (auto intro: fold_step_less)

declare fold_carry.simps [simp del]

definition udp_calculateChecksum :: "(u32 \<Rightarrow> u8) \<Rightarrow> (u32 \<Rightarrow> u8) \<Rightarrow> u16 \<Rightarrow> u16 option" where
  "udp_calculateChecksum pseudoHeader datagram datagramLength =
     map_option (\<lambda>checksum. NOT (ucast (fold_carry checksum)))
       (udp_sum datagram datagramLength 0
          (fold (\<lambda>i checksum. checksum + (push_bit 8 (ucast (pseudoHeader i)) OR ucast (pseudoHeader (i + 1))))
             [0, 2, 4, 6, 8, 10] 0))"

section \<open>The codec interface\<close>

text \<open>
  What a protocol layer relies on: a header has a fixed size, and the reader gives back what the
  writer wrote and leaves the stream behind the header.
\<close>

locale header_codec =
  fixes emit :: "'h \<Rightarrow> u8 list" and parse :: "(ByteArrayInputStream, 'h) state" and ok :: "'h \<Rightarrow> bool" and len :: nat
  assumes write_length: "ok h \<Longrightarrow> length (emit h) = len"
    and read_write: "ok h \<Longrightarrow> ahead s (emit h @ bs) \<Longrightarrow> run_state parse s = (h, past s len)"
begin

lemma behind: "ok h \<Longrightarrow> ahead s (emit h @ bs) \<Longrightarrow> ahead (past s len) bs"
  using ahead_drop [of s "emit h @ bs" len] write_length [of h] by simp

lemma read_then:
  "ok h \<Longrightarrow> ahead s (emit h @ bs) \<Longrightarrow> run_state (parse \<bind> k) s = run_state (k h) (past s len) \<and> ahead (past s len) bs"
  using behind by (simp add: read_write)

end

lemma list_of_length:
  "length xs = 4 \<Longrightarrow> \<exists>a b c d. xs = [a, b, c, d]"
  "length xs = 6 \<Longrightarrow> \<exists>a b c d e f. xs = [a, b, c, d, e, f]"
  by (auto simp: length_Suc_conv numeral_eq_Suc)

lemma mac_cases: "mac_ok a \<Longrightarrow> \<exists>b c d e f g. a = \<lparr>na_buffer = [b, c, d, e, f, g], na_length = 6, na_type = MAC\<rparr>"
  using list_of_length(2) [of "na_buffer a"] by (cases a) (auto simp: mac_ok_def)

lemma ip4_cases: "ip4_ok a \<Longrightarrow> \<exists>b c d e. a = \<lparr>na_buffer = [b, c, d, e], na_length = 4, na_type = IP4\<rparr>"
  using list_of_length(1) [of "na_buffer a"] by (cases a) (auto simp: ip4_ok_def)

lemma na_read_ahead [stream_reads]:
  assumes "ahead s bs" and "n + unat k \<le> length bs" and "k \<noteq> 0"
  shows "run_state (na_read (NetworkAddress_new k t)) (past s n) =
    (\<lparr>na_buffer = take (unat k) (drop n bs), na_length = k, na_type = t\<rparr>, past s (n + unat k))"
proof -
  have u: "unat (ucast k :: u32) = unat k"
    by (simp add: unat_ucast_up)
  then have "(ucast k :: u32) \<noteq> 0"
    using assms(3) by (simp add: word_unat_eq_iff)
  then show ?thesis
    using is_readInto_ahead [OF assms(1), of n "ucast k"] assms(2) u by (simp add: na_read_def NetworkAddress_new_def)
qed

lemma discard_ahead [stream_reads]:
  "ahead s bs \<Longrightarrow> n + k \<le> length bs \<Longrightarrow> run_state (discard k) (past s n) = ((), past s (n + k))"
proof (induction k arbitrary: n)
  case (Suc k)
  then show ?case
    using is_read_ahead [of s bs n] Suc.IH [of "n + 1"] by simp
qed simp

lemmas header_bytes = writeUnsigned8BitValue_def writeUnsigned16BitValue_def write16BitValue_def
  writeUnsigned32BitValue_def write32BitValue_def na_write_def

definition eh_ok :: "EthernetHeader \<Rightarrow> bool" where
  "eh_ok h \<longleftrightarrow> mac_ok (eh_destinationAddress h) \<and> mac_ok (eh_sourceAddress h)"

interpretation eh: header_codec eh_write "eh_read EthernetHeader_new" eh_ok 14
proof
  fix h :: EthernetHeader and s bs
  assume "eh_ok h"
  then obtain a b c d e f a' b' c' d' e' f' t where h: "h = \<lparr>eh_destinationAddress = \<lparr>na_buffer = [a, b, c, d, e, f], na_length = 6, na_type = MAC\<rparr>,
      eh_sourceAddress = \<lparr>na_buffer = [a', b', c', d', e', f'], na_length = 6, na_type = MAC\<rparr>, eh_etherType = t\<rparr>"
    using mac_cases unfolding eh_ok_def by (cases h) fastforce
  show "length (eh_write h) = 14"
    by (simp add: h eh_write_def header_bytes)
  assume a: "ahead s (eh_write h @ bs)"
  show "run_state (eh_read EthernetHeader_new) s = (h, past s 14)"
    using stream_reads [OF a, of 0] na_read_ahead [OF a, of 6] read16_ahead [OF a, of 12]
    by (simp add: eh_read_def EthernetHeader_new_def MacAddress_new_def h eh_write_def header_bytes)
qed

interpretation ah: header_codec ah_write ah_read "\<lambda>_. True" 8
proof
  fix h :: ArpHeader and s bs
  show "length (ah_write h) = 8"
    by (simp add: ah_write_def header_bytes)
  assume a: "ahead s (ah_write h @ bs)"
  show "run_state ah_read s = (h, past s 8)"
    using read16_ahead [OF a, of 0] read16_ahead [OF a, of 2] read8_ahead [OF a, of 4] read8_ahead [OF a, of 5] read16_ahead [OF a, of 6]
    by (cases h) (simp add: ah_read_def ah_write_def header_bytes flip: numeral_2_eq_2)
qed

interpretation uh: header_codec uh_write uh_read "\<lambda>_. True" 8
proof
  fix h :: UdpHeader and s bs
  show "length (uh_write h) = 8"
    by (simp add: uh_write_def header_bytes)
  assume a: "ahead s (uh_write h @ bs)"
  show "run_state uh_read s = (h, past s 8)"
    using read16_ahead [OF a, of 0] read16_ahead [OF a, of 2] read16_ahead [OF a, of 4] read16_ahead [OF a, of 6]
    by (cases h) (simp add: uh_read_def uh_write_def header_bytes flip: numeral_2_eq_2)
qed

interpretation ch: header_codec ch_write ch_read "\<lambda>_. True" 4
proof
  fix h :: IcmpHeader and s bs
  show "length (ch_write h) = 4"
    by (simp add: ch_write_def header_bytes)
  assume a: "ahead s (ch_write h @ bs)"
  show "run_state ch_read s = (h, past s 4)"
    using read8_ahead [OF a, of 0] read8_ahead [OF a, of 1] read16_ahead [OF a, of 2]
    by (cases h) (simp add: ch_read_def ch_write_def header_bytes flip: numeral_2_eq_2)
qed

interpretation oh: header_codec oh_write oh_read "\<lambda>_. True" 4
proof
  fix h :: EchoHeader and s bs
  show "length (oh_write h) = 4"
    by (simp add: oh_write_def header_bytes)
  assume a: "ahead s (oh_write h @ bs)"
  show "run_state oh_read s = (h, past s 4)"
    using read16_ahead [OF a, of 0] read16_ahead [OF a, of 2]
    by (cases h) (simp add: oh_read_def oh_write_def header_bytes flip: numeral_2_eq_2)
qed

definition ih_ok :: "Ip4Header \<Rightarrow> bool" where
  "ih_ok h \<longleftrightarrow> unat (ih_version h) < 16 \<and> ih_headerLength h = MIN_HEADER_LENGTH \<and>
     ip4_ok (ih_sourceAddress h) \<and> ip4_ok (ih_destinationAddress h)"

lemma version_byte:
  fixes v :: u8
  assumes "unat v < 16"
  shows "drop_bit 4 (push_bit 4 v OR 5) = v" "(push_bit 4 v OR 5) AND 0x0f = 5"
proof -
  have v: "take_bit 4 v = v"
    using assms by (simp only: word_unat_eq_iff unsigned_take_bit_eq) (simp add: take_bit_eq_mod)
  then have "bit v j \<Longrightarrow> j < 4" for j
    by (metis bit_take_bit_iff)
  moreover have "\<not> bit (5 :: u8) (4 + j)" for j
    by (simp add: bit_numeral_rec)
  ultimately show "drop_bit 4 (push_bit 4 v OR 5) = v"
    by (intro bit_word_eqI) (auto simp: bit_simps)
  have "(0x0f :: u8) = mask 4"
    by (simp add: mask_eq_exp_minus_1)
  then have "(push_bit 4 v OR 5) AND 0x0f = take_bit 4 (push_bit 4 v) OR take_bit 4 5"
    by (simp only: take_bit_eq_mask [symmetric] take_bit_or)
  also have "take_bit 4 (push_bit 4 v) = 0"
    by (simp add: take_bit_push_bit)
  finally show "(push_bit 4 v OR 5) AND 0x0f = 5"
    by (simp add: take_bit_eq_mod)
qed

interpretation ih: header_codec ih_write "ih_read Ip4Header_new" ih_ok 20
proof
  fix h :: Ip4Header and s bs
  assume ok: "ih_ok h"
  then obtain v p t q a b c d a' b' c' d' where h: "h = \<lparr>ih_version = v, ih_headerLength = 20, ih_payloadLength = p,
      ih_timeToLive = t, ih_protocol = q, ih_sourceAddress = \<lparr>na_buffer = [a, b, c, d], na_length = 4, na_type = IP4\<rparr>,
      ih_destinationAddress = \<lparr>na_buffer = [a', b', c', d'], na_length = 4, na_type = IP4\<rparr>\<rparr>" and v: "unat v < 16"
    using ip4_cases unfolding ih_ok_def MIN_HEADER_LENGTH_def by (cases h) fastforce
  show "length (ih_write h) = 20"
    by (simp add: h ih_write_def header_bytes)
  assume a: "ahead s (ih_write h @ bs)"
  show "run_state (ih_read Ip4Header_new) s = (h, past s 20)"
    using read8_ahead [OF a, of 0] is_read_ahead [OF a, of 1] read16_ahead [OF a, of 2] discard_ahead [OF a, of 4 4]
      read8_ahead [OF a, of 8] read8_ahead [OF a, of 9] discard_ahead [OF a, of 10 2] na_read_ahead [OF a, of 12]
      na_read_ahead [OF a, of 16] version_byte [OF v]
    by (simp add: ih_read_def Ip4Header_new_def Ip4Address_new_def h ih_write_def header_bytes MIN_HEADER_LENGTH_def flip: numeral_2_eq_2)
qed

text \<open>
  C30. The headers on the wire are read back: an Ethernet, an IPv4 and a UDP header that are written one
  after the other are parsed in that order to the same headers, and the stream stands at the payload.
\<close>

theorem packet_headers_roundtrip:
  assumes "eh_ok e" and "ih_ok i" and "ahead s (eh_write e @ ih_write i @ uh_write u @ payload)"
  shows "run_state (do { e \<leftarrow> eh_read EthernetHeader_new; i \<leftarrow> ih_read Ip4Header_new; u \<leftarrow> uh_read; State_Monad.return (e, i, u) }) s =
      ((e, i, u), past s 42) \<and> ahead (past s 42) payload"
proof -
  have 1: "ahead (past s 14) (ih_write i @ uh_write u @ payload)"
    by (rule eh.behind [OF assms(1,3)])
  have 2: "ahead (past s 34) (uh_write u @ payload)"
    using ih.behind [OF assms(2) 1] by simp
  show ?thesis
    using eh.read_write [OF assms(1,3)] ih.read_write [OF assms(2) 1] uh.read_write [OF TrueI 2] uh.behind [OF TrueI 2] by simp
qed

definition sample_eth :: EthernetHeader where
  "sample_eth = \<lparr>eh_destinationAddress = MacAddress_createBroadcastAddress, eh_sourceAddress = MacAddress_new, eh_etherType = ETHERTYPE_IP4\<rparr>"

theorem packet_headers_roundtrip_witness:
  "\<exists>s. run_state (do { e \<leftarrow> eh_read EthernetHeader_new; i \<leftarrow> ih_read Ip4Header_new; u \<leftarrow> uh_read; State_Monad.return (e, i, u) }) s =
      ((sample_eth, Ip4Header_new, \<lparr>uh_sourcePort = 53, uh_destinationPort = 1024, uh_datagramLength = 9, uh_checksum = 0\<rparr>), past s 42) \<and>
    ahead (past s 42) [7]"
proof -
  let ?u = "\<lparr>uh_sourcePort = 53, uh_destinationPort = 1024, uh_datagramLength = 9, uh_checksum = 0\<rparr>"
  let ?bs = "eh_write sample_eth @ ih_write Ip4Header_new @ uh_write ?u @ [7]"
  have e: "eh_ok sample_eth"
    by (simp add: eh_ok_def sample_eth_def mac_ok_def MacAddress_createBroadcastAddress_def MacAddress_ofBuffer_def
        NetworkAddress_ofBuffer_def setAddress_def NetworkAddress_new_def MacAddress_new_def)
  have i: "ih_ok Ip4Header_new"
    by (simp add: ih_ok_def Ip4Header_new_def ip4_ok_def Ip4Address_new_def NetworkAddress_new_def)
  have "length ?bs < 2 ^ 32"
    using eh.write_length [OF e] ih.write_length [OF i] uh.write_length [OF TrueI, of ?u] by simp
  then show ?thesis
    using packet_headers_roundtrip [OF e i, of "stream_of ?bs" ?u "[7]"] stream_of_ahead by blast
qed

section \<open>The checksums\<close>

text \<open>The sixteen-bit word at position \<open>i\<close> and the sum of the words of a header without the checksum.\<close>

definition word_at :: "(u32 \<Rightarrow> u8) \<Rightarrow> nat \<Rightarrow> nat" where
  "word_at buffer i = 256 * unat (buffer (of_nat i)) + unat (buffer (of_nat i + 1))"

definition header_sum :: "(u32 \<Rightarrow> u8) \<Rightarrow> u32 \<Rightarrow> nat \<Rightarrow> nat \<Rightarrow> nat" where
  "header_sum buffer offset k m = sum_list (map (\<lambda>j. if 2 * j = unat offset then 0 else word_at buffer (2 * j)) [k..<m])"

lemma unat_bytes: "unat (push_bit 8 (ucast a :: u32) OR ucast b) = 256 * unat a + unat b" for a b :: u8
proof -
  have "push_bit 8 (ucast a :: u32) OR ucast b = push_bit 8 (ucast a) + ucast b"
    by (rule disjunctive_add_eq_or [symmetric]) (rule bit_word_eqI, auto simp: bit_simps dest: bit_imp_le_length)
  moreover have "unat a < 256" "unat b < 256"
    using unsigned_less [of a, where 'a = nat] unsigned_less [of b, where 'a = nat] by simp_all
  ultimately show ?thesis
    by (simp add: push_bit_eq_mult unat_word_ariths unat_ucast_up)
qed

lemma word_at_bound: "word_at buffer i \<le> 65535"
  using unsigned_less [of "buffer (of_nat i)", where 'a = nat] unsigned_less [of "buffer (of_nat i + 1)", where 'a = nat]
  by (simp add: word_at_def)

lemma word_at_of: "(push_bit 8 (ucast (buffer (of_nat i))) OR ucast (buffer (of_nat i + 1)) :: u32) = of_nat (word_at buffer i)"
  unfolding word_unat_eq_iff unat_bytes unat_of_nat using word_at_bound [of buffer i] by (simp add: word_at_def)

lemma ip4_sum_spec:
  assumes "unat n < 255" and "k \<le> (unat n + 1) div 2"
  shows "ip4_sum buffer offset n (of_nat (2 * k)) c = Some (c + of_nat (header_sum buffer offset k ((unat n + 1) div 2)))"
  using assms(2)
proof (induction "(unat n + 1) div 2 - k" arbitrary: k c)
  case 0
  then have k: "k = (unat n + 1) div 2"
    by simp
  have "2 * k < 256" "unat n \<le> 2 * k"
    using assms(1) k by presburger+
  then have "\<not> ucast (of_nat (2 * k) :: u8) < n"
    by (simp only: word_less_nat_alt unat_ucast_up len_num1 len_num0 len_bit0 len_bit1) (simp add: unat_of_nat del: of_nat_mult)
  then show ?case
    using k by (subst ip4_sum.simps) (simp add: header_sum_def)
next
  case (Suc d)
  have lt: "2 * k < unat n"
    using Suc.hyps(2) by presburger
  have i: "(ucast (of_nat (2 * k) :: u8) :: u32) = of_nat (2 * k)"
    using lt assms(1) by (simp add: word_unat_eq_iff unat_ucast_up unat_of_nat del: of_nat_mult)
  have less: "(of_nat (2 * k) :: u32) < n" and off: "(of_nat (2 * k) :: u32) = offset \<longleftrightarrow> 2 * k = unat offset"
    using lt assms(1) by (simp_all only: word_less_nat_alt word_unat_eq_iff) (simp_all add: unat_of_nat del: of_nat_mult)
  have nxt: "(of_nat (2 * k) + 2 :: u8) = of_nat (2 * Suc k)"
    by simp
  have IH: "ip4_sum buffer offset n (of_nat (2 * k) + 2) c' =
      Some (c' + of_nat (header_sum buffer offset (Suc k) ((unat n + 1) div 2)))" for c'
    unfolding nxt using Suc.hyps by (intro Suc.hyps(1)) simp_all
  have step: "header_sum buffer offset k ((unat n + 1) div 2) =
      (if 2 * k = unat offset then 0 else word_at buffer (2 * k)) + header_sum buffer offset (Suc k) ((unat n + 1) div 2)"
    using Suc.hyps(2) by (simp add: header_sum_def upt_conv_Cons)
  show ?case
  proof (cases "2 * k = unat offset")
    case True
    then show ?thesis
      unfolding ip4_sum.simps [of buffer offset n "of_nat (2 * k)"] i off if_P [OF less] if_P [OF True] IH step by simp
  next
    case False
    then show ?thesis
      unfolding ip4_sum.simps [of buffer offset n "of_nat (2 * k)"] i off if_P [OF less] if_not_P [OF False] word_at_of IH step
      by (simp add: add.assoc)
  qed
qed

lemma ip4_sum_diverges:
  assumes "ip4_sum buffer offset n i c = Some r" and "even (unat i)"
  shows "unat n < 255"
proof -
  have "even (unat i) \<longrightarrow> unat n < 255"
  proof (rule ip4_sum.raw_induct [OF _ assms(1), of "\<lambda>buffer offset n i c r. even (unat i) \<longrightarrow> unat n < 255"])
    fix rec :: "(u32 \<Rightarrow> u8) \<Rightarrow> u32 \<Rightarrow> u32 \<Rightarrow> u8 \<Rightarrow> u32 \<Rightarrow> u32 option" and buffer offset n i c r
    assume IH: "\<And>buffer offset n i c r. rec buffer offset n i c = Some r \<Longrightarrow> even (unat i) \<longrightarrow> unat n < 255"
    assume body: "(if ucast i < n
        then if ucast i = offset then rec buffer offset n (i + 2) c
          else rec buffer offset n (i + 2)
            (c + (push_bit 8 (ucast (buffer (ucast i))) OR ucast (buffer (ucast i + 1))))
        else Some c) = Some r"
    show "even (unat i) \<longrightarrow> unat n < 255"
    proof
      assume e: "even (unat i)"
      have "unat (i + 2) = (unat i + 2) mod 256"
        by (simp add: unat_word_ariths(1))
      then have ev: "even (unat (i + 2))"
        using e by (simp add: dvd_mod_iff)
      show "unat n < 255"
      proof (cases "ucast i < n")
        case True
        then have "\<exists>c'. rec buffer offset n (i + 2) c' = Some r"
          using body by (auto split: if_splits)
        then show ?thesis
          using IH ev by blast
      next
        case False
        have "unat i \<noteq> 255" "unat i < 256"
          using e unsigned_less [of i, where 'a = nat] by auto
        then show ?thesis
          using False by (simp add: word_less_nat_alt unat_ucast_up)
      qed
    qed
  qed
  then show ?thesis
    using assms(2) by simp
qed

text \<open>
  The header checksum of a long message never ends: the loop of \<^verbatim>\<open>Ip4Module::calculateChecksum\<close>
  counts with eight bits, and it ends exactly for lengths below 255. The echo handler applies it to
  whole messages, so that a ping with 247 or more bytes of data hangs the receiver.
\<close>

theorem ip4_checksum_ends_iff: "(\<exists>c. ip4_calculateChecksum buffer offset n = Some c) \<longleftrightarrow> unat n < 255"
proof
  assume "\<exists>c. ip4_calculateChecksum buffer offset n = Some c"
  then obtain c where "ip4_sum buffer offset n 0 0 = Some c"
    by (auto simp: ip4_calculateChecksum_def)
  then show "unat n < 255"
    by (rule ip4_sum_diverges) simp
next
  assume "unat n < 255"
  then show "\<exists>c. ip4_calculateChecksum buffer offset n = Some c"
    using ip4_sum_spec [of n 0 buffer offset 0] by (simp add: ip4_calculateChecksum_def)
qed

lemma sum_list_bound: "(\<And>x. x \<in> set xs \<Longrightarrow> f x \<le> b) \<Longrightarrow> sum_list (map f xs) \<le> length xs * b" for b :: nat
proof (induction xs)
  case (Cons x xs)
  then have "f x \<le> b" "sum_list (map f xs) \<le> length xs * b"
    by simp_all
  then show ?case
    by simp
qed simp

lemma header_sum_bound: "m \<le> 128 \<Longrightarrow> header_sum buffer offset k m \<le> 128 * 65535"
proof -
  assume m: "m \<le> 128"
  have "header_sum buffer offset k m \<le> length [k..<m] * 65535"
    unfolding header_sum_def by (rule sum_list_bound) (simp add: word_at_bound)
  also have "\<dots> \<le> 128 * 65535"
    using m by simp
  finally show ?thesis .
qed

lemma unat_not16: "unat (NOT x) = 65535 - unat x" for x :: u16
proof -
  have "NOT x = - 1 - x"
    by (simp add: not_eq_complement)
  moreover have "unat (- 1 :: u16) = 65535"
    by (simp add: unsigned_minus_1_eq_mask mask_eq_exp_minus_1)
  ultimately show ?thesis
    using unsigned_less [of x, where 'a = nat] by (simp add: unat_sub word_le_nat_alt)
qed

lemma folded_mod: "(a div 65536 + a mod 65536) mod 65535 = a mod (65535 :: nat)"
proof -
  have "a = 65535 * (a div 65536) + (a div 65536 + a mod 65536)"
    using div_mult_mod_eq [of a 65536] by linarith
  then show ?thesis
    by (metis mod_mult_self4)
qed

lemma complement_valid:
  assumes "r \<le> 65535" and "r mod 65535 = s mod (65535 :: nat)"
  shows "(s + (65535 - r)) mod 65535 = 0"
proof -
  have "(s + (65535 - r)) mod 65535 = (r + (65535 - r)) mod 65535"
    using assms(2) by (metis mod_add_left_eq)
  then show ?thesis
    using assms(1) by simp
qed

text \<open>
  C32. When the header checksum is right: for a header whose words sum up to \<open>S\<close>, the checksum of
  \<^verbatim>\<open>Ip4Module\<close> is the Internet checksum of RFC 1071 (all words with the checksum add up to zero in
  one's complement arithmetic) exactly when adding the carries to the lower sixteen bits of \<open>S\<close> does
  not carry again: the code folds only once.
\<close>

theorem ip4_checksum_valid_iff:
  assumes "unat n < 255" and S_def: "S = header_sum buffer offset 0 ((unat n + 1) div 2)"
  shows "\<exists>c. ip4_calculateChecksum buffer offset n = Some c \<and>
    ((S + unat c) mod 65535 = 0 \<longleftrightarrow> S div 65536 + S mod 65536 < 65536)"
proof -
  have "S \<le> 128 * 65535"
    unfolding S_def using assms(1) by (intro header_sum_bound) simp
  then have S: "unat (of_nat S :: u32) = S" "S div 65536 \<le> 127"
    by (simp_all add: unat_of_nat)
  define w :: u32 where "w = of_nat S + drop_bit 16 (of_nat S)"
  have "unat (drop_bit 16 (of_nat S :: u32)) = S div 65536"
    using S(1) by (simp add: drop_bit_eq_div unat_div_distrib)
  then have "unat w = S + S div 65536"
    using S \<open>S \<le> 128 * 65535\<close> by (simp add: w_def unat_word_ariths(1))
  then have u: "unat (ucast w :: u16) = (S + S div 65536) mod 65536"
    by (simp add: unat_ucast_mod)
  define f where "f = S div 65536 + S mod 65536"
  have "(S mod 65536 + S div 65536) mod 65536 = (S + S div 65536) mod 65536" "S mod 65536 < 65536"
    by (simp_all only: mod_add_left_eq mod_less_divisor zero_less_numeral)
  then have f: "(S + S div 65536) mod 65536 = f mod 65536" "f < 65536 + 65535" "f mod 65535 = S mod 65535"
    using S(2) folded_mod [of S] unfolding f_def by (simp add: add.commute, linarith, simp)
  have c: "ip4_calculateChecksum buffer offset n = Some (NOT (ucast w))"
    using ip4_sum_spec [OF assms(1), of 0 buffer offset 0] by (simp add: ip4_calculateChecksum_def w_def S_def)
  have "(S + unat (NOT (ucast w :: u16))) mod 65535 = 0 \<longleftrightarrow> f < 65536"
  proof (cases "f < 65536")
    case True
    then show ?thesis
      using complement_valid [of f S] f by (simp add: unat_not16 u)
  next
    case False
    then have r: "f mod 65536 = f - 65536"
      using f(2) by (simp add: mod_if)
    have "(S + (65535 - (f - 65536))) mod 65535 = (f + (65535 - (f - 65536))) mod 65535"
      using f(3) by (metis mod_add_left_eq)
    also have "f + (65535 - (f - 65536)) = 131071"
      using False f(2) by simp
    finally show ?thesis
      using False r f(1) by (simp add: unat_not16 u)
  qed
  then show ?thesis
    using c by (simp add: f_def)
qed

definition sample_header :: "u32 \<Rightarrow> u8" where
  "sample_header i = [0x45, 0, 0, 0x73, 0, 0, 0x40, 0, 0x40, 0x11, 0, 0, 0xc0, 0xa8, 0, 1, 0xc0, 0xa8, 0, 0xc7] ! unat i"

theorem ip4_checksum_valid_iff_witness:
  "\<exists>c. ip4_calculateChecksum sample_header 10 20 = Some c \<and> (0x2479c + unat c) mod 65535 = 0"
proof -
  have "header_sum sample_header 10 0 10 = 0x2479c"
    by (simp add: header_sum_def upt_rec word_at_def sample_header_def)
  then show ?thesis
    using ip4_checksum_valid_iff [of 20 "0x2479c" sample_header 10] by simp
qed

text \<open>The sum of the words of a datagram without the checksum; an odd last byte is padded with zero.\<close>

definition datagram_word :: "(u32 \<Rightarrow> u8) \<Rightarrow> nat \<Rightarrow> nat \<Rightarrow> nat" where
  "datagram_word datagram n j =
     (if j = 3 then 0 else if Suc (2 * j) = n then 256 * unat (datagram (of_nat (2 * j))) else word_at datagram (2 * j))"

definition datagram_sum :: "(u32 \<Rightarrow> u8) \<Rightarrow> nat \<Rightarrow> nat \<Rightarrow> nat" where
  "datagram_sum datagram n k = sum_list (map (datagram_word datagram n) [k..<(n + 1) div 2])"

lemma udp_sum_spec:
  assumes "unat n < 65535" and "k \<le> (unat n + 1) div 2"
  shows "udp_sum datagram n (of_nat (2 * k)) c = Some (c + of_nat (datagram_sum datagram (unat n) k))"
  using assms(2)
proof (induction "(unat n + 1) div 2 - k" arbitrary: k c)
  case 0
  then have k: "k = (unat n + 1) div 2"
    by simp
  have "2 * k < 65536" "unat n \<le> 2 * k"
    using assms(1) k by presburger+
  then have "\<not> (of_nat (2 * k) :: u16) < n"
    by (simp add: word_less_nat_alt unat_of_nat del: of_nat_mult)
  then show ?case
    using k by (subst udp_sum.simps) (simp add: datagram_sum_def)
next
  case (Suc d)
  have lt: "2 * k < unat n"
    using Suc.hyps(2) by presburger
  have u: "unat (of_nat (2 * k) :: u16) = 2 * k"
    using lt assms(1) by (simp add: unat_of_nat del: of_nat_mult)
  have i: "(ucast (of_nat (2 * k) :: u16) :: u32) = of_nat (2 * k)"
    using lt assms(1) by (simp add: word_unat_eq_iff unat_ucast_up unat_of_nat del: of_nat_mult)
  have "unat (n - 1) = unat n - 1"
    using lt by (intro unat_minus_one) auto
  then have less: "(of_nat (2 * k) :: u16) < n" and six: "(of_nat (2 * k) :: u16) = 6 \<longleftrightarrow> k = 3"
      and last: "(of_nat (2 * k) :: u16) = n - 1 \<longleftrightarrow> Suc (2 * k) = unat n"
    using lt u by (auto simp: word_less_nat_alt word_unat_eq_iff simp del: of_nat_mult)
  have nxt: "(of_nat (2 * k) + 2 :: u16) = of_nat (2 * Suc k)"
    by simp
  have IH: "udp_sum datagram n (of_nat (2 * k) + 2) c' = Some (c' + of_nat (datagram_sum datagram (unat n) (Suc k)))" for c'
    unfolding nxt using Suc.hyps by (intro Suc.hyps(1)) simp_all
  have w: "push_bit 8 (ucast (datagram (of_nat (2 * k))) :: u32) = of_nat (256 * unat (datagram (of_nat (2 * k))))"
    by (simp add: push_bit_eq_mult)
  have "datagram_sum datagram (unat n) k = datagram_word datagram (unat n) k + datagram_sum datagram (unat n) (Suc k)"
    using Suc.hyps(2) by (simp add: datagram_sum_def upt_conv_Cons)
  then show ?case
    unfolding udp_sum.simps [of datagram n "of_nat (2 * k)"] i six last word_at_of if_P [OF less] IH
    by (simp add: w datagram_word_def add.assoc del: of_nat_mult)
qed

lemma fold_carry_spec: "unat (fold_carry c) < 65536 \<and> unat (fold_carry c) mod 65535 = unat c mod 65535"
proof (induction c rule: fold_carry.induct)
  case (1 c)
  show ?case
  proof (cases "drop_bit 16 c > 0")
    case True
    then show ?thesis
      using "1.IH" by (subst (1 2) fold_carry.simps) (simp add: unat_fold_step folded_mod)
  next
    case False
    then have "unat c div 65536 = 0"
      by (simp add: word_less_nat_alt drop_bit_eq_div unat_div_distrib)
    then show ?thesis
      using False by (subst (1 2) fold_carry.simps) (simp add: div_eq_0_iff)
  qed
qed

text \<open>
  C31. The UDP checksum is right: for every datagram shorter than 65535 bytes the loops end, and the
  words of the pseudo header and of the datagram together with the checksum add up to zero in one's
  complement arithmetic (RFC 1071).
\<close>

theorem udp_checksum_valid:
  assumes "unat n < 65535"
  shows "\<exists>c. udp_calculateChecksum pseudo datagram n = Some c \<and>
    ((sum_list (map (word_at pseudo) [0, 2, 4, 6, 8, 10])) + datagram_sum datagram (unat n) 0 + unat c) mod 65535 = 0"
proof -
  let ?P = "sum_list (map (word_at pseudo) [0, 2, 4, 6, 8, 10])" and ?D = "datagram_sum datagram (unat n) 0"
  have "?P \<le> 6 * 65535"
    using sum_list_bound [of "[0, 2, 4, 6, 8, 10]" "word_at pseudo" 65535] word_at_bound by simp
  moreover have "datagram_word datagram (unat n) j \<le> 65535" for j
    using word_at_bound [of datagram "2 * j"] by (simp add: datagram_word_def word_at_def)
  then have "?D \<le> 32768 * 65535"
    using sum_list_bound [of "[0..<(unat n + 1) div 2]" "datagram_word datagram (unat n)" 65535] assms
    by (simp add: datagram_sum_def)
  ultimately have "?P + ?D < 2 ^ 32"
    by simp
  then have u: "unat (of_nat (?P + ?D) :: u32) = ?P + ?D"
    by (rule unat_of_nat32)
  have p: "fold (\<lambda>i checksum. checksum + (push_bit 8 (ucast (pseudo i)) OR ucast (pseudo (i + 1)))) [0, 2, 4, 6, 8, 10] 0 = (of_nat ?P :: u32)"
    using word_at_of [of pseudo 0] word_at_of [of pseudo 2] word_at_of [of pseudo 4] word_at_of [of pseudo 6] word_at_of [of pseudo 8] word_at_of [of pseudo 10]
    by (simp add: add_ac)
  define r where "r = fold_carry (of_nat (?P + ?D))"
  have r: "unat r < 65536" "unat r mod 65535 = (?P + ?D) mod 65535"
    using fold_carry_spec [of "of_nat (?P + ?D)"] u by (simp_all add: r_def)
  have "udp_calculateChecksum pseudo datagram n = Some (NOT (ucast r))"
    unfolding udp_calculateChecksum_def p r_def using udp_sum_spec [OF assms, of 0 datagram "of_nat ?P"] by simp
  moreover have "unat (NOT (ucast r :: u16)) = 65535 - unat r"
    using r(1) by (simp add: unat_not16 unat_ucast_mod)
  ultimately show ?thesis
    using complement_valid [of "unat r" "?P + ?D"] r by simp
qed

theorem udp_checksum_valid_witness:
  "\<exists>c. udp_calculateChecksum sample_header sample_header 9 = Some c \<and>
    ((sum_list (map (word_at sample_header) [0, 2, 4, 6, 8, 10])) + datagram_sum sample_header 9 0 + unat c) mod 65535 = 0"
  using udp_checksum_valid [of 9 sample_header sample_header] by simp

end
