(* ===== verification/Network_Modules.thy ===== *)
theory Network_Modules
  imports Network_Headers
begin

unbundle bit_operations_syntax

text \<open>
  The protocol modules of the network stack (kernel/network): Ethernet, ARP, IPv4 with its routing
  table, ICMP and UDP. The state of all modules is one record; a packet that a device sends is
  appended to \<open>ns_sent\<close>. The array lists of the code are lists here, and every operation that holds
  the lock of its module is one step. \<open>junk\<close> is what \<^verbatim>\<open>compareTo\<close> reads behind an address, \<open>wait\<close>
  what the other threads do to the stack while a thread sleeps.
\<close>

section \<open>State\<close>

record NetworkDevice =
  nd_identifier :: Str
  nd_macAddress :: NetworkAddress

record Ip4Interface =
  if_address :: NetworkAddress
  if_device :: NetworkDevice

record Ip4Route =
  rt_sourceAddress :: NetworkAddress
  rt_targetAddress :: NetworkAddress
  rt_nextHop :: NetworkAddress
  rt_deviceIdentifier :: Str
  rt_nextHopValid :: bool

record ArpEntry =
  ae_protocolAddress :: NetworkAddress
  ae_hardwareAddress :: NetworkAddress

datatype DatagramKind = EthernetDatagram u16 | Ip4Datagram u8 | IcmpDatagram u8 u8 | UdpDatagram

record Datagram =
  dg_kind :: DatagramKind
  dg_buffer :: "u8 list"
  dg_remoteAddress :: NetworkAddress

record Socket =
  so_id :: nat
  so_address :: NetworkAddress
  so_incoming :: "Datagram list"

record LayerInformation =
  li_sourceAddress :: NetworkAddress
  li_destinationAddress :: NetworkAddress
  li_payloadLength :: u32

record NetworkStack =
  ns_ethernetSockets :: "Socket list"
  ns_ip4Sockets :: "Socket list"
  ns_icmpSockets :: "Socket list"
  ns_udpSockets :: "Socket list"
  ns_arpCache :: "ArpEntry list"
  ns_interfaces :: "Ip4Interface list"
  ns_routes :: "Ip4Route list"
  ns_defaultRoute :: Ip4Route
  ns_sent :: "(Str \<times> u8 list) list"

text \<open>The memory a byte buffer lies in, and the next \<open>n\<close> bytes of a stream.\<close>

definition memory_of :: "u8 list \<Rightarrow> u32 \<Rightarrow> u8" where
  "memory_of bs i = (if unat i < length bs then bs ! unat i else 0)"

definition bytes_from :: "ByteArrayInputStream \<Rightarrow> nat \<Rightarrow> u8 list" where
  "bytes_from s n = map (\<lambda>i. is_buffer s (is_position s + of_nat i)) [0..<n]"

primrec remove_first :: "('a \<Rightarrow> bool) \<Rightarrow> 'a list \<Rightarrow> 'a list" where
  "remove_first P [] = []"
| "remove_first P (x # xs) = (if P x then xs else x # remove_first P xs)"

section \<open>Sockets\<close>

definition handleIncomingDatagram :: "Socket \<Rightarrow> Datagram \<Rightarrow> Socket" where
  "handleIncomingDatagram s d = s\<lparr>so_incoming := so_incoming s @ [d]\<rparr>"

definition deliver :: "(Socket \<Rightarrow> bool) \<Rightarrow> Datagram \<Rightarrow> Socket list \<Rightarrow> Socket list" where
  "deliver P d = map (\<lambda>s. if P s then handleIncomingDatagram s d else s)"

definition nm_registerSocket :: "Socket list \<Rightarrow> Socket \<Rightarrow> bool \<times> Socket list" where
  "nm_registerSocket socketList s = (True, socketList @ [s])"

definition nm_deregisterSocket :: "Socket list \<Rightarrow> Socket \<Rightarrow> Socket list" where
  "nm_deregisterSocket socketList s = remove_first (\<lambda>t. so_id t = so_id s) socketList"

section \<open>Devices and Ethernet\<close>

definition MAX_ETHERNET_PACKET_SIZE :: nat where "MAX_ETHERNET_PACKET_SIZE = 1522"
definition MIN_ETHERNET_PACKET_SIZE :: nat where "MIN_ETHERNET_PACKET_SIZE = 64"

definition sendPacket :: "NetworkDevice \<Rightarrow> u8 list \<Rightarrow> NetworkStack \<Rightarrow> NetworkStack" where
  "sendPacket device packet st =
     (if MAX_ETHERNET_PACKET_SIZE < length packet then st
      else st\<lparr>ns_sent := ns_sent st @
             [(nd_identifier device, packet @ replicate (MIN_ETHERNET_PACKET_SIZE - length packet) 0)]\<rparr>)"

definition eth_writeHeader :: "NetworkDevice \<Rightarrow> NetworkAddress \<Rightarrow> u16 \<Rightarrow> u8 list" where
  "eth_writeHeader device destinationAddress etherType =
     eh_write \<lparr>eh_destinationAddress = destinationAddress, eh_sourceAddress = nd_macAddress device, eh_etherType = etherType\<rparr>"

definition finalizePacket :: "u8 list \<Rightarrow> u8 list" where
  "finalizePacket packet = packet @ replicate (64 - 4 - length packet) 0"

section \<open>ARP\<close>

text \<open>
  \<^verbatim>\<open>setEntry\<close> walks over the cache with an iterator, which holds a copy of the elements: the
  hardware address it sets is that of the copy.
\<close>

definition setEntry :: "ArpEntry list \<Rightarrow> NetworkAddress \<Rightarrow> NetworkAddress \<Rightarrow> ArpEntry list" where
  "setEntry arpCache protocolAddress hardwareAddress =
     (if list_ex (\<lambda>entry. na_eq (ae_protocolAddress entry) protocolAddress) arpCache then arpCache
      else arpCache @ [\<lparr>ae_protocolAddress = protocolAddress, ae_hardwareAddress = hardwareAddress\<rparr>])"

definition removeEntry :: "ArpEntry list \<Rightarrow> NetworkAddress \<Rightarrow> ArpEntry list" where
  "removeEntry arpCache protocolAddress =
     (case find (\<lambda>entry. na_eq (ae_protocolAddress entry) protocolAddress) arpCache of
        None \<Rightarrow> arpCache
      | Some entry \<Rightarrow> remove_first (\<lambda>e. na_eq (ae_hardwareAddress e) (ae_hardwareAddress entry) \<and>
                                       na_eq (ae_protocolAddress e) (ae_protocolAddress entry)) arpCache)"

definition getHardwareAddress :: "ArpEntry list \<Rightarrow> NetworkAddress \<Rightarrow> NetworkAddress result" where
  "getHardwareAddress arpCache protocolAddress =
     (case find (\<lambda>entry. na_eq (ae_protocolAddress entry) protocolAddress) arpCache of
        None \<Rightarrow> Inl INVALID_ARGUMENT
      | Some entry \<Rightarrow> Inr (ae_hardwareAddress entry))"

definition hasHardwareAddress :: "ArpEntry list \<Rightarrow> NetworkAddress \<Rightarrow> bool" where
  "hasHardwareAddress arpCache protocolAddress =
     list_ex (\<lambda>entry. na_eq (ae_protocolAddress entry) protocolAddress) arpCache"

definition arp_writeHeader :: "u16 \<Rightarrow> NetworkDevice \<Rightarrow> NetworkAddress \<Rightarrow> u8 list" where
  "arp_writeHeader operation device destinationAddress =
     eth_writeHeader device destinationAddress ETHERTYPE_ARP @ ah_write (ArpHeader_new\<lparr>ah_operation := operation\<rparr>)"

definition MAX_REQUEST_RETRIES :: nat where "MAX_REQUEST_RETRIES = 10"

primrec resolve_from ::
    "(NetworkStack \<Rightarrow> NetworkStack) \<Rightarrow> NetworkAddress \<Rightarrow> Ip4Interface \<Rightarrow> nat \<Rightarrow> NetworkStack
     \<Rightarrow> (NetworkAddress option \<times> NetworkStack) result" where
  "resolve_from wait protocolAddress interface 0 st = Inr (None, st)"
| "resolve_from wait protocolAddress interface (Suc n) st =
     (if hasHardwareAddress (ns_arpCache st) protocolAddress
      then res_bind (getHardwareAddress (ns_arpCache st) protocolAddress) (\<lambda>h. Inr (Some h, st))
      else let device = if_device interface;
               packet = arp_writeHeader ARP_REQUEST device MacAddress_createBroadcastAddress @
                 na_write (nd_macAddress device) @ na_write (getIp4Address (if_address interface)) @
                 na_write MacAddress_new @ na_write protocolAddress
           in resolve_from wait protocolAddress interface n (wait (sendPacket device (finalizePacket packet) st)))"

definition resolveAddress ::
    "(NetworkStack \<Rightarrow> NetworkStack) \<Rightarrow> NetworkAddress \<Rightarrow> Ip4Interface \<Rightarrow> NetworkStack
     \<Rightarrow> (NetworkAddress option \<times> NetworkStack) result" where
  "resolveAddress wait protocolAddress interface = resolve_from wait protocolAddress interface MAX_REQUEST_RETRIES"

definition handleRequest ::
    "NetworkAddress \<Rightarrow> NetworkAddress \<Rightarrow> NetworkAddress \<Rightarrow> NetworkDevice \<Rightarrow> NetworkStack \<Rightarrow> NetworkStack result" where
  "handleRequest sourceHardwareAddress sourceAddress targetProtocolAddress device st =
     (let st = st\<lparr>ns_arpCache := setEntry (ns_arpCache st) sourceAddress sourceHardwareAddress\<rparr>
      in if hasHardwareAddress (ns_arpCache st) targetProtocolAddress
         then res_bind (getHardwareAddress (ns_arpCache st) targetProtocolAddress) (\<lambda>targetHardwareAddress.
                let packet = arp_writeHeader ARP_REPLY device targetHardwareAddress @
                      na_write (nd_macAddress device) @ na_write targetProtocolAddress @
                      na_write sourceHardwareAddress @ na_write sourceAddress
                in Inr (sendPacket device (finalizePacket packet) st))
         else Inr st)"

definition handleReply ::
    "NetworkAddress \<Rightarrow> NetworkAddress \<Rightarrow> NetworkAddress \<Rightarrow> NetworkAddress \<Rightarrow> NetworkStack \<Rightarrow> NetworkStack" where
  "handleReply sourceHardwareAddress sourceAddress targetHardwareAddress targetProtocolAddress st =
     (let st = st\<lparr>ns_arpCache := setEntry (ns_arpCache st) sourceAddress sourceHardwareAddress\<rparr>
      in if \<not> MacAddress_isBroadcastAddress targetHardwareAddress
         then st\<lparr>ns_arpCache := setEntry (ns_arpCache st) targetProtocolAddress targetHardwareAddress\<rparr>
         else st)"

definition arp_readPacket :: "ByteArrayInputStream \<Rightarrow> NetworkDevice \<Rightarrow> NetworkStack \<Rightarrow> NetworkStack result" where
  "arp_readPacket stream device st =
     (let (arpHeader, stream) = run_state ah_read stream
      in if ah_hardwareAddressType arpHeader \<noteq> ARP_ETHERNET then Inr st
         else if ah_protocolAddressType arpHeader \<noteq> ARP_IP4 then Inr st
         else let ((sourceMac, sourceIp, targetMac, targetIp), _) =
                    run_state (do {
                      sourceMac \<leftarrow> na_read MacAddress_new; sourceIp \<leftarrow> na_read Ip4Address_new;
                      targetMac \<leftarrow> na_read MacAddress_new; targetIp \<leftarrow> na_read Ip4Address_new;
                      State_Monad.return (sourceMac, sourceIp, targetMac, targetIp)
                    }) stream
              in if ah_operation arpHeader = ARP_REQUEST then handleRequest sourceMac sourceIp targetIp device st
                 else if ah_operation arpHeader = ARP_REPLY then Inr (handleReply sourceMac sourceIp targetMac targetIp st)
                 else Inr st)"

section \<open>Interfaces and routes\<close>

text \<open>\<open>None\<close> when the broadcast address of the interface is undefined.\<close>

definition isTargetOf :: "Ip4Interface \<Rightarrow> NetworkAddress \<Rightarrow> bool option" where
  "isTargetOf interface targetAddress =
     (if na_eq targetAddress (getIp4Address (if_address interface)) then Some True
      else map_option (\<lambda>broadcast. na_eq broadcast targetAddress \<or> Ip4Address_isBroadcastAddress targetAddress)
             (getBroadcastAddress (if_address interface)))"

fun getTargetInterfaces :: "Ip4Interface list \<Rightarrow> NetworkAddress \<Rightarrow> Ip4Interface list option" where
  "getTargetInterfaces [] address = Some []"
| "getTargetInterfaces (interface # others) address =
     (case isTargetOf interface address of
        None \<Rightarrow> None
      | Some b \<Rightarrow> map_option (\<lambda>found. if b then interface # found else found) (getTargetInterfaces others address))"

definition getInterfaces :: "Ip4Interface list \<Rightarrow> Str \<Rightarrow> Ip4Interface list" where
  "getInterfaces interfaces deviceIdentifier =
     filter (\<lambda>interface. str_eq (nd_identifier (if_device interface)) deviceIdentifier) interfaces"

definition Ip4Route_new :: Ip4Route where
  "Ip4Route_new =
     \<lparr>rt_sourceAddress = Ip4Address_new, rt_targetAddress = Ip4SubnetAddress_ofBitCount 32, rt_nextHop = Ip4Address_new,
      rt_deviceIdentifier = Str_new, rt_nextHopValid = False\<rparr>"

definition Ip4Route_local :: "NetworkAddress \<Rightarrow> Str \<Rightarrow> Ip4Route" where
  "Ip4Route_local targetAddress deviceIdentifier =
     \<lparr>rt_sourceAddress = getIp4Address targetAddress, rt_targetAddress = targetAddress, rt_nextHop = Ip4Address_new,
      rt_deviceIdentifier = deviceIdentifier, rt_nextHopValid = False\<rparr>"

definition route_eq :: "Ip4Route \<Rightarrow> Ip4Route \<Rightarrow> bool" where
  "route_eq r other \<longleftrightarrow> na_eq (rt_targetAddress r) (rt_targetAddress other) \<and>
     str_eq (rt_deviceIdentifier r) (rt_deviceIdentifier other) \<and> na_eq (rt_nextHop r) (rt_nextHop other)"

definition getTargetAddress :: "Ip4Route \<Rightarrow> NetworkAddress option" where
  "getTargetAddress r = getSubnetAddress (rt_targetAddress r)"

definition getNextHop :: "Ip4Route \<Rightarrow> NetworkAddress result" where
  "getNextHop r = (if \<not> rt_nextHopValid r then Inl UNSUPPORTED_OPERATION else Inr (rt_nextHop r))"

definition route_isValid :: "Ip4Route \<Rightarrow> bool" where
  "route_isValid r \<longleftrightarrow> \<not> str_isEmpty (rt_deviceIdentifier r)"

definition addRoute :: "Ip4Route \<Rightarrow> NetworkStack \<Rightarrow> (bool \<times> NetworkStack) option" where
  "addRoute route st =
     (case getTargetInterfaces (ns_interfaces st) (rt_sourceAddress route) of
        None \<Rightarrow> None
      | Some [] \<Rightarrow> Some (False, st)
      | Some (_ # _) \<Rightarrow>
          map_option (\<lambda>targetAddress.
            if getBitCount targetAddress = 0
            then (True, st\<lparr>ns_routes := remove_first (\<lambda>r. route_eq r route) (ns_routes st), ns_defaultRoute := route\<rparr>)
            else if \<not> list_ex (\<lambda>r. route_eq r route) (ns_routes st)
                 then (True, st\<lparr>ns_routes := ns_routes st @ [route]\<rparr>)
                 else (False, st)) (getTargetAddress route))"

definition removeRoute :: "Ip4Route \<Rightarrow> NetworkStack \<Rightarrow> bool \<times> NetworkStack" where
  "removeRoute route st =
     (if route_eq route (ns_defaultRoute st) then (True, st\<lparr>ns_defaultRoute := Ip4Route_new\<rparr>)
      else (list_ex (\<lambda>r. route_eq r route) (ns_routes st),
            st\<lparr>ns_routes := remove_first (\<lambda>r. route_eq r route) (ns_routes st)\<rparr>))"

definition removeLocalRoute :: "NetworkAddress \<Rightarrow> Str \<Rightarrow> NetworkStack \<Rightarrow> NetworkStack" where
  "removeLocalRoute localAddress device st = snd (removeRoute (Ip4Route_local localAddress device) st)"

definition getRoutes :: "NetworkStack \<Rightarrow> NetworkAddress \<Rightarrow> Ip4Route list" where
  "getRoutes st sourceAddress =
     (let anySource = na_eq sourceAddress Ip4_ANY
      in filter (\<lambda>r. anySource \<or> na_eq (rt_sourceAddress r) sourceAddress) (ns_routes st) @
         (if anySource \<or> na_eq (rt_sourceAddress (ns_defaultRoute st)) sourceAddress then [ns_defaultRoute st] else []))"

text \<open>The loop of \<^verbatim>\<open>findRoute\<close>; \<open>longestPrefix\<close> stays zero.\<close>

fun find_best :: "(u8 \<Rightarrow> u8) \<Rightarrow> bool \<Rightarrow> NetworkAddress \<Rightarrow> NetworkAddress \<Rightarrow> u8 \<Rightarrow> Ip4Route list \<Rightarrow> Ip4Route option
    \<Rightarrow> Ip4Route option option" where
  "find_best junk anySource sourceAddress address longestPrefix [] bestRoute = Some bestRoute"
| "find_best junk anySource sourceAddress address longestPrefix (route # others) bestRoute =
     (if anySource \<or> na_eq sourceAddress (rt_sourceAddress route)
      then case getTargetAddress route of
             None \<Rightarrow> None
           | Some subnetAddress \<Rightarrow>
               let prefix = compareTo junk (\<lambda>_. 0) address subnetAddress
               in find_best junk anySource sourceAddress address longestPrefix others
                    (if getBitCount subnetAddress \<le> prefix \<and> longestPrefix < prefix then Some route else bestRoute)
      else find_best junk anySource sourceAddress address longestPrefix others bestRoute)"

text \<open>
  The loop runs over a copy of the list that the iterators of the range-based loop own
  (\<^verbatim>\<open>ArrayList::begin\<close> passes \<^verbatim>\<open>toArray()\<close>). \<open>bestRoute\<close> points into that copy, which is deleted when the loop
  ends, so the reference that is returned for a route of the table is dangling: \<open>None\<close>. Only the
  reference to the default route is one the caller may read.
\<close>

definition findRoute :: "(u8 \<Rightarrow> u8) \<Rightarrow> NetworkStack \<Rightarrow> NetworkAddress \<Rightarrow> NetworkAddress \<Rightarrow> Ip4Route outcome" where
  "findRoute junk st sourceAddress address =
     (let anySource = na_eq sourceAddress Ip4_ANY
      in case find_best junk anySource sourceAddress address 0 (ns_routes st) None of
           None \<Rightarrow> None
         | Some None \<Rightarrow>
             if route_isValid (ns_defaultRoute st) \<and> (anySource \<or> na_eq sourceAddress (rt_sourceAddress (ns_defaultRoute st)))
             then Some (Inr (ns_defaultRoute st))
             else Some (Inl INVALID_ARGUMENT)
         | Some (Some route) \<Rightarrow> None)"

definition registerInterface :: "NetworkAddress \<Rightarrow> NetworkDevice \<Rightarrow> NetworkStack \<Rightarrow> bool \<times> NetworkStack" where
  "registerInterface address device st =
     (let interface = \<lparr>if_address = address, if_device = device\<rparr>
      in if list_ex (\<lambda>i. na_eq (if_address i) address) (ns_interfaces st) \<or> na_eq (getIp4Address address) Ip4_ANY
         then (False, st)
         else (True, st\<lparr>ns_interfaces := ns_interfaces st @ [interface],
                        ns_arpCache := setEntry (ns_arpCache st) (getIp4Address address) (nd_macAddress device)\<rparr>))"

definition removeInterface :: "NetworkAddress \<Rightarrow> Str \<Rightarrow> NetworkStack \<Rightarrow> bool \<times> NetworkStack" where
  "removeInterface address deviceIdentifier st =
     (case find (\<lambda>i. na_eq (if_address i) address \<and> str_eq (nd_identifier (if_device i)) deviceIdentifier) (ns_interfaces st) of
        None \<Rightarrow> (False, st)
      | Some interface \<Rightarrow>
          let st = st\<lparr>ns_arpCache := removeEntry (ns_arpCache st) (getIp4Address (if_address interface))\<rparr>;
              st = removeLocalRoute address deviceIdentifier st
          in (True, st\<lparr>ns_interfaces := remove_first (\<lambda>i. na_eq (if_address i) (if_address interface)) (ns_interfaces st)\<rparr>))"

section \<open>Sending\<close>

text \<open>
  \<^verbatim>\<open>Ip4Module::writeHeader\<close>: the interface, the bytes of the Ethernet and the IPv4 header, and the
  stack after the address was resolved. The checksum is written into the header afterwards.
\<close>

definition ip4_header_bytes :: "Ip4Header \<Rightarrow> u8 list option" where
  "ip4_header_bytes header =
     (let buffer = ih_write header; headerLength = (hd buffer AND 0x0f) * 4
      in map_option (\<lambda>checksum. buffer[10 := ucast (drop_bit 8 checksum), 11 := ucast checksum])
           (ip4_calculateChecksum (memory_of buffer) IP4_CHECKSUM_OFFSET (ucast headerLength)))"

definition ip4_writeHeader ::
    "(u8 \<Rightarrow> u8) \<Rightarrow> (NetworkStack \<Rightarrow> NetworkStack) \<Rightarrow> NetworkAddress \<Rightarrow> NetworkAddress \<Rightarrow> u8 \<Rightarrow> u16 \<Rightarrow> NetworkStack
     \<Rightarrow> (Ip4Interface \<times> u8 list \<times> NetworkStack) outcome" where
  "ip4_writeHeader junk wait sourceAddress destinationAddress protocol payloadLength st =
     out_bind (findRoute junk st sourceAddress destinationAddress) (\<lambda>route.
     out_bind (map_option (\<lambda>is. arr_get is 0) (getTargetInterfaces (ns_interfaces st) (rt_sourceAddress route))) (\<lambda>interface.
     out_bind (Some (if rt_nextHopValid route then getNextHop route else Inr destinationAddress)) (\<lambda>hop.
     out_bind (Some (resolveAddress wait hop interface st)) (\<lambda>(destinationMacAddress, st).
       case destinationMacAddress of
         None \<Rightarrow> Some (Inl INVALID_ARGUMENT)
       | Some mac \<Rightarrow>
           map_option (\<lambda>header. Inr (interface, eth_writeHeader (if_device interface) mac ETHERTYPE_IP4 @ header, st))
             (ip4_header_bytes (Ip4Header_new\<lparr>ih_sourceAddress := rt_sourceAddress route,
                ih_destinationAddress := destinationAddress, ih_protocol := protocol, ih_payloadLength := payloadLength,
                ih_timeToLive := 64\<rparr>))))))"

definition udp_datagram_bytes ::
    "NetworkAddress \<Rightarrow> NetworkAddress \<Rightarrow> u16 \<Rightarrow> u16 \<Rightarrow> u8 list \<Rightarrow> u8 list option" where
  "udp_datagram_bytes sourceIp destinationIp sourcePort destinationPort payload =
     (let datagramLength = of_nat (length payload) + 8;
          datagram = uh_write \<lparr>uh_sourcePort = sourcePort, uh_destinationPort = destinationPort,
            uh_datagramLength = datagramLength, uh_checksum = 0\<rparr> @ payload;
          pseudoHeader = ph_write \<lparr>ph_sourceAddress = sourceIp, ph_destinationAddress = destinationIp,
            ph_datagramLength = datagramLength\<rparr>
      in map_option (\<lambda>checksum. datagram[6 := ucast (drop_bit 8 checksum), 7 := ucast checksum])
           (udp_calculateChecksum (memory_of pseudoHeader) (memory_of datagram) datagramLength))"

definition udp_writePacket ::
    "(u8 \<Rightarrow> u8) \<Rightarrow> (NetworkStack \<Rightarrow> NetworkStack) \<Rightarrow> NetworkAddress \<Rightarrow> NetworkAddress \<Rightarrow> u8 list \<Rightarrow> NetworkStack
     \<Rightarrow> NetworkStack outcome" where
  "udp_writePacket junk wait sourceAddress destinationAddress buffer st =
     out_bind (ip4_writeHeader junk wait (getIp4Address sourceAddress) (getIp4Address destinationAddress) PROTOCOL_UDP
                 (of_nat (length buffer) + 8) st) (\<lambda>(sourceInterface, headers, st).
     out_bind (map_option Inr (udp_datagram_bytes (getIp4Address (if_address sourceInterface)) (getIp4Address destinationAddress)
                 (getPort sourceAddress) (getPort destinationAddress) buffer)) (\<lambda>datagram.
       Some (Inr (sendPacket (if_device sourceInterface) (finalizePacket (headers @ datagram)) st))))"

definition icmp_datagram_bytes :: "u8 \<Rightarrow> u8 \<Rightarrow> u8 list \<Rightarrow> u8 list option" where
  "icmp_datagram_bytes type code payload =
     (let datagram = ch_write \<lparr>ch_type = type, ch_code = code, ch_checksum = 0\<rparr> @ payload
      in map_option (\<lambda>checksum. datagram[2 := ucast (drop_bit 8 checksum), 3 := ucast checksum])
           (ip4_calculateChecksum (memory_of datagram) ICMP_CHECKSUM_OFFSET (of_nat (length payload) + ICMP_HEADER_LENGTH)))"

definition icmp_writePacket ::
    "(u8 \<Rightarrow> u8) \<Rightarrow> (NetworkStack \<Rightarrow> NetworkStack) \<Rightarrow> u8 \<Rightarrow> u8 \<Rightarrow> NetworkAddress \<Rightarrow> NetworkAddress \<Rightarrow> u8 list \<Rightarrow> NetworkStack
     \<Rightarrow> NetworkStack outcome" where
  "icmp_writePacket junk wait type code sourceAddress destinationAddress buffer st =
     out_bind (ip4_writeHeader junk wait sourceAddress destinationAddress PROTOCOL_ICMP (of_nat (length buffer) + 4) st)
       (\<lambda>(sourceInterface, headers, st).
     out_bind (map_option Inr (icmp_datagram_bytes type code buffer)) (\<lambda>datagram.
       Some (Inr (sendPacket (if_device sourceInterface) (finalizePacket (headers @ datagram)) st))))"

definition sendEchoReply ::
    "(u8 \<Rightarrow> u8) \<Rightarrow> (NetworkStack \<Rightarrow> NetworkStack) \<Rightarrow> NetworkAddress \<Rightarrow> NetworkAddress \<Rightarrow> EchoHeader \<Rightarrow> u8 list \<Rightarrow> NetworkStack
     \<Rightarrow> NetworkStack outcome" where
  "sendEchoReply junk wait sourceAddress destinationAddress requestHeader buffer st =
     icmp_writePacket junk wait ECHO_REPLY 0 sourceAddress destinationAddress (oh_write requestHeader @ buffer) st"

section \<open>Receiving\<close>

definition icmp_readPacket ::
    "(u8 \<Rightarrow> u8) \<Rightarrow> (NetworkStack \<Rightarrow> NetworkStack) \<Rightarrow> ByteArrayInputStream \<Rightarrow> LayerInformation \<Rightarrow> NetworkStack
     \<Rightarrow> NetworkStack outcome" where
  "icmp_readPacket junk wait stream information st =
     (let buffer = (\<lambda>i. is_buffer stream (is_position stream + i))
      in case ip4_calculateChecksum buffer ICMP_CHECKSUM_OFFSET (li_payloadLength information) of
           None \<Rightarrow> None
         | Some calculatedChecksum \<Rightarrow>
             if be16 (buffer ICMP_CHECKSUM_OFFSET) (buffer (ICMP_CHECKSUM_OFFSET + 1)) \<noteq> calculatedChecksum then Some (Inr st)
             else let (header, stream) = run_state ch_read stream
                  in if ch_type header = ECHO_REQUEST
                     then let payloadLength = li_payloadLength information - ICMP_HEADER_LENGTH - ECHO_HEADER_LENGTH;
                              (requestHeader, stream) = run_state oh_read stream
                          in sendEchoReply junk wait (li_destinationAddress information) (li_sourceAddress information) requestHeader
                               (bytes_from stream (unat (ucast payloadLength :: u16))) st
                     else let payloadLength = li_payloadLength information - ICMP_HEADER_LENGTH;
                              datagram = \<lparr>dg_kind = IcmpDatagram (ch_type header) (ch_code header),
                                dg_buffer = bytes_from stream (unat (ucast payloadLength :: u16)),
                                dg_remoteAddress = li_sourceAddress information\<rparr>
                          in Some (Inr (st\<lparr>ns_icmpSockets := deliver (\<lambda>s. na_eq (so_address s) Ip4_ANY \<or>
                                  na_eq (so_address s) (li_destinationAddress information)) datagram (ns_icmpSockets st)\<rparr>)))"

definition udp_readPacket :: "ByteArrayInputStream \<Rightarrow> LayerInformation \<Rightarrow> NetworkStack \<Rightarrow> NetworkStack outcome" where
  "udp_readPacket stream information st =
     (let pseudoHeader = \<lparr>ph_sourceAddress = li_sourceAddress information,
            ph_destinationAddress = li_destinationAddress information, ph_datagramLength = ucast (li_payloadLength information)\<rparr>;
          (header, stream) = run_state uh_read stream
      in case udp_calculateChecksum (memory_of (ph_write pseudoHeader))
                (\<lambda>i. is_buffer stream (is_position stream - UDP_HEADER_SIZE + i)) (ucast (li_payloadLength information)) of
           None \<Rightarrow> None
         | Some checksum \<Rightarrow>
             if uh_checksum header \<noteq> checksum then Some (Inr st)
             else let sourceAddress = Ip4PortAddress_ofAddress (li_sourceAddress information) (uh_sourcePort header);
                      destinationAddress = Ip4PortAddress_ofAddress (ph_destinationAddress pseudoHeader) (uh_destinationPort header);
                      datagram = \<lparr>dg_kind = UdpDatagram, dg_buffer = bytes_from stream (unat (uh_datagramLength header - 8)),
                        dg_remoteAddress = sourceAddress\<rparr>
                  in Some (Inr (st\<lparr>ns_udpSockets := deliver (\<lambda>s.
                       na_eq (getIp4Address (so_address s)) Ip4_ANY \<and> getPort (so_address s) = getPort destinationAddress \<or>
                       na_eq (so_address s) destinationAddress) datagram (ns_udpSockets st)\<rparr>)))"

definition ip4_readPacket ::
    "(u8 \<Rightarrow> u8) \<Rightarrow> (NetworkStack \<Rightarrow> NetworkStack) \<Rightarrow> ByteArrayInputStream \<Rightarrow> NetworkStack \<Rightarrow> NetworkStack outcome" where
  "ip4_readPacket junk wait stream st =
     (let buffer = (\<lambda>i. is_buffer stream (is_position stream + i));
          headerLength = (buffer 0 AND 0x0f) * 4
      in case ip4_calculateChecksum buffer IP4_CHECKSUM_OFFSET (ucast headerLength) of
           None \<Rightarrow> None
         | Some calculatedChecksum \<Rightarrow>
             if be16 (buffer IP4_CHECKSUM_OFFSET) (buffer (IP4_CHECKSUM_OFFSET + 1)) \<noteq> calculatedChecksum then Some (Inr st)
             else let (header, stream) = run_state (ih_read Ip4Header_new) stream
                  in if ih_version header \<noteq> 4 then Some (Inr st)
                     else case getTargetInterfaces (ns_interfaces st) (ih_destinationAddress header) of
                            None \<Rightarrow> None
                          | Some [] \<Rightarrow> Some (Inr st)
                          | Some (_ # _) \<Rightarrow>
                              let datagram = \<lparr>dg_kind = Ip4Datagram (ih_protocol header),
                                    dg_buffer = bytes_from stream (unat (ih_payloadLength header)),
                                    dg_remoteAddress = ih_sourceAddress header\<rparr>;
                                  st = st\<lparr>ns_ip4Sockets := deliver (\<lambda>s. na_eq (so_address s) Ip4_ANY \<or>
                                    na_eq (so_address s) (ih_destinationAddress header)) datagram (ns_ip4Sockets st)\<rparr>;
                                  information = \<lparr>li_sourceAddress = ih_sourceAddress header,
                                    li_destinationAddress = ih_destinationAddress header,
                                    li_payloadLength = ucast (ih_payloadLength header)\<rparr>
                              in if ih_protocol header = PROTOCOL_ICMP then icmp_readPacket junk wait stream information st
                                 else if ih_protocol header = PROTOCOL_UDP then udp_readPacket stream information st
                                 else Some (Inr st))"

definition eth_readPacket ::
    "(u8 \<Rightarrow> u8) \<Rightarrow> (NetworkStack \<Rightarrow> NetworkStack) \<Rightarrow> ByteArrayInputStream \<Rightarrow> u32 \<Rightarrow> NetworkDevice \<Rightarrow> NetworkStack
     \<Rightarrow> NetworkStack outcome" where
  "eth_readPacket junk wait stream packetLength device st =
     (let (header, stream) = run_state (eh_read EthernetHeader_new) stream
      in if \<not> na_eq (eh_destinationAddress header) (nd_macAddress device) \<and>
            \<not> MacAddress_isBroadcastAddress (eh_destinationAddress header)
         then Some (Inr st)
         else let payloadLength = packetLength - 14;
                  datagram = \<lparr>dg_kind = EthernetDatagram (eh_etherType header),
                    dg_buffer = bytes_from stream (unat (ucast payloadLength :: u16)),
                    dg_remoteAddress = eh_sourceAddress header\<rparr>;
                  st = st\<lparr>ns_ethernetSockets := deliver (\<lambda>s. na_eq (so_address s) (eh_destinationAddress header)) datagram
                    (ns_ethernetSockets st)\<rparr>
              in if eh_etherType header = ETHERTYPE_ARP then Some (arp_readPacket stream device st)
                 else if eh_etherType header = ETHERTYPE_IP4 then ip4_readPacket junk wait stream st
                 else Some (Inr st))"

section \<open>Ports\<close>

text \<open>
  The comparisons of a port address with \<^verbatim>\<open>Ip4Address::ANY\<close> compare addresses of six and of four
  bytes.
\<close>

definition port_taken :: "Socket list \<Rightarrow> NetworkAddress \<Rightarrow> u32 \<Rightarrow> bool" where
  "port_taken socketList address i =
     list_ex (\<lambda>s. ucast (getPort (so_address s)) = i \<and>
       (na_eq address Ip4_ANY \<or> na_eq (so_address s) Ip4_ANY \<or> na_eq (getIp4Address (so_address s)) address)) socketList"

definition generatePort :: "Socket list \<Rightarrow> NetworkAddress \<Rightarrow> u16 result" where
  "generatePort socketList address =
     (case find (\<lambda>i. \<not> port_taken socketList address (of_nat i)) [1024..<65535] of
        Some i \<Rightarrow> Inr (of_nat i)
      | None \<Rightarrow> Inl INVALID_ARGUMENT)"

definition udp_registerSocket :: "Socket list \<Rightarrow> Socket \<Rightarrow> (bool \<times> Socket list) result" where
  "udp_registerSocket socketList s =
     (let anyAddress = na_eq (getIp4Address (so_address s)) Ip4_ANY
      in res_bind (if getPort (so_address s) = 0
                   then res_bind (generatePort socketList (getIp4Address (so_address s))) (\<lambda>p. Inr (setPort (so_address s) p))
                   else Inr (so_address s)) (\<lambda>socketAddress.
           if list_ex (\<lambda>c. na_eq (so_address c) Ip4_ANY \<and> getPort socketAddress = getPort (so_address c) \<or>
                anyAddress \<and> getPort (so_address c) = getPort socketAddress \<or>
                na_eq (so_address c) socketAddress) socketList
           then Inr (False, socketList)
           else Inr (True, socketList @ [s\<lparr>so_address := socketAddress\<rparr>])))"

section \<open>Routing\<close>

text \<open>A subnet whose prefix consists of \<open>k\<close> whole bytes, and the routes that lead to an address.\<close>

definition byte_subnet :: "NetworkAddress \<Rightarrow> bool" where
  "byte_subnet a \<longleftrightarrow> subnet_ok a \<and> unat (getBitCount a) mod 8 = 0 \<and> getBitCount a \<noteq> 0"

definition leads_to :: "NetworkAddress \<Rightarrow> NetworkAddress \<Rightarrow> Ip4Route \<Rightarrow> bool" where
  "leads_to source address r \<longleftrightarrow> (source = Ip4_ANY \<or> source = rt_sourceAddress r) \<and>
     (let k = unat (getBitCount (rt_targetAddress r)) div 8
      in take k (na_buffer address) = take k (na_buffer (rt_targetAddress r)))"

lemma compareTo_subnet:
  assumes "ip4_ok address" and "byte_subnet a" and "getSubnetAddress a = Some net"
  shows "getBitCount net \<le> compareTo junk junk' address net \<longleftrightarrow>
    take (unat (getBitCount a) div 8) (na_buffer address) = take (unat (getBitCount a) div 8) (na_buffer a)"
proof -
  let ?n = "unat (getBitCount a)" and ?k = "unat (getBitCount a) div 8"
  have a: "subnet_ok a" "?n mod 8 = 0"
    using assms(2) by (simp_all add: byte_subnet_def)
  then have k: "?n = 8 * ?k" "?k \<le> 4"
    by (auto simp: subnet_ok_def word_le_nat_alt)
  have net: "subnet_ok net" "getBitCount net = getBitCount a"
      "\<forall>i < 4. \<forall>j. bit (na_buffer net ! i) j \<longleftrightarrow> bit (na_buffer a ! i) j \<and> 8 * i + j < ?n"
    using getSubnetAddress_spec [OF a(1)] assms(3) by auto
  have len: "na_length address = 4" "length (na_buffer address) = 4" "na_length net = 5" "length (na_buffer net) = 5"
      "length (na_buffer a) = 5"
    using assms(1) net(1) a(1) by (simp_all add: ip4_ok_def subnet_ok_def)
  have byte: "byte_at junk address (of_nat i) = na_buffer address ! i" "byte_at junk' net (of_nat i) = na_buffer net ! i" if "i < 4" for i
    using that len by (simp_all add: byte_at_def unat_of_nat)
  have eq: "na_buffer net ! i = na_buffer a ! i" if "i < ?k" for i
    using net(3) that k by (intro bit_word_eqI) simp
  have "same_bits junk junk' address net 0 ?n \<longleftrightarrow> (\<forall>i < ?k. na_buffer address ! i = na_buffer net ! i)"
  proof
    assume s: "same_bits junk junk' address net 0 ?n"
    have "na_buffer address ! i = na_buffer net ! i" if "i < ?k" for i
    proof (rule bit_word_eqI)
      fix j assume "j < LENGTH(8)"
      then have "8 * i + j < ?n" "j < 8"
        using that k(1) by simp_all
      then have "bit (byte_at junk address (of_nat i)) j = bit (byte_at junk' net (of_nat i)) j"
        using s unfolding same_bits_def by blast
      then show "bit (na_buffer address ! i) j = bit (na_buffer net ! i) j"
        using byte [of i] that k(2) by simp
    qed
    then show "\<forall>i < ?k. na_buffer address ! i = na_buffer net ! i"
      by blast
  next
    assume e: "\<forall>i < ?k. na_buffer address ! i = na_buffer net ! i"
    have "bit (byte_at junk address (of_nat i)) j = bit (byte_at junk' net (of_nat i)) j" if "8 * i + j < ?n" "j < 8" for i j
    proof -
      have "i < ?k" "i < 4"
        using that k by linarith+
      then show ?thesis
        using e byte [of i] by simp
    qed
    then show "same_bits junk junk' address net 0 ?n"
      by (simp add: same_bits_def)
  qed
  also have "\<dots> \<longleftrightarrow> take ?k (na_buffer address) = take ?k (na_buffer a)"
    using eq len k(2) by (auto simp: list_eq_iff_nth_eq)
  finally have "?n \<le> unat (compareTo junk junk' address net) \<longleftrightarrow> take ?k (na_buffer address) = take ?k (na_buffer a)"
    using compareTo_spec [of address net ?n junk junk'] len k by simp
  then show ?thesis
    using net(2) by (simp add: word_le_nat_alt)
qed

lemma find_append: "find P (xs @ ys) = (case find P xs of None \<Rightarrow> find P ys | Some x \<Rightarrow> Some x)"
  by (induction xs) auto

lemma find_best_spec:
  assumes "ip4_ok address" and "ip4_ok source"
    and "\<forall>r \<in> set rs. ip4_ok (rt_sourceAddress r) \<and> byte_subnet (rt_targetAddress r)"
  shows "find_best junk (na_eq source Ip4_ANY) source address 0 rs best =
    Some (case find (leads_to source address) (rev rs) of None \<Rightarrow> best | Some r \<Rightarrow> Some r)"
  using assms(3)
proof (induction rs arbitrary: best)
  case (Cons r rs)
  have any: "ip4_ok Ip4_ANY"
    by (simp add: ip4_ok_def Ip4_ANY_def)
  have r: "ip4_ok (rt_sourceAddress r)" "byte_subnet (rt_targetAddress r)"
    using Cons.prems by simp_all
  obtain net where net: "getSubnetAddress (rt_targetAddress r) = Some net" "getBitCount net = getBitCount (rt_targetAddress r)"
    using getSubnetAddress_spec r(2) unfolding byte_subnet_def by blast
  have "getBitCount net \<noteq> 0"
    using r(2) net(2) by (simp add: byte_subnet_def)
  then have "getBitCount net \<le> p \<and> 0 < p \<longleftrightarrow> getBitCount net \<le> p" for p
    by (metis word_gt_0 word_le_0_iff)
  moreover have "(na_eq source Ip4_ANY \<or> na_eq source (rt_sourceAddress r)) \<longleftrightarrow> (source = Ip4_ANY \<or> source = rt_sourceAddress r)"
    using ip4_eq_iff [OF assms(2) any] ip4_eq_iff [OF assms(2) r(1)] by simp
  ultimately have "find_best junk (na_eq source Ip4_ANY) source address 0 (r # rs) best =
      find_best junk (na_eq source Ip4_ANY) source address 0 rs (if leads_to source address r then Some r else best)"
    using net(1) compareTo_subnet [OF assms(1) r(2) net(1)] by (auto simp: getTargetAddress_def leads_to_def Let_def)
  then show ?case
    using Cons by (auto simp: find_append split: option.splits)
qed simp

text \<open>
  C34. \<^verbatim>\<open>findRoute\<close> is only safe for the default route. In a table whose subnets have a non-zero number of
  bits that ends at a byte boundary, if some route of the table leads to the address from the given
  source, then the call returns a reference into memory that was freed; otherwise it returns the
  default route if that is valid and fits the source, and throws INVALID_ARGUMENT if not.
\<close>

theorem find_route_default_only:
  assumes "ip4_ok address" and "ip4_ok source" and "ip4_ok (rt_sourceAddress (ns_defaultRoute st))"
    and "\<forall>r \<in> set (ns_routes st). ip4_ok (rt_sourceAddress r) \<and> byte_subnet (rt_targetAddress r)"
  shows "findRoute junk st source address =
    (if \<exists>r \<in> set (ns_routes st). leads_to source address r then None
     else if route_isValid (ns_defaultRoute st) \<and> (source = Ip4_ANY \<or> source = rt_sourceAddress (ns_defaultRoute st))
     then Some (Inr (ns_defaultRoute st)) else Some (Inl INVALID_ARGUMENT))"
proof -
  have "ip4_ok Ip4_ANY"
    by (simp add: ip4_ok_def Ip4_ANY_def)
  then have "na_eq source Ip4_ANY \<longleftrightarrow> source = Ip4_ANY"
      "na_eq source (rt_sourceAddress (ns_defaultRoute st)) \<longleftrightarrow> source = rt_sourceAddress (ns_defaultRoute st)"
    using ip4_eq_iff assms(2,3) by blast+
  moreover have "(\<exists>r \<in> set (ns_routes st). leads_to source address r) \<longleftrightarrow> find (leads_to source address) (rev (ns_routes st)) \<noteq> None"
    by (auto simp: find_None_iff simp del: not_None_eq)
  ultimately show ?thesis
    using find_best_spec [OF assms(1,2,4), of junk None] by (simp add: findRoute_def Let_def split: option.splits)
qed

text \<open>A default route over 10.0.0.1, a route to 10.0.1.0/24 and a later one to 10.0.0.0/16.\<close>

abbreviation ip4 :: "u8 list \<Rightarrow> NetworkAddress" where
  "ip4 bs \<equiv> \<lparr>na_buffer = bs, na_length = 4, na_type = IP4\<rparr>"

definition sample_route :: "u8 list \<Rightarrow> u8 \<Rightarrow> Ip4Route" where
  "sample_route bs n = \<lparr>rt_sourceAddress = ip4 [10, 0, 0, 1], rt_targetAddress = subnet bs n, rt_nextHop = Ip4Address_new,
     rt_deviceIdentifier = Str_of [101, 48], rt_nextHopValid = False\<rparr>"

definition sample_stack :: NetworkStack where
  "sample_stack = \<lparr>ns_ethernetSockets = [], ns_ip4Sockets = [], ns_icmpSockets = [], ns_udpSockets = [], ns_arpCache = [],
     ns_interfaces = [], ns_routes = [sample_route [10, 0, 1, 0] 24, sample_route [10, 0, 0, 0] 16],
     ns_defaultRoute = sample_route [0, 0, 0, 0] 0, ns_sent = []\<rparr>"

theorem find_route_default_only_witness:
  "findRoute (\<lambda>_. 0) sample_stack (ip4 [10, 0, 0, 1]) (ip4 [10, 0, 1, 7]) = None \<and>
   findRoute (\<lambda>_. 0) sample_stack (ip4 [10, 0, 0, 1]) (ip4 [11, 0, 1, 7]) = Some (Inr (sample_route [0, 0, 0, 0] 0))"
proof -
  have "byte_subnet (subnet [10, 0, 1, 0] 24)" "byte_subnet (subnet [10, 0, 0, 0] 16)"
    by (simp_all add: byte_subnet_def subnet_ok_def getBitCount_def)
  moreover have "route_isValid (sample_route [0, 0, 0, 0] 0)"
    by code_simp
  moreover have "rt_sourceAddress (sample_route bs n) = ip4 [10, 0, 0, 1]" "rt_targetAddress (sample_route bs n) = subnet bs n" for bs n
    by (simp_all add: sample_route_def)
  moreover have "ns_routes sample_stack = [sample_route [10, 0, 1, 0] 24, sample_route [10, 0, 0, 0] 16]"
      "ns_defaultRoute sample_stack = sample_route [0, 0, 0, 0] 0"
    by (simp_all add: sample_stack_def)
  ultimately show ?thesis
    using find_route_default_only [of "ip4 [10, 0, 1, 7]" "ip4 [10, 0, 0, 1]" sample_stack "\<lambda>_. 0"]
      find_route_default_only [of "ip4 [11, 0, 1, 7]" "ip4 [10, 0, 0, 1]" sample_stack "\<lambda>_. 0"]
    by (simp add: ip4_ok_def leads_to_def getBitCount_def)
qed

section \<open>The address cache\<close>

text \<open>The cache after learning a list of address pairs in turn.\<close>

definition learn :: "(NetworkAddress \<times> NetworkAddress) list \<Rightarrow> ArpEntry list" where
  "learn es = fold (\<lambda>(p, h) arpCache. setEntry arpCache p h) es []"

lemma learn_spec:
  assumes "\<forall>(p, h) \<in> set es. ip4_ok p" and "ip4_ok q"
  shows "find (\<lambda>e. na_eq (ae_protocolAddress e) q) (fold (\<lambda>(p, h) arpCache. setEntry arpCache p h) es arpCache) =
    (case find (\<lambda>e. na_eq (ae_protocolAddress e) q) arpCache of
       Some e \<Rightarrow> Some e
     | None \<Rightarrow> map_option (\<lambda>(p, h). \<lparr>ae_protocolAddress = p, ae_hardwareAddress = h\<rparr>) (find (\<lambda>(p, h). p = q) es))"
  using assms(1)
proof (induction es arbitrary: arpCache)
  case (Cons x es)
  obtain p h where x: "x = (p, h)"
    by (cases x)
  have p: "na_eq p q \<longleftrightarrow> p = q"
    using Cons.prems x ip4_eq_iff [OF _ assms(2)] by auto
  have "find (\<lambda>e. na_eq (ae_protocolAddress e) q) (setEntry arpCache p h) =
      (case find (\<lambda>e. na_eq (ae_protocolAddress e) q) arpCache of
         Some e \<Rightarrow> Some e
       | None \<Rightarrow> if p = q then Some \<lparr>ae_protocolAddress = p, ae_hardwareAddress = h\<rparr> else None)"
  proof (cases "find (\<lambda>e. na_eq (ae_protocolAddress e) q) arpCache")
    case None
    then have "\<forall>e \<in> set arpCache. \<not> na_eq (ae_protocolAddress e) q"
      by (auto simp: find_None_iff)
    then show ?thesis
      using None p by (auto simp: setEntry_def find_append list_ex_iff)
  next
    case (Some e)
    then show ?thesis
      by (simp add: setEntry_def find_append)
  qed
  then show ?case
    using Cons x by (auto split: option.splits)
qed (auto split: option.splits)

text \<open>
  C35. The address cache keeps what it learned first: after any sequence of learned pairs, the hardware
  address of a protocol address is the first one that was learned for it, and an address that was
  never learned throws INVALID_ARGUMENT. A host that changes its hardware address is not found again.
\<close>

theorem arp_cache_keeps_first:
  assumes "\<forall>(p, h) \<in> set es. ip4_ok p" and "ip4_ok q"
  shows "getHardwareAddress (learn es) q =
    (case find (\<lambda>(p, h). p = q) es of None \<Rightarrow> Inl INVALID_ARGUMENT | Some (p, h) \<Rightarrow> Inr h)"
  using learn_spec [OF assms, of "[]"] by (auto simp: getHardwareAddress_def learn_def split: option.splits)

abbreviation mac :: "u8 list \<Rightarrow> NetworkAddress" where
  "mac bs \<equiv> \<lparr>na_buffer = bs, na_length = 6, na_type = MAC\<rparr>"

theorem arp_cache_keeps_first_witness:
  "getHardwareAddress (learn [(ip4 [10, 0, 0, 2], mac [0, 0, 0, 0, 0, 1]), (ip4 [10, 0, 0, 2], mac [0, 0, 0, 0, 0, 2])])
     (ip4 [10, 0, 0, 2]) = Inr (mac [0, 0, 0, 0, 0, 1])"
  using arp_cache_keeps_first [of "[(ip4 [10, 0, 0, 2], mac [0, 0, 0, 0, 0, 1]), (ip4 [10, 0, 0, 2], mac [0, 0, 0, 0, 0, 2])]"
      "ip4 [10, 0, 0, 2]"] by (simp add: ip4_ok_def)

text \<open>
  C36. An answer to an ARP request does not go to the host that asked: if the cache knows the requested
  address, exactly one packet is sent, and the destination in its Ethernet header is the hardware
  address that the cache has for the requested address (the own one if the request is for the host
  itself); if it does not know it, nothing is sent. The requested address is not the asking one.
\<close>

theorem arp_reply_to_requested:
  assumes "mac_ok (nd_macAddress device)" and "mac_ok h" and "ip4_ok p" and "ip4_ok q" and "p \<noteq> q"
    and "\<forall>e \<in> set (ns_arpCache st). mac_ok (ae_hardwareAddress e)"
  shows "case getHardwareAddress (ns_arpCache st) q of
      Inl _ \<Rightarrow> \<exists>st'. handleRequest h p q device st = Inr st' \<and> ns_sent st' = ns_sent st
    | Inr m \<Rightarrow> \<exists>st' packet. handleRequest h p q device st = Inr st' \<and>
        ns_sent st' = ns_sent st @ [(nd_identifier device, packet)] \<and> take 6 packet = na_buffer m"
proof -
  have ne: "\<not> na_eq p q"
    using ip4_eq_iff [OF assms(3,4)] assms(5) by simp
  have cache: "find (\<lambda>e. na_eq (ae_protocolAddress e) q) (setEntry (ns_arpCache st) p h) =
      find (\<lambda>e. na_eq (ae_protocolAddress e) q) (ns_arpCache st)"
    using ne by (simp add: setEntry_def find_append split: option.splits)
  have has: "hasHardwareAddress es q \<longleftrightarrow> find (\<lambda>e. na_eq (ae_protocolAddress e) q) es \<noteq> None" for es
    by (auto simp: hasHardwareAddress_def list_ex_iff find_None_iff simp del: not_None_eq)
  show ?thesis
  proof (cases "find (\<lambda>e. na_eq (ae_protocolAddress e) q) (ns_arpCache st)")
    case None
    then show ?thesis
      using cache has by (simp add: getHardwareAddress_def handleRequest_def Let_def)
  next
    case (Some e)
    define m where "m = ae_hardwareAddress e"
    have m: "mac_ok m"
      using Some assms(6) by (auto simp: m_def find_Some_iff)
    have g: "getHardwareAddress (setEntry (ns_arpCache st) p h) q = Inr m" "getHardwareAddress (ns_arpCache st) q = Inr m"
        "hasHardwareAddress (setEntry (ns_arpCache st) p h) q"
      using Some cache has by (simp_all add: getHardwareAddress_def m_def)
    let ?packet = "finalizePacket (arp_writeHeader ARP_REPLY device m @ na_write (nd_macAddress device) @ na_write q @
        na_write h @ na_write p)"
    have l: "length (na_write (nd_macAddress device)) = 6" "length (na_write h) = 6" "length (na_write p) = 4" "length (na_write q) = 4"
      using assms(1-4) by (simp_all add: na_write_def mac_ok_def ip4_ok_def)
    have "length ?packet \<le> MAX_ETHERNET_PACKET_SIZE"
      using l eh.write_length [of "\<lparr>eh_destinationAddress = m, eh_sourceAddress = nd_macAddress device, eh_etherType = ETHERTYPE_ARP\<rparr>"]
        ah.write_length [of "ArpHeader_new\<lparr>ah_operation := ARP_REPLY\<rparr>"] assms(1) m
      by (simp add: finalizePacket_def arp_writeHeader_def eth_writeHeader_def eh_ok_def MAX_ETHERNET_PACKET_SIZE_def)
    moreover have "take 6 (?packet @ zs) = na_buffer m" for zs
      using m by (simp add: finalizePacket_def arp_writeHeader_def eth_writeHeader_def eh_write_def na_write_def mac_ok_def)
    ultimately show ?thesis
      using g by (simp add: handleRequest_def Let_def sendPacket_def del: take_append)
  qed
qed

theorem arp_reply_to_requested_witness:
  "\<exists>st' packet. handleRequest (mac [2, 0, 0, 0, 0, 9]) (ip4 [10, 0, 0, 9]) (ip4 [10, 0, 0, 1])
      \<lparr>nd_identifier = Str_of [101, 48], nd_macAddress = mac [2, 0, 0, 0, 0, 1]\<rparr>
      (sample_stack\<lparr>ns_arpCache := [\<lparr>ae_protocolAddress = ip4 [10, 0, 0, 1], ae_hardwareAddress = mac [2, 0, 0, 0, 0, 1]\<rparr>]\<rparr>) = Inr st' \<and>
    ns_sent st' = [(Str_of [101, 48], packet)] \<and> take 6 packet = [2, 0, 0, 0, 0, 1]"
  using arp_reply_to_requested [of "\<lparr>nd_identifier = Str_of [101, 48], nd_macAddress = mac [2, 0, 0, 0, 0, 1]\<rparr>" "mac [2, 0, 0, 0, 0, 9]"
      "ip4 [10, 0, 0, 9]" "ip4 [10, 0, 0, 1]"
      "sample_stack\<lparr>ns_arpCache := [\<lparr>ae_protocolAddress = ip4 [10, 0, 0, 1], ae_hardwareAddress = mac [2, 0, 0, 0, 0, 1]\<rparr>]\<rparr>"]
  by (simp add: mac_ok_def ip4_ok_def getHardwareAddress_def na_eq_def sample_stack_def)

section \<open>Long messages\<close>

text \<open>
  C33. A long ICMP message hangs the receiver: for a message of 255 or more bytes (an echo request with
  at least 247 bytes of data) the handler never returns, because its checksum loop counts with eight
  bits.
\<close>

theorem long_ping_hangs:
  assumes "255 \<le> unat (li_payloadLength information)"
  shows "icmp_readPacket junk wait stream information st = None"
proof -
  have "ip4_calculateChecksum buffer offset (li_payloadLength information) = None" for buffer offset
    using ip4_sum_diverges [of buffer offset "li_payloadLength information" 0 0] assms
    by (cases "ip4_sum buffer offset (li_payloadLength information) 0 0") (auto simp: ip4_calculateChecksum_def)
  then show ?thesis
    by (simp add: icmp_readPacket_def Let_def)
qed

theorem long_ping_hangs_witness:
  "icmp_readPacket (\<lambda>_. 0) id (stream_of []) \<lparr>li_sourceAddress = ip4 [10, 0, 0, 9], li_destinationAddress = ip4 [10, 0, 0, 1],
     li_payloadLength = 255\<rparr> sample_stack = None"
  using long_ping_hangs [of "\<lparr>li_sourceAddress = ip4 [10, 0, 0, 9], li_destinationAddress = ip4 [10, 0, 0, 1],
     li_payloadLength = 255\<rparr>"] by simp

end
