(* ===== verification/Network_Delivery.thy ===== *)
theory Network_Delivery
  imports Network_Modules
begin
unbundle bit_operations_syntax

text \<open>
  The protocol modules together: what a host sends over UDP is what the receiving host delivers, and the
  ports of the sockets. The lemmas show that both checksums depend only on the bytes they protect, so
  that writing the checksum into the packet does not change it.
\<close>

section \<open>Datagrams from end to end\<close>

lemma ip4_checksum_cong:
  assumes "unat n < 255" and "even (unat n)" and "even (unat offset)"
    and "\<And>i. i < unat n \<Longrightarrow> i \<noteq> unat offset \<Longrightarrow> i \<noteq> unat offset + 1 \<Longrightarrow> buffer (of_nat i) = buffer' (of_nat i)"
  shows "ip4_calculateChecksum buffer offset n = ip4_calculateChecksum buffer' offset n"
proof -
  have "word_at buffer (2 * j) = word_at buffer' (2 * j)" if "j < (unat n + 1) div 2" "2 * j \<noteq> unat offset" for j
  proof -
    have "Suc (2 * j) < unat n" "Suc (2 * j) \<noteq> unat offset" "2 * j \<noteq> Suc (unat offset)"
      using that assms(2,3) by presburger+
    then show ?thesis
      using that assms(4) [of "2 * j"] assms(4) [of "Suc (2 * j)"] by (simp add: word_at_def add.commute)
  qed
  then have "header_sum buffer offset 0 ((unat n + 1) div 2) = header_sum buffer' offset 0 ((unat n + 1) div 2)"
    unfolding header_sum_def by (intro arg_cong [where f = sum_list] map_cong) auto
  then show ?thesis
    using ip4_sum_spec [OF assms(1), of 0 buffer offset 0] ip4_sum_spec [OF assms(1), of 0 buffer' offset 0]
    by (simp add: ip4_calculateChecksum_def)
qed

lemma udp_checksum_cong:
  assumes "unat n < 65535" and "\<And>i. i < unat n \<Longrightarrow> i \<noteq> 6 \<Longrightarrow> i \<noteq> 7 \<Longrightarrow> datagram (of_nat i) = datagram' (of_nat i)"
  shows "udp_calculateChecksum pseudo datagram n = udp_calculateChecksum pseudo datagram' n"
proof -
  have "datagram_word datagram (unat n) j = datagram_word datagram' (unat n) j" if "j < (unat n + 1) div 2" for j
  proof (cases "j = 3")
    case False
    then have "2 * j < unat n" "2 * j \<noteq> 6" "2 * j \<noteq> 7" "Suc (2 * j) \<noteq> 6" "Suc (2 * j) \<noteq> 7"
      using that by presburger+
    then show ?thesis
      using assms(2) [of "2 * j"] assms(2) [of "Suc (2 * j)"] False by (simp add: datagram_word_def word_at_def add.commute)
  qed (simp add: datagram_word_def)
  then have "datagram_sum datagram (unat n) 0 = datagram_sum datagram' (unat n) 0"
    unfolding datagram_sum_def by (intro arg_cong [where f = sum_list] map_cong) auto
  then show ?thesis
    using udp_sum_spec [OF assms(1), of 0 datagram] udp_sum_spec [OF assms(1), of 0 datagram'] by (simp add: udp_calculateChecksum_def)
qed

lemma high_byte: "(ucast (signed_drop_bit 8 v) :: u8) = ucast (drop_bit 8 v)" for v :: u16
  by (rule bit_word_eqI) (simp add: bit_ucast_iff bit_signed_drop_bit_iff bit_drop_bit_eq)

lemma ucast_u32_u16: "(ucast (ucast x :: u32) :: u16) = x" for x :: u16
  by (rule bit_word_eqI) (simp add: bit_ucast_iff)

lemma memory_of_nth: "i < length bs \<Longrightarrow> length bs < 2 ^ 32 \<Longrightarrow> memory_of bs (of_nat i) = bs ! i"
  by (simp add: memory_of_def unat_of_nat32)

lemma ahead_nth: "ahead s bs \<Longrightarrow> i < length bs \<Longrightarrow> is_buffer s (is_position s + of_nat i) = bs ! i"
  by (simp add: ahead_def)

lemma bytes_from_ahead: "ahead s (bs @ zs) \<Longrightarrow> bytes_from s (length bs) = bs"
  by (rule nth_equalityI) (simp_all add: bytes_from_def ahead_def nth_append)

text \<open>The bytes of a UDP datagram are a header with its checksum and the payload.\<close>

lemma udp_datagram_bytes_spec:
  assumes "length payload + 8 < 65535"
  obtains c where "udp_datagram_bytes sourceIp destinationIp sourcePort destinationPort payload =
      Some (uh_write \<lparr>uh_sourcePort = sourcePort, uh_destinationPort = destinationPort,
            uh_datagramLength = of_nat (length payload) + 8, uh_checksum = c\<rparr> @ payload)"
    and "udp_calculateChecksum (memory_of (ph_write \<lparr>ph_sourceAddress = sourceIp, ph_destinationAddress = destinationIp,
            ph_datagramLength = of_nat (length payload) + 8\<rparr>))
          (memory_of (uh_write \<lparr>uh_sourcePort = sourcePort, uh_destinationPort = destinationPort,
            uh_datagramLength = of_nat (length payload) + 8, uh_checksum = c\<rparr> @ payload)) (of_nat (length payload) + 8) = Some c"
proof -
  let ?n = "of_nat (length payload) + 8 :: u16"
  let ?u = "\<lambda>c. \<lparr>uh_sourcePort = sourcePort, uh_destinationPort = destinationPort, uh_datagramLength = ?n, uh_checksum = c\<rparr>"
  let ?p = "memory_of (ph_write \<lparr>ph_sourceAddress = sourceIp, ph_destinationAddress = destinationIp, ph_datagramLength = ?n\<rparr>)"
  have "?n = of_nat (length payload + 8)"
    by simp
  then have n: "unat ?n = length payload + 8"
    using assms by (simp only: unat_of_nat) simp
  then have lt: "unat ?n < 65535"
    using assms by simp
  obtain c where c: "udp_calculateChecksum ?p (memory_of (uh_write (?u 0) @ payload)) ?n = Some c"
    using udp_sum_spec [OF lt, of 0] by (fastforce simp: udp_calculateChecksum_def)
  have same: "(uh_write (?u 0) @ payload) ! i = (uh_write (?u c) @ payload) ! i" if "i \<noteq> 6" "i \<noteq> 7" for i
    using that by (cases "i < 6") (auto simp: uh_write_def header_bytes nth_append nth_Cons split: nat.splits)
  have "udp_calculateChecksum ?p (memory_of (uh_write (?u c) @ payload)) ?n = Some c"
    unfolding c [symmetric] using uh.write_length [OF TrueI] assms
    by (intro udp_checksum_cong [OF lt]) (simp add: memory_of_nth same n)
  moreover have "(uh_write (?u 0) @ payload)[6 := ucast (drop_bit 8 c), 7 := ucast c] = uh_write (?u c) @ payload"
    by (simp add: uh_write_def header_bytes high_byte)
  ultimately show ?thesis
    using that [of c] c by (simp add: udp_datagram_bytes_def Let_def)
qed

lemma ahead_append: "ahead s (bs @ zs) \<Longrightarrow> ahead (past s (length bs)) zs"
  using ahead_drop [of s "bs @ zs" "length bs"] by simp

text \<open>A written IPv4 header carries the checksum that its reader computes, and it is read back.\<close>

lemma ip4_header_bytes_spec:
  assumes "ih_ok header"
  obtains bs where "ip4_header_bytes header = Some bs" and "length bs = 20" and "(bs ! 0 AND 0x0f) * 4 = 20"
    and "ip4_calculateChecksum (memory_of bs) IP4_CHECKSUM_OFFSET 20 = Some (be16 (bs ! 10) (bs ! 11))"
    and "\<And>s zs. ahead s (bs @ zs) \<Longrightarrow> run_state (ih_read Ip4Header_new) s = (header, past s 20)"
proof -
  obtain v p t q a b c d a' b' c' d' where h: "header = \<lparr>ih_version = v, ih_headerLength = 20, ih_payloadLength = p,
      ih_timeToLive = t, ih_protocol = q, ih_sourceAddress = \<lparr>na_buffer = [a, b, c, d], na_length = 4, na_type = IP4\<rparr>,
      ih_destinationAddress = \<lparr>na_buffer = [a', b', c', d'], na_length = 4, na_type = IP4\<rparr>\<rparr>" and v: "unat v < 16"
    using assms ip4_cases unfolding ih_ok_def MIN_HEADER_LENGTH_def by (cases header) fastforce
  let ?w = "ih_write header"
  have len: "length ?w = 20"
    by (rule ih.write_length [OF assms])
  have hl: "(?w ! 0 AND 0x0f) * 4 = 20"
    using version_byte(2) [OF v] by (simp add: h ih_write_def header_bytes MIN_HEADER_LENGTH_def)
  obtain sum where sum: "ip4_calculateChecksum (memory_of ?w) IP4_CHECKSUM_OFFSET 20 = Some sum"
    using ip4_sum_spec [of 20 0 "memory_of ?w" IP4_CHECKSUM_OFFSET 0] by (auto simp: ip4_calculateChecksum_def)
  define bs where "bs = ?w[10 := ucast (drop_bit 8 sum), 11 := ucast sum]"
  have "hd ?w = ?w ! 0"
    using len by (simp add: hd_conv_nth flip: length_greater_0_conv)
  then have "ip4_header_bytes header = Some bs"
    using sum hl by (simp add: ip4_header_bytes_def Let_def bs_def)
  moreover have lb: "length bs = 20"
    by (simp add: bs_def len)
  moreover have "(bs ! 0 AND 0x0f) * 4 = 20"
    using hl by (simp add: bs_def)
  moreover have "be16 (bs ! 10) (bs ! 11) = sum"
    using len be16_write [of sum] by (simp add: bs_def high_byte)
  moreover have "ip4_calculateChecksum (memory_of bs) IP4_CHECKSUM_OFFSET 20 = Some sum"
    unfolding sum [symmetric] by (rule ip4_checksum_cong) (simp_all add: IP4_CHECKSUM_OFFSET_def memory_of_nth lb len, simp add: bs_def)
  moreover have "run_state (ih_read Ip4Header_new) s = (header, past s 20)" if x: "ahead s (bs @ zs)" for s zs
    using read8_ahead [OF x, of 0] is_read_ahead [OF x, of 1] read16_ahead [OF x, of 2] discard_ahead [OF x, of 4 4]
      read8_ahead [OF x, of 8] read8_ahead [OF x, of 9] discard_ahead [OF x, of 10 2] na_read_ahead [OF x, of 12]
      na_read_ahead [OF x, of 16] version_byte [OF v]
    by (simp add: bs_def ih_read_def Ip4Header_new_def Ip4Address_new_def h ih_write_def header_bytes MIN_HEADER_LENGTH_def flip: numeral_2_eq_2)
  ultimately show ?thesis
    using that by simp
qed

text \<open>Who receives a datagram to the given address and port.\<close>

definition bound_to :: "NetworkAddress \<Rightarrow> u16 \<Rightarrow> Socket \<Rightarrow> bool" where
  "bound_to address port s \<longleftrightarrow>
     na_eq (getIp4Address (so_address s)) Ip4_ANY \<and> getPort (so_address s) = getPort (Ip4PortAddress_ofAddress address port) \<or>
     na_eq (so_address s) (Ip4PortAddress_ofAddress address port)"

lemma udp_read_spec:
  assumes "length payload + 8 < 65535"
    and "udp_datagram_bytes sourceIp destinationIp sourcePort destinationPort payload = Some datagram"
    and "ahead s (datagram @ zs)"
    and "li_sourceAddress information = sourceIp" and "li_destinationAddress information = destinationIp"
    and "ucast (li_payloadLength information) = (of_nat (length payload) + 8 :: u16)"
  shows "udp_readPacket s information st = Some (Inr (st\<lparr>ns_udpSockets := deliver (bound_to destinationIp destinationPort)
    \<lparr>dg_kind = UdpDatagram, dg_buffer = payload, dg_remoteAddress = Ip4PortAddress_ofAddress sourceIp sourcePort\<rparr> (ns_udpSockets st)\<rparr>))"
proof -
  let ?n = "of_nat (length payload) + 8 :: u16"
  obtain c where d: "datagram = uh_write \<lparr>uh_sourcePort = sourcePort, uh_destinationPort = destinationPort,
        uh_datagramLength = ?n, uh_checksum = c\<rparr> @ payload" (is "_ = uh_write ?u @ _")
      and c: "udp_calculateChecksum (memory_of (ph_write \<lparr>ph_sourceAddress = sourceIp, ph_destinationAddress = destinationIp,
        ph_datagramLength = ?n\<rparr>)) (memory_of datagram) ?n = Some c"
    using udp_datagram_bytes_spec [OF assms(1)] assms(2) by (metis option.inject)
  have "?n = of_nat (length payload + 8)"
    by simp
  then have un: "unat ?n = length payload + 8"
    using assms(1) by (simp only: unat_of_nat) simp
  have ld: "length datagram = length payload + 8"
    using uh.write_length [OF TrueI, of ?u] by (simp add: d)
  have a: "ahead s (uh_write ?u @ payload @ zs)"
    using assms(3) d by simp
  have r: "run_state uh_read s = (?u, past s 8)" "ahead (past s 8) (payload @ zs)"
    using uh.read_write [OF TrueI a] uh.behind [OF TrueI a] by simp_all
  have "udp_calculateChecksum ps (\<lambda>i. is_buffer s (is_position s + i)) ?n = udp_calculateChecksum ps (memory_of datagram) ?n" for ps
    using assms(1,3) ahead_nth [OF assms(3)] by (intro udp_checksum_cong) (simp_all add: un memory_of_nth ld nth_append)
  moreover have "bytes_from (past s 8) (length payload) = payload"
    by (rule bytes_from_ahead [OF r(2)])
  moreover have "is_position (past s 8) - UDP_HEADER_SIZE + i = is_position s + i" for i
    by (simp add: UDP_HEADER_SIZE_def)
  moreover have "unat (?n - 8) = length payload"
    using assms(1) by (simp add: unat_of_nat)
  ultimately show ?thesis
    using c by (simp add: udp_readPacket_def Let_def r(1) assms(4-6) bound_to_def [abs_def])
qed

lemma ip4_read_spec:
  assumes "ip4_header_bytes header = Some bs" and "ih_ok header" and "ih_version header = 4" and "ih_protocol header = PROTOCOL_UDP"
    and "length payload + 8 < 65535" and "ih_payloadLength header = of_nat (length payload) + 8"
    and "udp_datagram_bytes (ih_sourceAddress header) (ih_destinationAddress header) sourcePort destinationPort payload = Some datagram"
    and "ahead s (bs @ datagram @ zs)"
    and "getTargetInterfaces (ns_interfaces st) (ih_destinationAddress header) = Some (target # others)"
  shows "\<exists>st'. ip4_readPacket junk wait s st = Some (Inr st') \<and>
    ns_udpSockets st' = deliver (bound_to (ih_destinationAddress header) destinationPort)
      \<lparr>dg_kind = UdpDatagram, dg_buffer = payload,
       dg_remoteAddress = Ip4PortAddress_ofAddress (ih_sourceAddress header) sourcePort\<rparr> (ns_udpSockets st)"
proof -
  obtain bs' where bs': "ip4_header_bytes header = Some bs'" "length bs' = 20" "(bs' ! 0 AND 0x0f) * 4 = 20"
      "ip4_calculateChecksum (memory_of bs') IP4_CHECKSUM_OFFSET 20 = Some (be16 (bs' ! 10) (bs' ! 11))"
      "\<And>s zs. ahead s (bs' @ zs) \<Longrightarrow> run_state (ih_read Ip4Header_new) s = (header, past s 20)"
    using ip4_header_bytes_spec [OF assms(2)] by metis
  then have b: "length bs = 20" "(bs ! 0 AND 0x0f) * 4 = 20"
      "ip4_calculateChecksum (memory_of bs) IP4_CHECKSUM_OFFSET 20 = Some (be16 (bs ! 10) (bs ! 11))"
      and r: "run_state (ih_read Ip4Header_new) s = (header, past s 20)"
    using assms(1,8) by auto
  have nth: "is_buffer s (is_position s + of_nat i) = bs ! i" if "i < 20" for i
    using ahead_nth [OF assms(8), of i] that b(1) by (simp add: nth_append)
  have "ip4_calculateChecksum (\<lambda>i. is_buffer s (is_position s + i)) IP4_CHECKSUM_OFFSET 20 =
      ip4_calculateChecksum (memory_of bs) IP4_CHECKSUM_OFFSET 20"
    by (rule ip4_checksum_cong) (simp_all add: IP4_CHECKSUM_OFFSET_def memory_of_nth b(1) nth)
  moreover have "is_buffer s (is_position s + 0) = bs ! 0" "is_buffer s (is_position s + IP4_CHECKSUM_OFFSET) = bs ! 10"
      "is_buffer s (is_position s + (IP4_CHECKSUM_OFFSET + 1)) = bs ! 11"
    using nth [of 0] nth [of 10] nth [of 11] by (simp_all add: IP4_CHECKSUM_OFFSET_def)
  moreover have "(ucast ((bs ! 0 AND 0x0f) * 4) :: u32) = 20"
    by (simp only: b(2)) simp
  moreover have "ahead (past s 20) (datagram @ zs)"
    using ahead_append [OF assms(8)] b(1) by simp
  ultimately show ?thesis
    using udp_read_spec [OF assms(5,7), of "past s 20" zs] b(3) assms(3,4,6,9)
    by (simp add: ip4_readPacket_def Let_def r ucast_u32_u16 PROTOCOL_UDP_def PROTOCOL_ICMP_def)
qed

lemma finalizePacket_ahead:
  assumes "length packet \<le> 1522" and "n \<le> 64"
  obtains zs where "ahead (stream_of (finalizePacket packet @ replicate n 0)) (packet @ zs)"
proof -
  have "ahead (stream_of (packet @ zs)) (packet @ zs)" if "length zs \<le> 60 + n" for zs
    using assms that by (intro stream_of_ahead) simp
  from this [of "replicate (64 - 4 - length packet) 0 @ replicate n 0"] that show ?thesis
    by (simp add: finalizePacket_def)
qed

text \<open>
  C29. UDP from end to end, over the default route (the only one \<^verbatim>\<open>findRoute\<close> returns safely, see there).
  The default route is direct and belongs to an interface of the sender, the receiver is in the
  address cache, and the payload has at most 1480 bytes: then the datagram leaves the sender as
  exactly one packet. When the receiving device, whose stack has an interface for the destination,
  reads that packet, no checksum fails, and the sockets bound to the destination (and only those) get
  exactly the sent payload, with the address and port of the sender.
\<close>

theorem udp_end_to_end:
  assumes "findRoute junk st (getIp4Address a) (getIp4Address b) = Some (Inr route)" and "\<not> rt_nextHopValid route"
    and "getTargetInterfaces (ns_interfaces st) (rt_sourceAddress route) = Some (interface # others)"
    and "length (interface # others) < 2 ^ 32" and "getIp4Address (if_address interface) = rt_sourceAddress route"
    and "getHardwareAddress (ns_arpCache st) (getIp4Address b) = Inr (nd_macAddress device)"
    and "ip4_ok (rt_sourceAddress route)" and "ip4_ok (getIp4Address b)" and "length payload \<le> 1480"
    and "mac_ok (nd_macAddress (if_device interface))" and "mac_ok (nd_macAddress device)"
    and "getTargetInterfaces (ns_interfaces remote) (getIp4Address b) = Some (target # targets)"
  shows "\<exists>packet remote'.
    udp_writePacket junk wait a b payload st =
      Some (Inr (st\<lparr>ns_sent := ns_sent st @ [(nd_identifier (if_device interface), packet)]\<rparr>)) \<and>
    eth_readPacket junk' wait' (stream_of packet) (of_nat (length packet)) device remote = Some (Inr remote') \<and>
    ns_udpSockets remote' = deliver (bound_to (getIp4Address b) (getPort b))
      \<lparr>dg_kind = UdpDatagram, dg_buffer = payload,
       dg_remoteAddress = Ip4PortAddress_ofAddress (rt_sourceAddress route) (getPort a)\<rparr> (ns_udpSockets remote)"
proof -
  let ?n = "of_nat (length payload) + 8 :: u16"
  let ?h = "Ip4Header_new\<lparr>ih_sourceAddress := rt_sourceAddress route, ih_destinationAddress := getIp4Address b,
    ih_protocol := PROTOCOL_UDP, ih_payloadLength := ?n, ih_timeToLive := 64\<rparr>"
  let ?e = "\<lparr>eh_destinationAddress = nd_macAddress device, eh_sourceAddress = nd_macAddress (if_device interface),
    eh_etherType = ETHERTYPE_IP4\<rparr>"
  have n: "length payload + 8 < 65535"
    using assms(9) by simp
  have h: "ih_ok ?h"
    using assms(7,8) by (simp add: ih_ok_def Ip4Header_new_def)
  have e: "eh_ok ?e"
    using assms(10,11) by (simp add: eh_ok_def)
  obtain bs where bs: "ip4_header_bytes ?h = Some bs" "length bs = 20"
    using ip4_header_bytes_spec [OF h] by metis
  obtain d where d: "udp_datagram_bytes (rt_sourceAddress route) (getIp4Address b) (getPort a) (getPort b) payload = Some d"
      "length d = length payload + 8"
    using udp_datagram_bytes_spec [OF n, of "rt_sourceAddress route" "getIp4Address b" "getPort a" "getPort b"] uh.write_length [OF TrueI]
    by (metis add.commute length_append)
  define p where "p = eh_write ?e @ bs @ d"
  have lp: "length p \<le> 1522"
    using assms(9) eh.write_length [OF e] by (simp add: p_def bs d)
  define packet where "packet = finalizePacket p @ replicate (MIN_ETHERNET_PACKET_SIZE - length (finalizePacket p)) 0"
  have "hasHardwareAddress (ns_arpCache st) (getIp4Address b)"
    using assms(6) by (auto simp: getHardwareAddress_def hasHardwareAddress_def list_ex_iff split: option.splits) (metis find_Some_iff nth_mem)
  then have "resolveAddress wait (getIp4Address b) interface st = Inr (Some (nd_macAddress device), st)"
    using assms(6) by (simp add: resolveAddress_def MAX_REQUEST_RETRIES_def numeral_eq_Suc)
  then have "ip4_writeHeader junk wait (getIp4Address a) (getIp4Address b) PROTOCOL_UDP ?n st = Some (Inr (interface, eh_write ?e @ bs, st))"
    using assms(1-4) bs(1) by (simp add: ip4_writeHeader_def arr_get_ok eth_writeHeader_def)
  moreover have "\<not> MAX_ETHERNET_PACKET_SIZE < length (finalizePacket p)"
    using lp by (simp add: finalizePacket_def MAX_ETHERNET_PACKET_SIZE_def)
  ultimately have w: "udp_writePacket junk wait a b payload st =
      Some (Inr (st\<lparr>ns_sent := ns_sent st @ [(nd_identifier (if_device interface), packet)]\<rparr>))"
    using d(1) assms(5) by (simp add: udp_writePacket_def sendPacket_def packet_def p_def)
  obtain zs where zs: "ahead (stream_of packet) (eh_write ?e @ bs @ d @ zs)"
    using finalizePacket_ahead [OF lp, of "MIN_ETHERNET_PACKET_SIZE - length (finalizePacket p)"] unfolding packet_def p_def by (auto simp: MIN_ETHERNET_PACKET_SIZE_def)
  have r: "run_state (eh_read EthernetHeader_new) (stream_of packet) = (?e, past (stream_of packet) 14)"
      "ahead (past (stream_of packet) 14) (bs @ d @ zs)"
    using eh.read_write [OF e zs] eh.behind [OF e zs] by simp_all
  have "\<exists>st'. ip4_readPacket junk' wait' (past (stream_of packet) 14) (remote\<lparr>ns_ethernetSockets := ss\<rparr>) = Some (Inr st') \<and>
      ns_udpSockets st' = deliver (bound_to (getIp4Address b) (getPort b))
        \<lparr>dg_kind = UdpDatagram, dg_buffer = payload,
         dg_remoteAddress = Ip4PortAddress_ofAddress (rt_sourceAddress route) (getPort a)\<rparr> (ns_udpSockets remote)" for ss
    using ip4_read_spec [OF bs(1) h _ _ n _ _ r(2), of "getPort a" "getPort b" "remote\<lparr>ns_ethernetSockets := ss\<rparr>" target targets junk' wait']
      d(1) assms(12) by (simp add: Ip4Header_new_def)
  moreover have "na_eq (nd_macAddress device) (nd_macAddress device)"
    by (simp add: na_eq_def)
  ultimately have "\<exists>remote'. eth_readPacket junk' wait' (stream_of packet) (of_nat (length packet)) device remote = Some (Inr remote') \<and>
      ns_udpSockets remote' = deliver (bound_to (getIp4Address b) (getPort b))
        \<lparr>dg_kind = UdpDatagram, dg_buffer = payload,
         dg_remoteAddress = Ip4PortAddress_ofAddress (rt_sourceAddress route) (getPort a)\<rparr> (ns_udpSockets remote)"
    by (simp add: eth_readPacket_def Let_def r(1) ETHERTYPE_IP4_def ETHERTYPE_ARP_def)
  then show ?thesis
    using w by blast
qed

abbreviation sample_device :: "u8 \<Rightarrow> NetworkDevice" where
  "sample_device k \<equiv> \<lparr>nd_identifier = Str_of [101, 48], nd_macAddress = mac [2, 0, 0, 0, 0, k]\<rparr>"

definition sample_host :: "u8 \<Rightarrow> NetworkStack" where
  "sample_host k = sample_stack\<lparr>ns_routes := [], ns_interfaces := [\<lparr>if_address = subnet [10, 0, 0, k] 24, if_device = sample_device k\<rparr>],
     ns_arpCache := [\<lparr>ae_protocolAddress = ip4 [10, 0, 0, 2], ae_hardwareAddress = mac [2, 0, 0, 0, 0, 2]\<rparr>],
     ns_udpSockets := [\<lparr>so_id = 0, so_address = Ip4PortAddress_ofAddress (ip4 [10, 0, 0, k]) 53, so_incoming = []\<rparr>]\<rparr>"

theorem udp_end_to_end_witness:
  "\<exists>packet remote'.
    udp_writePacket (\<lambda>_. 0) id (Ip4PortAddress_ofAddress (ip4 [10, 0, 0, 1]) 1024) (Ip4PortAddress_ofAddress (ip4 [10, 0, 0, 2]) 53) [104, 105]
      (sample_host 1) = Some (Inr (sample_host 1\<lparr>ns_sent := [(Str_of [101, 48], packet)]\<rparr>)) \<and>
    eth_readPacket (\<lambda>_. 0) id (stream_of packet) (of_nat (length packet)) (sample_device 2) (sample_host 2) = Some (Inr remote') \<and>
    map so_incoming (ns_udpSockets remote') = [[\<lparr>dg_kind = UdpDatagram, dg_buffer = [104, 105],
      dg_remoteAddress = Ip4PortAddress_ofAddress (ip4 [10, 0, 0, 1]) 1024\<rparr>]]"
proof -
  let ?a = "Ip4PortAddress_ofAddress (ip4 [10, 0, 0, 1]) 1024" and ?b = "Ip4PortAddress_ofAddress (ip4 [10, 0, 0, 2]) 53"
  have "getIp4Address ?a = ip4 [10, 0, 0, 1]" "getIp4Address ?b = ip4 [10, 0, 0, 2]" "getPort ?a = 1024" "getPort ?b = 53"
    by code_simp+
  moreover have "getTargetInterfaces (ns_interfaces (sample_host 1)) (ip4 [10, 0, 0, 1]) =
      Some [\<lparr>if_address = subnet [10, 0, 0, 1] 24, if_device = sample_device 1\<rparr>]"
      "getTargetInterfaces (ns_interfaces (sample_host 2)) (ip4 [10, 0, 0, 2]) =
      Some [\<lparr>if_address = subnet [10, 0, 0, 2] 24, if_device = sample_device 2\<rparr>]"
      "getIp4Address (subnet [10, 0, 0, 1] 24) = ip4 [10, 0, 0, 1]"
    by code_simp+
  moreover have "findRoute (\<lambda>_. 0) (sample_host 1) (ip4 [10, 0, 0, 1]) (ip4 [10, 0, 0, 2]) = Some (Inr (sample_route [0, 0, 0, 0] 0))"
    by code_simp
  moreover have "bound_to (ip4 [10, 0, 0, 2]) 53 \<lparr>so_id = 0, so_address = ?b, so_incoming = []\<rparr>"
    by code_simp
  ultimately show ?thesis
    using udp_end_to_end [of "\<lambda>_. 0" "sample_host 1" ?a ?b "sample_route [0, 0, 0, 0] 0"
      "\<lparr>if_address = subnet [10, 0, 0, 1] 24, if_device = sample_device 1\<rparr>" "[]" "sample_device 2" "[104, 105]" "sample_host 2"
      "\<lparr>if_address = subnet [10, 0, 0, 2] 24, if_device = sample_device 2\<rparr>" "[]" id "\<lambda>_. 0" id]
    by (auto simp: sample_host_def sample_stack_def sample_route_def getHardwareAddress_def na_eq_def ip4_ok_def mac_ok_def deliver_def handleIncomingDatagram_def)
qed

section \<open>Ports\<close>

lemma find_upt_Some:
  assumes "card {i \<in> {a..<b}. P i} < b - a"
  obtains i where "find (\<lambda>i. \<not> P i) [a..<b] = Some i" and "a \<le> i" and "i < b" and "\<not> P i"
proof (cases "find (\<lambda>i. \<not> P i) [a..<b]")
  case None
  then have "{i \<in> {a..<b}. P i} = {a..<b}"
    by (auto simp: find_None_iff)
  then show ?thesis
    using assms by simp
next
  case (Some i)
  then have "i \<in> set [a..<b]" "\<not> P i"
    by (auto simp: find_Some_iff)
  then show ?thesis
    using that Some by simp
qed

text \<open>
  C40. A free port is found: while fewer than 64511 sockets are registered, \<^verbatim>\<open>generatePort\<close> returns a port
  between 1024 and 65534 that no socket of the same address uses.
\<close>

theorem generated_port_fresh:
  assumes "length socketList < 64511"
  shows "\<exists>p. generatePort socketList address = Inr p \<and> 1024 \<le> unat p \<and> unat p < 65535 \<and>
    (\<forall>s \<in> set socketList. getPort (so_address s) = p \<longrightarrow> \<not> na_eq (getIp4Address (so_address s)) address)"
proof -
  let ?P = "\<lambda>i. port_taken socketList address (of_nat i)"
  have "i \<in> (\<lambda>s. unat (getPort (so_address s))) ` set socketList" if i: "i \<in> {1024..<65535}" "?P i" for i
  proof -
    obtain s where s: "s \<in> set socketList" "ucast (getPort (so_address s)) = (of_nat i :: u32)"
      using i(2) by (auto simp: port_taken_def list_ex_iff)
    then have "unat (ucast (getPort (so_address s)) :: u32) = i"
      using i(1) by (simp add: unat_of_nat32)
    then have "unat (getPort (so_address s)) = i"
      by (simp add: unat_ucast_up)
    then show ?thesis
      using s(1) by blast
  qed
  then have "{i \<in> {1024..<65535}. ?P i} \<subseteq> (\<lambda>s. unat (getPort (so_address s))) ` set socketList"
    by blast
  then have "card {i \<in> {1024..<65535}. ?P i} \<le> card ((\<lambda>s. unat (getPort (so_address s))) ` set socketList)"
    by (rule card_mono [rotated]) simp
  also have "\<dots> \<le> length socketList"
    using card_image_le card_length le_trans by blast
  finally have "card {i \<in> {1024..<65535}. ?P i} < 65535 - 1024"
    using assms by simp
  then obtain i where i: "find (\<lambda>i. \<not> ?P i) [1024..<65535] = Some i" "1024 \<le> i" "i < 65535" "\<not> ?P i"
    by (rule find_upt_Some)
  have u: "unat (of_nat i :: u16) = i"
    using i(3) by (simp add: unat_of_nat)
  then have "(ucast (of_nat i :: u16) :: u32) = of_nat i"
    using i(3) by (simp add: word_unat_eq_iff unat_ucast_up unat_of_nat32)
  then show ?thesis
    using i u by (auto simp: generatePort_def port_taken_def list_ex_iff simp del: upt_rec_numeral)
qed

theorem generated_port_fresh_witness:
  "\<exists>p. generatePort [] (ip4 [10, 0, 0, 1]) = Inr p \<and> 1024 \<le> unat p \<and> unat p < 65535"
  using generated_port_fresh [of "[]" "ip4 [10, 0, 0, 1]"] by auto

end
