(* ===== verification/Spec2Isabelle.thy ===== *)
theory Spec2Isabelle
  imports Memory_Services Hash_Maps Queues Time_Values Network_Delivery
begin

text \<open>
  \<^bold>\<open>Verification of hhuOS.\<close>

  hhuOS is an operating system for 32-bit x86 machines, written in C++. Its kernel manages physical
  and virtual memory and has a UDP/IP stack; kernel and applications share a library with atomic
  operations, collections, strings, streams and time values. This development models the memory
  management, the network stack and the parts of the library they rest on. File names are relative to
  \<^verbatim>\<open>src/src/\<close>.

  \<^bold>\<open>The parts and their theories.\<close>

  \<^item> \<^verbatim>\<open>Prelude\<close>: word types, the errors of \<^verbatim>\<open>lib/util/base/Exception.h\<close>, results, outcomes, generic lemmas.
  \<^item> \<^verbatim>\<open>Address_Ops\<close> (\<^verbatim>\<open>lib/util/base/Address.cpp\<close>): accessors, range fill and copy, C strings, on a memory of bytes.
  \<^item> \<^verbatim>\<open>Atomics\<close> (\<^verbatim>\<open>lib/util/async/Atomic.cpp\<close>, \<^verbatim>\<open>Spinlock.cpp\<close>, \<^verbatim>\<open>ReentrantSpinlock.cpp\<close>) and \<^verbatim>\<open>Bitmaps\<close> (\<^verbatim>\<open>AtomicBitmap.cpp\<close>):
    every lock-prefixed instruction is one function; the threads that call them are step relations.
  \<^item> \<^verbatim>\<open>Block_Managers\<close>, \<^verbatim>\<open>Slab\<close>, \<^verbatim>\<open>Pools\<close>, \<^verbatim>\<open>Table_Managers\<close> (\<^verbatim>\<open>kernel/memory/BitmapMemoryManager.cpp\<close>, \<^verbatim>\<open>SlabAllocator.cpp\<close>,
    \<^verbatim>\<open>lib/util/collection/Pool.h\<close> and \<^verbatim>\<open>PagingAreaManager.cpp\<close>, \<^verbatim>\<open>TableMemoryManager.cpp\<close> and \<^verbatim>\<open>PageFrameAllocator.cpp\<close>).
  \<^item> \<^verbatim>\<open>Address_Spaces\<close> (\<^verbatim>\<open>kernel/memory/Paging.cpp\<close>, \<^verbatim>\<open>VirtualAddressSpace.cpp\<close>) and \<^verbatim>\<open>Memory_Services\<close>
    (\<^verbatim>\<open>kernel/service/MemoryService.cpp\<close>), where the chain is closed: page tables come from the paging area, frames
    from the page frame allocator, whose own tables come from the paging area as well.
  \<^item> \<^verbatim>\<open>Arrays\<close>, \<^verbatim>\<open>Array_Lists\<close>, \<^verbatim>\<open>Hash_Maps\<close>, \<^verbatim>\<open>Queues\<close> (\<^verbatim>\<open>lib/util/collection/\<close>) and \<^verbatim>\<open>Time_Values\<close> (\<^verbatim>\<open>lib/util/time/\<close>).
  \<^item> \<^verbatim>\<open>Strings\<close>, \<^verbatim>\<open>Print_Streams\<close>, \<^verbatim>\<open>Input_Streams\<close> (\<^verbatim>\<open>lib/util/base/String.cpp\<close>, \<^verbatim>\<open>CharacterTypes.cpp\<close>, \<^verbatim>\<open>lib/util/io/stream/\<close>,
    \<^verbatim>\<open>lib/util/network/NumberUtil.cpp\<close>).
  \<^item> \<^verbatim>\<open>Network_Addresses\<close>, \<^verbatim>\<open>Network_Headers\<close> (\<^verbatim>\<open>lib/util/network/\<close>), \<^verbatim>\<open>Network_Modules\<close> (\<^verbatim>\<open>kernel/network/\<close>) and
    \<^verbatim>\<open>Network_Delivery\<close>, which follows a datagram from the sender to the sockets of the receiver.

  \<^bold>\<open>How the code is modelled.\<close> A class is a record with the fields of the code, an operation is a function
  with the source's name (with a prefix where several classes have the same one) from the state before
  to the state after. Machine integers are words of their width, so wrap-around is the code's. An
  exception is \<open>Inl\<close> of the error, a normal return is \<open>Inr\<close>. Loops that may not end are
  \<^theory_text>\<open>partial_function (option)\<close> with \<open>None\<close> for not returning; no fuel is used anywhere. \<open>None\<close> also stands for
  undefined behaviour: a read or write outside of a buffer, a table at address zero, a reference into
  memory that was freed, a call that would wait for another thread for ever. Readers of packet headers
  are programs of the state monad over the input stream.

  What lies outside of the modelled code is a parameter: the content of fresh memory (\<open>d\<close>, \<open>junk\<close>), what
  other threads do to the network stack while a call sleeps (\<open>wait\<close>), the hash function, the heap that
  \<^verbatim>\<open>mapIO\<close> allocates from, the address of the end of the kernel. Operations of the network modules that
  hold a lock are single steps.

  \<^bold>\<open>Interfaces.\<close> Where one component relies on another, a locale states the contract: \<open>exclusive_lock\<close>,
  \<open>slot_source\<close>, \<open>block_manager\<close>, \<open>list_interface\<close>, \<open>map_interface\<close>, \<open>queue_interface\<close>, \<open>digit_parser\<close>,
  \<open>table_blocks\<close> (where allocation tables come from), \<open>page_table_source\<close> (where page tables come from)
  and \<open>header_codec\<close>. Each of them is interpreted on the model of the code that provides it; the last two
  memory contracts are interpreted on the page frame allocator over the paging area manager.

  \<^bold>\<open>What is shown.\<close>

  \<^item> Concurrency: for any number of threads and every interleaving, a spinlock excludes, two claims of a
    bitmap differ, and the elements of a pool are conserved.
  \<^item> Physical memory: blocks of the managers are disjoint and inside of their areas and the counters are
    exact; allocation of a page frame is correct with respect to frame numbers, independently of the
    loops; use counts of frames; the inverse index calculations.
  \<^item> Virtual memory: mapping and unmapping terminate and change exactly one translation, the invariant of
    all address spaces is kept by every sequence of operations, page faults are served with fresh
    frames. Excluded is one address, \<open>KERNEL_END\<close>, where the code shares a page table between all address
    spaces, which is proved too, as is the behaviour of page faults when memory is exhausted.
  \<^item> Library: byte-wise meaning of the word-wise copies, sorting, hash maps against maps, ring buffers
    against queues, lists, strings (substring search, split of join, parse of print), streams, time
    values against nanoseconds and dates against the Gregorian calendar.
  \<^item> Network: round trips of addresses and headers, the checksums against RFC 1071, subnets against
    RFC 4632, UDP from end to end, fresh ports, and what routing and address resolution do: these
    theorems describe defects of the code where it has them.

  \<^bold>\<open>Bounds.\<close> Theorems about buffers assume lengths below 2^32 (or 2^30 where the code doubles a size); the
  date theorem covers Unix times below 2^39, since from the year 32768 on the code reads the year as a
  negative number; the page frame theorems assume that the allocation tables are referenced from one
  block, which holds for all of a 32-bit address space with 4 KiB blocks (one block refers to 1024 tables
  of 2048 frames), because the inner loops do not find all frames otherwise. New tables are zero because
  the paging area manager zeroes its blocks; the contracts require this.

  \<^bold>\<open>Not modelled.\<close> Scheduler, threads and processes (context switches in assembler), interrupts and system
  call dispatch, devices and their drivers, storage and file systems, graphics, sound, input devices,
  the C library, applications, the boot code, logging, and the heap
  (\<^verbatim>\<open>lib/util/base/FreeListMemoryManager.cpp\<close>), which is a parameter where the memory service uses it.
  Floating point output and input, destructors and trivial accessors of the modelled classes are left
  out as well.
\<close>

end
